(* ===== verification/Prelude.thy ===== *)
theory Prelude
  imports Main "HOL-Library.Word" "HOL-Library.Finite_Map" "HOL-Library.Sublist"
    "HOL-Library.List_Lexorder" "HOL-Library.Char_ord" "HOL-Library.Product_Lexorder"
begin

text \<open>
  What the components share: the Go types they use, the functions of Go's \<^verbatim>\<open>strings\<close> and
  \<^verbatim>\<open>strconv\<close> packages that the sources call, and the generic lemmas on lists, finite maps and
  words.

  A Go string and a Go byte slice are sequences of bytes: \<open>string\<close> (a list of 8-bit characters)
  and \<open>bytes\<close> (a list of 8-bit words). A Go map is an \<open>fmap\<close>: finite, unordered, with
  \<open>maplen\<close> for \<^verbatim>\<open>len\<close>. Where a loop over a Go map depends on its (unspecified) iteration order,
  the order is an argument of the definition. Instants and durations are nanoseconds in \<open>int\<close>;
  every clock reading an operation makes is an argument.
\<close>

unbundle bit_operations_syntax

type_synonym byte = "8 word"
type_synonym bytes = "byte list"
type_synonym u16 = "16 word"
type_synonym u32 = "32 word"
type_synonym u64 = "64 word"
type_synonym time = int
type_synonym duration = int

named_theorems str_simps \<open>rewriting of the Go string functions\<close>
named_theorems inv_intros \<open>operations that preserve a component's invariant\<close>

abbreviation Second :: duration where "Second \<equiv> 1000000000"
abbreviation Minute :: duration where "Minute \<equiv> 60 * Second"

lemma unat_byte_lt: "unat (b :: byte) < 256"
  using unsigned_less [where ?'a = nat, of b] by simp

lemma unat_u16_lt: "unat (w :: u16) < 65536"
  using unsigned_less [where ?'a = nat, of w] by simp

lemma unat_u32_lt: "unat (w :: u32) < 4294967296"
  using unsigned_less [where ?'a = nat, of w] by simp

section \<open>Finite maps as Go maps\<close>

definition maplen :: "('k, 'v) fmap \<Rightarrow> nat" where
  "maplen m = fcard (fmdom m)"

definition mapget :: "'v \<Rightarrow> ('k, 'v) fmap \<Rightarrow> 'k \<Rightarrow> 'v" where
  "mapget z m k = (case fmlookup m k of None \<Rightarrow> z | Some v \<Rightarrow> v)"

text \<open>Deleting, inside a loop over a map, the entries that meet a condition.\<close>

definition map_delete_if :: "('k \<Rightarrow> 'v \<Rightarrow> bool) \<Rightarrow> ('k, 'v) fmap \<Rightarrow> ('k, 'v) fmap" where
  "map_delete_if P m = fmfilter (\<lambda>k. \<not> (\<exists>v. fmlookup m k = Some v \<and> P k v)) m"

lemma fmlookup_map_delete_if [simp]:
  "fmlookup (map_delete_if P m) k
     = (case fmlookup m k of None \<Rightarrow> None | Some v \<Rightarrow> if P k v then None else Some v)"
  by (auto simp: map_delete_if_def split: option.splits)

lemma map_delete_if_code [code]:
  "map_delete_if P m
     = fmfilter (\<lambda>k. case fmlookup m k of None \<Rightarrow> True | Some v \<Rightarrow> \<not> P k v) m"
  by (rule fmap_ext) (auto split: option.splits)

lemma fmlookup_upd_fun [simp]: "fmlookup (fmupd k v m) = (fmlookup m)(k \<mapsto> v)"
  by (rule ext) simp

lemma mapget_upd [simp]: "mapget z (fmupd k v m) k' = (if k' = k then v else mapget z m k')"
  by (simp add: mapget_def)

lemma maplen_empty [simp]: "maplen fmempty = 0"
  by (simp add: maplen_def)

lemma maplen_upd: "maplen (fmupd k v m) = (if k |\<in>| fmdom m then maplen m else Suc (maplen m))"
  by (simp add: maplen_def fcard_finsert_if)

lemma maplen_upd_le: "maplen (fmupd k v m) \<le> Suc (maplen m)"
  by (simp add: maplen_upd)

lemma maplen_mono: "fmdom m |\<subseteq>| fmdom m' \<Longrightarrow> maplen m \<le> maplen m'"
  by (simp add: maplen_def fcard_mono)

lemma maplen_drop_le: "maplen (fmdrop k m) \<le> maplen m"
  by (rule maplen_mono) auto

lemma maplen_filter_le: "maplen (fmfilter P m) \<le> maplen m"
  by (rule maplen_mono) auto

lemma maplen_delete_if_le: "maplen (map_delete_if P m) \<le> maplen m"
  by (simp add: map_delete_if_def maplen_filter_le)

section \<open>First match\<close>

lemma map_filter_mem: "y \<in> set (List.map_filter h xs) \<longleftrightarrow> (\<exists>x \<in> set xs. h x = Some y)"
  by (induction xs) (auto simp: map_filter_simps split: option.split)

lemma map_filter_distinct:
  "distinct (map g xs) \<Longrightarrow> (\<And>x y. h x = Some y \<Longrightarrow> f y = g x) \<Longrightarrow> distinct (map f (List.map_filter h xs))"
proof (induction xs)
  case (Cons x xs)
  then have "f y \<notin> f ` set (List.map_filter h xs)" if "h x = Some y" for y
    using that by (fastforce simp: map_filter_mem)
  with Cons show ?case by (auto simp: map_filter_simps split: option.split)
qed (simp add: map_filter_simps)

lemma find_append: "find P (xs @ ys) = (case find P xs of None \<Rightarrow> find P ys | Some x \<Rightarrow> Some x)"
  by (induction xs) simp_all

lemma find_Some_mem: "find P xs = Some x \<Longrightarrow> x \<in> set xs \<and> P x"
  by (induction xs) (auto split: if_splits)

lemma find_unique: "b \<in> set xs \<Longrightarrow> P b \<Longrightarrow> (\<And>x. x \<in> set xs \<Longrightarrow> P x \<Longrightarrow> x = b) \<Longrightarrow> find P xs = Some b"
  by (cases "find P xs") (metis find_None_iff, metis find_Some_mem)

lemma find_same:
  assumes "t \<in> set ts" "P t" "\<And>t'. t' \<in> set ts \<Longrightarrow> P t' \<Longrightarrow> f t' = f t"
  shows "\<exists>t'. find P ts = Some t' \<and> t' \<in> set ts \<and> f t' = f t"
  using assms by (cases "find P ts") (metis find_None_iff, metis find_Some_mem)

section \<open>Go strings\<close>

definition HasPrefix :: "string \<Rightarrow> string \<Rightarrow> bool" where
  "HasPrefix s p \<longleftrightarrow> take (length p) s = p"

definition HasSuffix :: "string \<Rightarrow> string \<Rightarrow> bool" where
  "HasSuffix s p \<longleftrightarrow> length p \<le> length s \<and> drop (length s - length p) s = p"

definition TrimSuffix :: "string \<Rightarrow> string \<Rightarrow> string" where
  "TrimSuffix s x = (if HasSuffix s x then take (length s - length x) s else s)"

text \<open>Case mapping on the ASCII letters; other bytes are left alone.\<close>

definition lower_char :: "char \<Rightarrow> char" where
  "lower_char c = (let n = of_char c :: nat in if 65 \<le> n \<and> n \<le> 90 then char_of (n + 32) else c)"

definition upper_char :: "char \<Rightarrow> char" where
  "upper_char c = (let n = of_char c :: nat in if 97 \<le> n \<and> n \<le> 122 then char_of (n - 32) else c)"

definition ToLower :: "string \<Rightarrow> string" where
  "ToLower = map lower_char"

definition ToUpper :: "string \<Rightarrow> string" where
  "ToUpper = map upper_char"

definition EqualFold :: "string \<Rightarrow> string \<Rightarrow> bool" where
  "EqualFold s t \<longleftrightarrow> ToLower s = ToLower t"

text \<open>\<^verbatim>\<open>strings.Split\<close> on a one-byte separator, and \<^verbatim>\<open>strings.Join\<close>.\<close>

fun Split :: "char \<Rightarrow> string \<Rightarrow> string list" where
  "Split c [] = [[]]"
| "Split c (x # xs) =
     (if x = c then [] # Split c xs
      else (case Split c xs of [] \<Rightarrow> [[x]] | w # ws \<Rightarrow> (x # w) # ws))"

fun Join :: "char \<Rightarrow> string list \<Rightarrow> string" where
  "Join c [] = []"
| "Join c [w] = w"
| "Join c (w # ws) = w @ c # Join c ws"

text \<open>\<^verbatim>\<open>strings.SplitN(s, sep, 2)\<close>: the part before the first separator and the rest.\<close>

definition SplitN2 :: "char \<Rightarrow> string \<Rightarrow> string list" where
  "SplitN2 c s = (if c \<in> set s
     then [takeWhile (\<lambda>x. x \<noteq> c) s, tl (dropWhile (\<lambda>x. x \<noteq> c) s)] else [s])"

lemma Split_not_Nil [simp]: "Split c s \<noteq> []"
  by (induction s) (auto split: list.splits)

lemma Split_single [str_simps]: "c \<notin> set s \<Longrightarrow> Split c s = [s]"
  by (induction s) auto

lemma Split_append [str_simps]: "Split c (a @ c # b) = Split c a @ Split c b"
  by (induction a) (auto split: list.splits)

lemma Join_Cons: "ws \<noteq> [] \<Longrightarrow> Join c (w # ws) = w @ c # Join c ws"
  by (cases ws) auto

lemma Join_Split [simp]: "Join c (Split c s) = s"
proof (induction s)
  case Nil
  then show ?case by simp
next
  case (Cons x xs)
  then show ?case
    by (cases "Split c xs"; cases "tl (Split c xs)") (auto simp: Join_Cons)
qed

lemma Split_inject: "Split c s = Split c t \<longleftrightarrow> s = t"
  by (metis Join_Split)

lemma Split_Join:
  "ws \<noteq> [] \<Longrightarrow> \<forall>w\<in>set ws. c \<notin> set w \<Longrightarrow> Split c (Join c ws) = ws"
  by (induction ws rule: induct_list012) (auto simp: str_simps)

lemma HasPrefix_append [simp]: "HasPrefix (p @ s) p"
  by (simp add: HasPrefix_def)

lemma HasPrefix_iff: "HasPrefix s p \<longleftrightarrow> (\<exists>r. s = p @ r)"
  by (metis HasPrefix_append HasPrefix_def append_take_drop_id)

lemma HasSuffix_iff: "HasSuffix s p \<longleftrightarrow> (\<exists>r. s = r @ p)"
proof
  assume "HasSuffix s p"
  then show "\<exists>r. s = r @ p"
    by (metis HasSuffix_def append_take_drop_id)
qed (auto simp: HasSuffix_def)

lemma TrimSuffix_append [simp]: "TrimSuffix (s @ x) x = s"
  by (simp add: TrimSuffix_def HasSuffix_iff)

lemma lower_char_idem [simp]: "lower_char (lower_char c) = lower_char c"
  by (auto simp: lower_char_def Let_def)

lemma ToLower_idem [simp]: "ToLower (ToLower s) = ToLower s"
  by (simp add: ToLower_def)

lemma EqualFold_refl [simp]: "EqualFold s s"
  by (simp add: EqualFold_def)

lemma length_ToLower [simp]: "length (ToLower s) = length s"
  by (simp add: ToLower_def)

lemma ToLower_take: "ToLower (take n s) = take n (ToLower s)"
  by (simp add: ToLower_def take_map)

lemma ToLower_append [simp]: "ToLower (s @ t) = ToLower s @ ToLower t"
  by (simp add: ToLower_def)

section \<open>Decimal and hexadecimal digits\<close>

definition digit_char :: "nat \<Rightarrow> char" where
  "digit_char n = char_of (if n < 10 then 48 + n else 87 + n)"

fun dec :: "nat \<Rightarrow> string" where
  "dec n = (if n < 10 then [digit_char n] else dec (n div 10) @ [digit_char (n mod 10)])"

declare dec.simps [simp del]

definition is_digit :: "char \<Rightarrow> bool" where
  "is_digit c \<longleftrightarrow> (let n = of_char c :: nat in 48 \<le> n \<and> n \<le> 57)"

definition digit_val :: "char \<Rightarrow> nat" where
  "digit_val c = of_char c - 48"

definition undec :: "string \<Rightarrow> nat" where
  "undec s = foldl (\<lambda>a c. 10 * a + digit_val c) 0 s"

text \<open>\<^verbatim>\<open>%x\<close> on a byte slice: two digits per byte.\<close>

definition hex_byte :: "byte \<Rightarrow> string" where
  "hex_byte b = [digit_char (unat b div 16), digit_char (unat b mod 16)]"

definition hex_bytes :: "bytes \<Rightarrow> string" where
  "hex_bytes bs = concat (map hex_byte bs)"

lemma of_char_digit_char: "n < 16 \<Longrightarrow> (of_char (digit_char n) :: nat) = (if n < 10 then 48 + n else 87 + n)"
  by (simp add: digit_char_def)

lemma digit_char_inject:
  assumes "m < 16" "n < 16"
  shows "digit_char m = digit_char n \<longleftrightarrow> m = n"
proof
  assume "digit_char m = digit_char n"
  then have "(of_char (digit_char m) :: nat) = of_char (digit_char n)" by simp
  with assms show "m = n"
    by (simp only: of_char_digit_char) (simp split: if_splits)
qed simp

lemma digit_char_zero: "digit_char 0 = CHR ''0''"
proof -
  have "(of_char (digit_char 0) :: nat) = of_char CHR ''0''"
    by (simp add: of_char_digit_char)
  then show ?thesis by (simp only: of_char_eq_iff)
qed

lemma digit_char_not_slash: "n < 16 \<Longrightarrow> CHR ''/'' \<noteq> digit_char n"
proof
  assume "n < 16" "CHR ''/'' = digit_char n"
  then have "(of_char CHR ''/'' :: nat) = (if n < 10 then 48 + n else 87 + n)"
    by (simp only: of_char_digit_char)
  then show False by (simp split: if_splits)
qed

lemma is_digit_digit_char: "n < 10 \<Longrightarrow> is_digit (digit_char n)"
  by (simp add: is_digit_def of_char_digit_char)

lemma digit_val_digit_char: "n < 10 \<Longrightarrow> digit_val (digit_char n) = n"
  by (simp add: digit_val_def of_char_digit_char)

lemma dec_digits: "\<forall>c\<in>set (dec n). is_digit c"
proof (induction n rule: dec.induct)
  case (1 n)
  then show ?case
    by (cases "n < 10") (auto simp: dec.simps [of n] is_digit_digit_char)
qed

lemma dec_not_Nil [simp]: "dec n \<noteq> []"
  by (subst dec.simps) simp

lemma undec_dec [simp]: "undec (dec n) = n"
proof (induction n rule: dec.induct)
  case (1 n)
  then show ?case
    by (cases "n < 10") (auto simp: dec.simps [of n] undec_def digit_val_digit_char)
qed

lemma dec_inject [simp]: "dec m = dec n \<longleftrightarrow> m = n"
  by (metis undec_dec)

lemma not_digit_notin_dec: "\<not> is_digit c \<Longrightarrow> c \<notin> set (dec n)"
  using dec_digits by blast

lemma separators_not_digit [simp]:
  "\<not> is_digit CHR ''/''" "\<not> is_digit CHR ''.''" "\<not> is_digit CHR ''-''"
  by (simp_all add: is_digit_def)

lemmas sep_notin_dec [simp] = separators_not_digit [THEN not_digit_notin_dec]

lemma dec_leading: "dec n = CHR ''0'' # cs \<longleftrightarrow> n = 0 \<and> cs = []"
proof (induction n arbitrary: cs rule: dec.induct)
  case (1 n)
  show ?case
  proof (cases "n < 10")
    case True
    then have "digit_char n = CHR ''0'' \<longleftrightarrow> n = 0"
      using digit_char_inject [of n 0] by (simp add: digit_char_zero)
    with True show ?thesis by (auto simp: dec.simps [of n])
  next
    case False
    then have "n div 10 \<noteq> 0" by simp
    with 1 [OF False] have "dec (n div 10) \<noteq> CHR ''0'' # ds" for ds by simp
    with False show ?thesis
      by (auto simp: dec.simps [of n] append_eq_Cons_conv)
  qed
qed

lemma slash_notin_hex [simp]: "CHR ''/'' \<notin> set (hex_bytes bs)"
proof -
  have "CHR ''/'' \<notin> set (hex_byte b)" for b
  proof -
    have "unat b div 16 < 16" using unat_byte_lt [of b] by linarith
    then show ?thesis by (simp add: hex_byte_def digit_char_not_slash)
  qed
  then show ?thesis by (auto simp: hex_bytes_def)
qed

lemma hex_byte_inject [simp]: "hex_byte a = hex_byte b \<longleftrightarrow> a = b"
proof
  assume eq: "hex_byte a = hex_byte b"
  have lt: "unat a div 16 < 16" "unat b div 16 < 16"
    using unat_byte_lt [of a] unat_byte_lt [of b] by linarith+
  from eq have "unat a div 16 = unat b div 16" "unat a mod 16 = unat b mod 16"
    using lt by (auto simp: hex_byte_def digit_char_inject)
  then have "unat a = unat b" by (metis div_mult_mod_eq)
  then show "a = b" by (simp add: word_unat_eq_iff)
qed simp

lemma hex_bytes_inject:
  assumes "length as = length bs"
  shows "hex_bytes as = hex_bytes bs \<longleftrightarrow> as = bs"
  using assms
proof (induction as bs rule: list_induct2)
  case (Cons a as b bs)
  have "length (hex_byte a) = length (hex_byte b)" by (simp add: hex_byte_def)
  with Cons.IH show ?case by (simp add: hex_bytes_def)
qed simp

section \<open>Byte slices\<close>

text \<open>\<^verbatim>\<open>binary.BigEndian.Uint16(p[i:i+2])\<close> and \<^verbatim>\<open>PutUint16\<close>, for indices within the slice.\<close>

definition be16 :: "bytes \<Rightarrow> nat \<Rightarrow> u16" where
  "be16 p i = push_bit 8 (ucast (p ! i)) OR ucast (p ! Suc i)"

definition put16 :: "bytes \<Rightarrow> nat \<Rightarrow> u16 \<Rightarrow> bytes" where
  "put16 p i v = p[i := ucast (drop_bit 8 v), Suc i := ucast v]"

text \<open>\<^verbatim>\<open>copy(p[lo:hi], src)\<close>: as many bytes as both slices have.\<close>

definition copy_at :: "bytes \<Rightarrow> nat \<Rightarrow> nat \<Rightarrow> bytes \<Rightarrow> bytes" where
  "copy_at p lo hi src =
     (let n = min (hi - lo) (length src) in take lo p @ take n src @ drop (lo + n) p)"

lemma length_put16 [simp]: "length (put16 p i v) = length p"
  by (simp add: put16_def)

lemma length_copy_at [simp]: "lo \<le> hi \<Longrightarrow> hi \<le> length p \<Longrightarrow> length (copy_at p lo hi src) = length p"
  by (auto simp: copy_at_def Let_def)

end
