(* ===== verification/Netip.thy ===== *)
theory Netip
  imports Prelude
begin

text \<open>
  IP addresses: the conversions of \<^verbatim>\<open>internal/ip/ip.go\<close>, and the part of Go's \<^verbatim>\<open>net/netip\<close> that the
  sources use (addresses, prefixes, their text forms and their order). The round trips at the end
  are what the allocator, the lease store and the packet mux rely on.
\<close>

section \<open>internal/ip\<close>

type_synonym quad = "byte \<times> byte \<times> byte \<times> byte"

fun IPv4NumFromBytes :: "quad \<Rightarrow> u32" where
  "IPv4NumFromBytes (b0, b1, b2, b3) =
     push_bit 24 (ucast b0) OR push_bit 16 (ucast b1) OR push_bit 8 (ucast b2) OR ucast b3"

definition IPv4BytesFromNum :: "u32 \<Rightarrow> quad" where
  "IPv4BytesFromNum num =
     (ucast (drop_bit 24 num), ucast (drop_bit 16 num), ucast (drop_bit 8 num), ucast num)"

text \<open>\<^verbatim>\<open>net.IPv4\<close> builds the 16-byte, IPv4-mapped form.\<close>

definition IPv4FromNum :: "u32 \<Rightarrow> bytes" where
  "IPv4FromNum num = replicate 10 0 @ [255, 255,
     ucast (drop_bit 24 num), ucast (drop_bit 16 num), ucast (drop_bit 8 num), ucast num]"

lemma IPv4NumFromBytes_BytesFromNum [simp]: "IPv4NumFromBytes (IPv4BytesFromNum n) = n"
proof (rule bit_word_eqI)
  fix i :: nat assume "i < LENGTH(32)"
  then consider "i < 8" | "8 \<le> i" "i < 16" | "16 \<le> i" "i < 24" | "24 \<le> i" "i < 32"
    by fastforce
  then show "bit (IPv4NumFromBytes (IPv4BytesFromNum n)) i = bit n i"
    by cases (auto simp: IPv4BytesFromNum_def bit_simps)
qed

lemma IPv4BytesFromNum_NumFromBytes [simp]: "IPv4BytesFromNum (IPv4NumFromBytes q) = q"
proof -
  obtain a b c d where q: "q = (a, b, c, d)" by (cases q)
  show ?thesis
    unfolding q IPv4BytesFromNum_def IPv4NumFromBytes.simps prod.inject
    by (intro conjI; rule bit_word_eqI) (auto simp: bit_simps dest: bit_imp_le_length)
qed

lemma IPv4NumFromBytes_inject: "IPv4NumFromBytes p = IPv4NumFromBytes q \<longleftrightarrow> p = q"
  by (metis IPv4BytesFromNum_NumFromBytes)

section \<open>netip.Addr\<close>

datatype addr = NoAddr | V4 u32 | V6 "128 word" string

fun Is4 :: "addr \<Rightarrow> bool" where
  "Is4 (V4 _) = True" | "Is4 _ = False"

fun Is6 :: "addr \<Rightarrow> bool" where
  "Is6 (V6 _ _) = True" | "Is6 _ = False"

definition IsValid :: "addr \<Rightarrow> bool" where
  "IsValid a \<longleftrightarrow> a \<noteq> NoAddr"

fun AddrFrom4 :: "quad \<Rightarrow> addr" where
  "AddrFrom4 q = V4 (IPv4NumFromBytes q)"

fun quad_bytes :: "quad \<Rightarrow> bytes" where
  "quad_bytes (a, b, c, d) = [a, b, c, d]"

definition bytes16 :: "128 word \<Rightarrow> bytes" where
  "bytes16 w = map (\<lambda>i. ucast (drop_bit (120 - 8 * i) w)) [0..<16]"

fun AsSlice :: "addr \<Rightarrow> bytes" where
  "AsSlice NoAddr = []"
| "AsSlice (V4 n) = quad_bytes (IPv4BytesFromNum n)"
| "AsSlice (V6 w _) = bytes16 w"

text \<open>\<^verbatim>\<open>As4\<close> panics unless the address is IPv4 (or IPv4-mapped); the sources call it on IPv4 only.\<close>

fun As4 :: "addr \<Rightarrow> quad option" where
  "As4 (V4 n) = Some (IPv4BytesFromNum n)" | "As4 _ = None"

fun AddrFromSlice :: "bytes \<Rightarrow> addr option" where
  "AddrFromSlice bs = (case bs of
       [a, b, c, d] \<Rightarrow> Some (AddrFrom4 (a, b, c, d))
     | _ \<Rightarrow> if length bs = 16
            then Some (V6 (foldl (\<lambda>w b. push_bit 8 w OR ucast b) 0 bs) []) else None)"

text \<open>\<^verbatim>\<open>Next\<close> is the zero address after the last one.\<close>

fun Next :: "addr \<Rightarrow> addr" where
  "Next NoAddr = NoAddr"
| "Next (V4 n) = (if n + 1 = 0 then NoAddr else V4 (n + 1))"
| "Next (V6 w z) = (if w + 1 = 0 then NoAddr else V6 (w + 1) z)"

text \<open>\<^verbatim>\<open>Compare\<close> orders by address length, then by value, then by zone.\<close>

fun addr_rank :: "addr \<Rightarrow> nat \<times> 128 word \<times> string" where
  "addr_rank NoAddr = (0, 0, [])"
| "addr_rank (V4 n) = (32, ucast n, [])"
| "addr_rank (V6 w z) = (128, w, z)"

lemma ucast_32_128_inject: "(ucast m :: 128 word) = ucast n \<longleftrightarrow> m = n" for m n :: u32
proof -
  have "unat (ucast w :: 128 word) = unat w" for w :: u32
  proof -
    have "unat w < 2 ^ 128" using unat_u32_lt [of w] by (rule less_trans) simp
    then show ?thesis by (simp add: unsigned_ucast_eq take_bit_eq_mod)
  qed
  then show ?thesis by (simp add: word_unat_eq_iff)
qed

lemma addr_rank_inject: "addr_rank a = addr_rank b \<Longrightarrow> a = b"
  by (cases a; cases b) (auto simp: ucast_32_128_inject)

instantiation addr :: linorder
begin

definition less_eq_addr :: "addr \<Rightarrow> addr \<Rightarrow> bool" where
  "a \<le> b \<longleftrightarrow> addr_rank a \<le> addr_rank b"

definition less_addr :: "addr \<Rightarrow> addr \<Rightarrow> bool" where
  "a < b \<longleftrightarrow> addr_rank a < addr_rank b"

instance
  by standard (auto simp: less_eq_addr_def less_addr_def intro: addr_rank_inject)

end

section \<open>Text form of addresses\<close>

definition string4 :: "u32 \<Rightarrow> string" where
  "string4 n = Join CHR ''.'' (map (\<lambda>b. dec (unat b)) (quad_bytes (IPv4BytesFromNum n)))"

fun hex_nat :: "nat \<Rightarrow> string" where
  "hex_nat n = (if n < 16 then [digit_char n] else hex_nat (n div 16) @ [digit_char (n mod 16)])"

declare hex_nat.simps [simp del]

definition groups16 :: "128 word \<Rightarrow> u16 list" where
  "groups16 w = map (\<lambda>i. ucast (drop_bit (112 - 16 * i) w)) [0..<8]"

definition zero_run :: "u16 list \<Rightarrow> nat" where
  "zero_run gs = length (takeWhile (\<lambda>g. g = 0) gs)"

text \<open>The longest run of at least two zero groups, the first such run on a tie.\<close>

definition zero_span :: "u16 list \<Rightarrow> (nat \<times> nat) option" where
  "zero_span gs = foldl (\<lambda>best i. let l = zero_run (drop i gs) in
      if 2 \<le> l \<and> (case best of None \<Rightarrow> True | Some (s, e) \<Rightarrow> e - s < l) then Some (i, i + l)
      else best) None [0..<length gs]"

definition string6 :: "128 word \<Rightarrow> string" where
  "string6 w = (let gs = groups16 w; part = (\<lambda>xs. Join CHR '':'' (map (\<lambda>g. hex_nat (unat g)) xs)) in
     case zero_span gs of
       None \<Rightarrow> part gs
     | Some (s, e) \<Rightarrow> part (take s gs) @ ''::'' @ part (drop e gs))"

definition Is4In6 :: "128 word \<Rightarrow> bool" where
  "Is4In6 w \<longleftrightarrow> drop_bit 32 w = 65535"

definition zone_suffix :: "string \<Rightarrow> string" where
  "zone_suffix z = (if z = [] then [] else CHR ''%'' # z)"

fun addr_String :: "addr \<Rightarrow> string" where
  "addr_String NoAddr = ''invalid IP''"
| "addr_String (V4 n) = string4 n"
| "addr_String (V6 w z) =
     (if Is4In6 w then ''::ffff:'' @ string4 (ucast w) else string6 w) @ zone_suffix z"

definition parse_octet :: "string \<Rightarrow> byte option" where
  "parse_octet s = (if s \<noteq> [] \<and> (\<forall>c\<in>set s. is_digit c) \<and> \<not> (1 < length s \<and> hd s = CHR ''0'')
       \<and> undec s \<le> 255
     then Some (word_of_nat (undec s)) else None)"

definition parseIPv4Fields :: "string \<Rightarrow> quad option" where
  "parseIPv4Fields s = (case map parse_octet (Split CHR ''.'' s) of
       [Some a, Some b, Some c, Some d] \<Rightarrow> Some (a, b, c, d)
     | _ \<Rightarrow> None)"

definition is_hex :: "char \<Rightarrow> bool" where
  "is_hex c \<longleftrightarrow> is_digit c \<or> (let n = of_char (lower_char c) :: nat in 97 \<le> n \<and> n \<le> 102)"

definition unhex :: "string \<Rightarrow> u16" where
  "unhex s = foldl (\<lambda>a c. 16 * a
     + word_of_nat (if is_digit c then digit_val c else of_char (lower_char c) - 87)) 0 s"

text \<open>
  The field loop of \<^verbatim>\<open>parseIPv6\<close>: the fields still to come, the fields read, the position of the
  ellipsis, the rest of the text.
\<close>

fun parseIPv6_loop :: "nat \<Rightarrow> u16 list \<Rightarrow> nat option \<Rightarrow> string \<Rightarrow> (u16 list \<times> nat option \<times> string) option" where
  "parseIPv6_loop 0 gs e s = Some (gs, e, s)"
| "parseIPv6_loop (Suc n) gs e s = (let h = takeWhile is_hex s; r = dropWhile is_hex s; gs' = gs @ [unhex h] in
     if h = [] \<or> 4 < length h then None
     else if r = [] then Some (gs', e, [])
     else if hd r = CHR ''.'' then
       (if e = None \<and> length gs \<noteq> 6 \<or> 8 < length gs + 2 then None
        else case parseIPv4Fields s of
            None \<Rightarrow> None
          | Some q \<Rightarrow> (let v = IPv4NumFromBytes q in Some (gs @ [ucast (drop_bit 16 v), ucast v], e, [])))
     else if hd r \<noteq> CHR '':'' \<or> tl r = [] then None
     else if hd (tl r) = CHR '':'' then
       (if e \<noteq> None then None
        else if tl (tl r) = [] then Some (gs', Some (length gs'), [])
        else parseIPv6_loop n gs' (Some (length gs')) (tl (tl r)))
     else parseIPv6_loop n gs' e (tl r))"

definition expand6 :: "u16 list \<Rightarrow> nat option \<Rightarrow> u16 list option" where
  "expand6 gs e = (case e of
       None \<Rightarrow> if length gs = 8 then Some gs else None
     | Some k \<Rightarrow> if length gs < 8 then Some (take k gs @ replicate (8 - length gs) 0 @ drop k gs) else None)"

definition parseIPv6 :: "string \<Rightarrow> addr option" where
  "parseIPv6 inp = (let zoned = CHR ''%'' \<in> set inp;
       s = takeWhile (\<lambda>c. c \<noteq> CHR ''%'') inp; zone = tl (dropWhile (\<lambda>c. c \<noteq> CHR ''%'') inp) in
     if zoned \<and> zone = [] then None
     else if s = ''::'' then Some (V6 0 (if zoned then zone else []))
     else let r = (if HasPrefix s ''::'' then parseIPv6_loop 8 [] (Some 0) (drop 2 s)
                   else parseIPv6_loop 8 [] None s) in
       case r of
         Some (gs, e, []) \<Rightarrow> map_option (\<lambda>fs. V6 (foldl (\<lambda>a g. push_bit 16 a OR ucast g) 0 fs)
             (if zoned then zone else [])) (expand6 gs e)
       | _ \<Rightarrow> None)"

definition ParseAddr :: "string \<Rightarrow> addr option" where
  "ParseAddr s = (case dropWhile (\<lambda>c. c \<noteq> CHR ''.'' \<and> c \<noteq> CHR '':'' \<and> c \<noteq> CHR ''%'') s of
       [] \<Rightarrow> None
     | c # _ \<Rightarrow> if c = CHR ''.'' then map_option AddrFrom4 (parseIPv4Fields s)
                else if c = CHR '':'' then parseIPv6 s else None)"

section \<open>netip.Prefix\<close>

datatype prefix = Prefix (PAddr: addr) (PBits: nat)

definition parse_bits :: "string \<Rightarrow> nat option" where
  "parse_bits s = (if s \<noteq> [] \<and> (\<forall>c\<in>set s. is_digit c) \<and> \<not> (1 < length s \<and> hd s = CHR ''0'')
     then Some (undec s) else None)"

definition ParsePrefix :: "string \<Rightarrow> prefix option" where
  "ParsePrefix s = (if CHR ''/'' \<notin> set s then None else
     let parts = Split CHR ''/'' s; ipstr = Join CHR ''/'' (butlast parts) in
     case ParseAddr ipstr of
       None \<Rightarrow> None
     | Some ip \<Rightarrow> (case ip of V6 _ (_ # _) \<Rightarrow> None | _ \<Rightarrow>
         (case parse_bits (last parts) of
            None \<Rightarrow> None
          | Some bits \<Rightarrow> if bits \<le> (if Is6 ip then 128 else 32) then Some (Prefix ip bits) else None)))"

fun Masked :: "prefix \<Rightarrow> prefix" where
  "Masked (Prefix (V4 n) b) = Prefix (V4 (n AND NOT (mask (32 - b)))) b"
| "Masked (Prefix (V6 w z) b) = Prefix (V6 (w AND NOT (mask (128 - b))) []) b"
| "Masked (Prefix NoAddr b) = Prefix NoAddr b"

fun Contains :: "prefix \<Rightarrow> addr \<Rightarrow> bool" where
  "Contains (Prefix (V4 n) b) (V4 m) \<longleftrightarrow> drop_bit (32 - b) (m XOR n) = 0"
| "Contains (Prefix (V6 n _) b) (V6 m z) \<longleftrightarrow> z = [] \<and> drop_bit (128 - b) (m XOR n) = 0"
| "Contains _ _ \<longleftrightarrow> False"

text \<open>Prefixes in terms of numbers: the masked base is a multiple of the block size.\<close>

lemma mask_out_eq: "n AND NOT (mask k) = push_bit k (drop_bit k n)" for n :: u32
  by (rule bit_word_eqI) (auto simp: bit_simps)

lemma unat_mask_out: "unat (n AND NOT (mask k)) = unat n div 2 ^ k * 2 ^ k" for n :: u32
proof -
  have "unat n div 2 ^ k * 2 ^ k \<le> unat n" by simp
  also have "\<dots> < 2 ^ 32" using unat_u32_lt [of n] by simp
  finally show ?thesis
    by (simp add: mask_out_eq unsigned_push_bit_eq unat_drop_bit_eq push_bit_nat_def drop_bit_nat_def
        take_bit_nat_eq_self)
qed

lemma Contains4_iff:
  "Contains (Prefix (V4 n) b) (V4 m) \<longleftrightarrow> unat m div 2 ^ (32 - b) = unat n div 2 ^ (32 - b)"
proof -
  have "x XOR y = 0 \<longleftrightarrow> x = y" for x y :: u32
    by (metis xor.assoc xor.left_neutral xor_self_eq)
  then show ?thesis
    by (simp add: drop_bit_xor word_unat_eq_iff unat_drop_bit_eq drop_bit_nat_def)
qed

section \<open>Round trips\<close>

lemma parse_octet_dec [simp]: "parse_octet (dec (unat b)) = Some b"
proof -
  have "hd (dec (unat b)) \<noteq> CHR ''0''" if "1 < length (dec (unat b))"
    using that dec_leading [of "unat b" "tl (dec (unat b))"]
    by (metis One_nat_def dec_not_Nil length_Cons less_irrefl list.collapse list.size(3))
  moreover have "unat b \<le> 255" using unat_byte_lt [of b] by linarith
  ultimately show ?thesis
    using dec_digits [of "unat b"] by (auto simp: parse_octet_def)
qed

lemma Split_string4:
  "Split CHR ''.'' (string4 n) = map (\<lambda>b. dec (unat b)) (quad_bytes (IPv4BytesFromNum n))"
  unfolding string4_def by (rule Split_Join) (cases "IPv4BytesFromNum n", auto)+

lemma parseIPv4Fields_string4 [simp]: "parseIPv4Fields (string4 n) = Some (IPv4BytesFromNum n)"
  by (cases "IPv4BytesFromNum n") (simp add: parseIPv4Fields_def Split_string4)

lemma string4_digits_first:
  "\<exists>r. dropWhile (\<lambda>c. c \<noteq> CHR ''.'' \<and> c \<noteq> CHR '':'' \<and> c \<noteq> CHR ''%'') (string4 n) = CHR ''.'' # r"
proof -
  obtain a b c d where q: "IPv4BytesFromNum n = (a, b, c, d)" by (cases "IPv4BytesFromNum n")
  have "\<forall>x\<in>set (dec (unat a)). x \<noteq> CHR ''.'' \<and> x \<noteq> CHR '':'' \<and> x \<noteq> CHR ''%''"
    using dec_digits [of "unat a"] by (auto simp: is_digit_def)
  then show ?thesis by (auto simp: string4_def q dropWhile_append)
qed

theorem ParseAddr_String4 [simp]: "ParseAddr (addr_String (V4 n)) = Some (V4 n)"
  using string4_digits_first [of n] by (auto simp: ParseAddr_def)

lemma addr_String4_inject: "addr_String (V4 m) = addr_String (V4 n) \<longleftrightarrow> m = n"
  by (metis ParseAddr_String4 addr.inject(1) option.inject)

lemma AddrFromSlice_AsSlice4 [simp]: "AddrFromSlice (AsSlice (V4 n)) = Some (V4 n)"
proof -
  obtain a b c d where q: "IPv4BytesFromNum n = (a, b, c, d)" by (cases "IPv4BytesFromNum n")
  then have "IPv4NumFromBytes (a, b, c, d) = n"
    by (metis IPv4NumFromBytes_BytesFromNum)
  with q show ?thesis by simp
qed

lemma length_AsSlice4 [simp]: "length (AsSlice (V4 n)) = 4"
  by (cases "IPv4BytesFromNum n") simp

lemma sep_notin_string4 [simp]: "CHR ''/'' \<notin> set (string4 n)"
  by (cases "IPv4BytesFromNum n") (simp add: string4_def)

end
