(* ===== verification/Allocator.thy ===== *)
theory Allocator
  imports Netip Sha256 "HOL-Library.Multiset"
begin

text \<open>
  \<^verbatim>\<open>internal/allocator/allocator.go\<close>: effective-address leases. The lease table maps a target key
  to its address, \<open>used\<close> maps an address to the key that holds it. Fresh addresses are found by
  hashing the key to a slot of the pool and probing linearly; the first three addresses of the
  block (network, host NAT, daemon DNS) are never handed out.

  The locale \<open>lease_pool\<close> is the contract of a single lease that \<open>Allocate\<close> relies on; it is
  interpreted by \<open>lease\<close>.
\<close>

section \<open>Data\<close>

datatype alloc_error =
    InvalidCIDR string
  | InvalidReserved addr
  | AlreadyLeased addr
  | PoolExhausted
  | As4Panic

record Lease =
  Key :: string
  IP :: addr

record Allocator =
  prefix_of :: prefix
  leases :: "(string, addr) fmap"
  used :: "(addr, string) fmap"

section \<open>Operations\<close>

definition Allocator_New :: "string \<Rightarrow> alloc_error + Allocator" where
  "Allocator_New cidr = (case ParsePrefix cidr of
       None \<Rightarrow> Inl (InvalidCIDR cidr)
     | Some p \<Rightarrow> if \<not> Is4 (PAddr p) \<or> 30 < PBits p then Inl (InvalidCIDR cidr)
                 else Inr \<lparr>prefix_of = p, leases = fmempty, used = fmempty\<rparr>)"

definition Reserve :: "Allocator \<Rightarrow> string \<Rightarrow> addr \<Rightarrow> alloc_error + Allocator" where
  "Reserve a key ip = (let base = PAddr (Masked (prefix_of a)) in
     if \<not> Is4 ip \<or> \<not> Contains (prefix_of a) ip \<or> ip = Next base \<or> ip = Next (Next base)
     then Inl (InvalidReserved ip)
     else if (case fmlookup (used a) ip of Some old \<Rightarrow> old \<noteq> key | None \<Rightarrow> False)
     then Inl (AlreadyLeased ip)
     else Inr (a\<lparr>used := fmupd ip key (used a), leases := fmupd key ip (leases a)\<rparr>))"

text \<open>The probe loop of \<open>lease\<close>: \<open>i\<close> runs over all slots once, starting at the hashed one.\<close>

function lease_loop :: "(addr, string) fmap \<Rightarrow> u32 \<Rightarrow> u32 \<Rightarrow> u32 \<Rightarrow> u32 \<Rightarrow> u32 option" where
  "lease_loop us n slot tot i =
     (if i < tot - 3 then
        let v = n + 3 + (slot - 3 + i) mod (tot - 3) in
        if V4 v |\<notin>| fmdom us then Some v else lease_loop us n slot tot (i + 1)
      else None)"
  by pat_completeness auto
termination
proof (relation "measure (\<lambda>(us, n, slot, tot, i). unat (tot - 3) - unat i)", goal_cases)
  case (2 us n slot tot i v)
  then have lt: "unat i < unat (tot - 3)" by (simp add: word_less_nat_alt)
  then have "unat (i + 1) = unat i + 1"
    using unat_u32_lt [of "tot - 3"] by (simp add: unat_word_ariths)
  with lt show ?case by simp
qed simp

declare lease_loop.simps [simp del]

definition lease :: "Allocator \<Rightarrow> string \<Rightarrow> alloc_error + addr \<times> Allocator" where
  "lease a k = (let ip = mapget NoAddr (leases a) k in
     if IsValid ip then Inr (ip, a)
     else case As4 (PAddr (Masked (prefix_of a))) of
       None \<Rightarrow> Inl As4Panic
     | Some base \<Rightarrow>
         let n = IPv4NumFromBytes base;
             total = push_bit (32 - PBits (prefix_of a)) (1 :: u32) in
         if total \<le> 3 then Inl PoolExhausted
         else let h = Sum256 (string_bytes k);
                  slot = IPv4NumFromBytes (h ! 0, h ! 1, h ! 2, h ! 3) mod (total - 3) + 3 in
           (case lease_loop (used a) n slot total 0 of
              None \<Rightarrow> Inl PoolExhausted
            | Some v \<Rightarrow> let ip = AddrFrom4 (IPv4BytesFromNum v) in
                Inr (ip, a\<lparr>used := fmupd ip k (used a), leases := fmupd k ip (leases a)\<rparr>)))"

text \<open>The loop of \<open>Allocate\<close>, for any lease operation: it stops at the first error.\<close>

fun lease_all :: "('a \<Rightarrow> string \<Rightarrow> 'e + addr \<times> 'a) \<Rightarrow> 'a \<Rightarrow> string list \<Rightarrow> 'e + Lease list \<times> 'a" where
  "lease_all ls a [] = Inr ([], a)"
| "lease_all ls a (k # ks) = (case ls a k of
       Inl e \<Rightarrow> Inl e
     | Inr (ip, a') \<Rightarrow> (case lease_all ls a' ks of
          Inl e \<Rightarrow> Inl e
        | Inr (out, a'') \<Rightarrow> Inr (\<lparr>Key = k, IP = ip\<rparr> # out, a'')))"

definition Allocate :: "Allocator \<Rightarrow> string list \<Rightarrow> alloc_error + Lease list \<times> Allocator" where
  "Allocate a keys = lease_all lease a (sort keys)"

section \<open>The contract of a lease\<close>

locale lease_pool =
  fixes inv :: "'a \<Rightarrow> bool"
    and owner :: "'a \<Rightarrow> string \<Rightarrow> addr option"
    and ok :: "'a \<Rightarrow> addr \<Rightarrow> bool"
    and ls :: "'a \<Rightarrow> string \<Rightarrow> 'e + addr \<times> 'a"
  assumes inv_ls: "inv a \<Longrightarrow> ls a k = Inr (ip, a') \<Longrightarrow> inv a'"
    and owner_ls: "inv a \<Longrightarrow> ls a k = Inr (ip, a') \<Longrightarrow> owner a' = (owner a)(k \<mapsto> ip)"
    and keep_ls: "inv a \<Longrightarrow> ls a k = Inr (ip, a') \<Longrightarrow> owner a k = Some ip0 \<Longrightarrow> ip = ip0"
    and hit_ls: "inv a \<Longrightarrow> owner a k = Some ip \<Longrightarrow> ls a k = Inr (ip, a)"
    and ok_ls: "inv a \<Longrightarrow> ls a k = Inr (ip, a') \<Longrightarrow> ok a' = ok a"
    and inj_owner: "inv a \<Longrightarrow> owner a k = Some ip \<Longrightarrow> owner a k' = Some ip \<Longrightarrow> k = k'"
    and ok_owner: "inv a \<Longrightarrow> owner a k = Some ip \<Longrightarrow> ok a ip"
begin

lemma owner_mono:
  "inv a \<Longrightarrow> ls a k = Inr (ip, a') \<Longrightarrow> owner a x = Some y \<Longrightarrow> owner a' x = Some y"
  using owner_ls [of a k ip a'] keep_ls [of a k ip a'] by auto

lemma all_keeps:
  assumes "inv a" "lease_all ls a ks = Inr (out, a')"
  shows "inv a' \<and> ok a' = ok a \<and> map Key out = ks
    \<and> (\<forall>x y. owner a x = Some y \<longrightarrow> owner a' x = Some y)
    \<and> (\<forall>l\<in>set out. owner a' (Key l) = Some (IP l))
    \<and> dom (owner a') = dom (owner a) \<union> set ks"
  using assms
proof (induction ks arbitrary: a out)
  case Nil
  then show ?case by simp
next
  case (Cons k ks)
  then obtain ip b out' where b: "ls a k = Inr (ip, b)" and
    rest: "lease_all ls b ks = Inr (out', a')" and out: "out = \<lparr>Key = k, IP = ip\<rparr> # out'"
    by (auto split: sum.splits prod.splits)
  have "inv b" using Cons.prems(1) b by (rule inv_ls)
  note IH = Cons.IH [OF \<open>inv b\<close> rest]
  have "ok b = ok a" "owner b = (owner a)(k \<mapsto> ip)"
    using Cons.prems(1) b by (simp_all add: ok_ls owner_ls)
  moreover have "owner b x = Some y" if "owner a x = Some y" for x y
    using Cons.prems(1) b that by (rule owner_mono)
  moreover have "owner a' k = Some ip" using IH \<open>owner b = _\<close> by simp
  ultimately show ?case using IH out by auto
qed

lemma all_distinct:
  assumes "inv a" "lease_all ls a ks = Inr (out, a')" "l \<in> set out" "m \<in> set out"
  shows "IP l = IP m \<longleftrightarrow> Key l = Key m" "ok a (IP l)"
proof -
  note * = all_keeps [OF assms(1,2)]
  then show "IP l = IP m \<longleftrightarrow> Key l = Key m"
    using assms(3,4) inj_owner [of a'] by (metis option.inject)
  from * assms(3) show "ok a (IP l)" using ok_owner [of a'] by metis
qed

lemma all_hits:
  assumes "inv a" "\<forall>k\<in>set ks. owner a k \<noteq> None"
  shows "lease_all ls a ks = Inr (map (\<lambda>k. \<lparr>Key = k, IP = the (owner a k)\<rparr>) ks, a)"
  using assms(2)
proof (induction ks)
  case Nil
  then show ?case by simp
next
  case (Cons k ks)
  then obtain ip where ip: "owner a k = Some ip" by auto
  then have "ls a k = Inr (ip, a)" by (rule hit_ls [OF assms(1)])
  with Cons ip show ?case by simp
qed

lemma all_stable:
  assumes "inv a" "lease_all ls a ks = Inr (out, a')" "set ks' \<subseteq> set ks \<union> dom (owner a)"
  shows "lease_all ls a' ks' = Inr (map (\<lambda>k. \<lparr>Key = k, IP = the (owner a' k)\<rparr>) ks', a')"
proof (rule all_hits)
  note * = all_keeps [OF assms(1,2)]
  then show "inv a'" by blast
  from * have "dom (owner a') = dom (owner a) \<union> set ks" by blast
  then show "\<forall>k\<in>set ks'. owner a' k \<noteq> None" using assms(3) by auto
qed

end

section \<open>The probe sequence\<close>

text \<open>The geometry of a pool: base \<open>n\<close>, size \<open>t\<close>, the first slot \<open>slot\<close>.\<close>

definition pool_ok :: "u32 \<Rightarrow> u32 \<Rightarrow> u32 \<Rightarrow> bool" where
  "pool_ok n slot t \<longleftrightarrow> 3 < unat t \<and> unat t \<le> 2 ^ 31 \<and> unat n + unat t \<le> 2 ^ 32
     \<and> slot - 3 < t - 3"

lemma pool_okD:
  assumes "pool_ok n slot t"
  shows "unat (t - 3) = unat t - 3" "unat (slot - 3) < unat t - 3"
proof -
  have "3 \<le> t" using assms by (simp add: pool_ok_def word_le_nat_alt)
  then show eq: "unat (t - 3) = unat t - 3" by (simp add: unat_sub)
  show "unat (slot - 3) < unat t - 3"
    using assms eq by (simp add: pool_ok_def word_less_nat_alt)
qed

lemma probe_value:
  assumes "pool_ok n slot t" "i < t - 3"
  shows "unat (n + 3 + (slot - 3 + i) mod (t - 3))
    = unat n + 3 + (unat (slot - 3) + unat i) mod (unat t - 3)"
proof -
  note D = pool_okD [OF assms(1)]
  have i: "unat i < unat t - 3" using assms(2) D by (simp add: word_less_nat_alt)
  have t: "unat t \<le> 2 ^ 31" "unat n + unat t \<le> 2 ^ 32" "3 < unat t"
    using assms(1) by (simp_all add: pool_ok_def)
  have sum: "unat (slot - 3 + i) = unat (slot - 3) + unat i"
    using D(2) i t(1) by (subst unat_add_lem [THEN iffD1]) simp_all
  have m: "unat ((slot - 3 + i) mod (t - 3)) = (unat (slot - 3) + unat i) mod (unat t - 3)"
    by (simp add: unat_mod sum D(1))
  have lt: "(unat (slot - 3) + unat i) mod (unat t - 3) < unat t - 3" using t(3) by simp
  have n3: "unat (n + 3) = unat n + 3"
    using t(2,3) by (subst unat_add_lem [THEN iffD1]) simp_all
  from lt t(2,3) have "unat n + 3 + (unat (slot - 3) + unat i) mod (unat t - 3) < 2 ^ 32"
    by linarith
  then show ?thesis
    by (subst unat_add_lem [THEN iffD1]) (simp_all add: n3 m)
qed

lemma lease_loop_free:
  assumes "pool_ok n slot t" "lease_loop us n slot t i = Some v"
  shows "V4 v |\<notin>| fmdom us \<and> unat n + 3 \<le> unat v \<and> unat v < unat n + unat t"
  using assms
proof (induction us n slot t i rule: lease_loop.induct)
  case (1 us n slot t i)
  let ?v = "n + 3 + (slot - 3 + i) mod (t - 3)"
  have i: "i < t - 3" using "1.prems"(2) by (auto simp: lease_loop.simps [of us n slot t i] split: if_splits)
  show ?case
  proof (cases "V4 ?v |\<in>| fmdom us")
    case True
    then show ?thesis
      using "1.IH" [OF i refl] "1.prems" i
      by (simp add: lease_loop.simps [of us n slot t i] Let_def)
  next
    case False
    then have v: "v = ?v"
      using "1.prems"(2) i by (simp add: lease_loop.simps [of us n slot t i] Let_def)
    have "3 < unat t" using "1.prems"(1) by (simp add: pool_ok_def)
    then have "(unat (slot - 3) + unat i) mod (unat t - 3) < unat t - 3" by simp
    then have "unat n + 3 \<le> unat ?v \<and> unat ?v < unat n + unat t"
      using probe_value [OF "1.prems"(1) i] by linarith
    with False v show ?thesis by simp
  qed
qed

lemma lease_loop_full:
  assumes "pool_ok n slot t" "lease_loop us n slot t i = None" "unat i \<le> j" "j < unat t - 3"
    and v: "unat v = unat n + 3 + (unat (slot - 3) + j) mod (unat t - 3)"
  shows "V4 v |\<in>| fmdom us"
  using assms
proof (induction us n slot t i rule: lease_loop.induct)
  case (1 us n slot t i)
  let ?v = "n + 3 + (slot - 3 + i) mod (t - 3)"
  note D = pool_okD [OF "1.prems"(1)]
  have i: "i < t - 3" using "1.prems"(3,4) D by (simp add: word_less_nat_alt)
  have taken: "V4 ?v |\<in>| fmdom us" and rest: "lease_loop us n slot t (i + 1) = None"
    using "1.prems"(2) i by (auto simp: lease_loop.simps [of us n slot t i] Let_def split: if_splits)
  show ?case
  proof (cases "j = unat i")
    case True
    then have "unat v = unat ?v" using "1.prems"(5) probe_value [OF "1.prems"(1) i] by simp
    then have "v = ?v" by (simp add: word_unat_eq_iff)
    with taken show ?thesis by simp
  next
    case False
    have "unat i < unat t - 3" using i D by (simp add: word_less_nat_alt)
    moreover have "unat t \<le> 2 ^ 31" using "1.prems"(1) by (simp add: pool_ok_def)
    ultimately have "unat (i + 1) = unat i + 1"
      by (subst unat_add_lem [THEN iffD1]) simp_all
    with False "1.prems"(3) have "unat (i + 1) \<le> j" by simp
    then show ?thesis
      using "1.IH" [OF i refl] taken rest "1.prems"(1,4,5) by simp
  qed
qed

lemma mod_onto:
  assumes "x < m" "s < (m :: nat)"
  obtains j where "j < m" "(s + j) mod m = x"
proof
  show "(x + m - s) mod m < m" using assms by simp
  have "(s + (x + m - s) mod m) mod m = (s + (x + m - s)) mod m" by (rule mod_add_right_eq)
  also have "s + (x + m - s) = x + m" using assms by simp
  finally show "(s + (x + m - s) mod m) mod m = x" using assms by simp
qed

text \<open>Probing visits every slot: it fails exactly when no address of the pool is free.\<close>

lemma lease_loop_None_iff:
  assumes "pool_ok n slot t"
  shows "lease_loop us n slot t 0 = None
    \<longleftrightarrow> (\<forall>v. unat n + 3 \<le> unat v \<and> unat v < unat n + unat t \<longrightarrow> V4 v |\<in>| fmdom us)"
proof
  assume none: "lease_loop us n slot t 0 = None"
  show "\<forall>v. unat n + 3 \<le> unat v \<and> unat v < unat n + unat t \<longrightarrow> V4 v |\<in>| fmdom us"
  proof (intro allI impI, elim conjE)
    fix v :: u32 assume v: "unat n + 3 \<le> unat v" "unat v < unat n + unat t"
    then have "unat v - unat n - 3 < unat t - 3" by simp
    then obtain j where j: "j < unat t - 3"
      "(unat (slot - 3) + j) mod (unat t - 3) = unat v - unat n - 3"
      using pool_okD(2) [OF assms] by (rule mod_onto)
    show "V4 v |\<in>| fmdom us"
      by (rule lease_loop_full [OF assms none _ j(1)]) (use v j(2) in auto)
  qed
next
  assume "\<forall>v. unat n + 3 \<le> unat v \<and> unat v < unat n + unat t \<longrightarrow> V4 v |\<in>| fmdom us"
  then show "lease_loop us n slot t 0 = None"
    using lease_loop_free [OF assms, of us 0] by (cases "lease_loop us n slot t 0") auto
qed

section \<open>The pool of a prefix\<close>

definition pool_base :: "prefix \<Rightarrow> u32" where
  "pool_base p = (case PAddr (Masked p) of V4 n \<Rightarrow> n | _ \<Rightarrow> 0)"

text \<open>What \<open>Reserve\<close> accepts: inside the prefix, neither the host NAT nor the DNS address.\<close>

definition leasable :: "prefix \<Rightarrow> addr \<Rightarrow> bool" where
  "leasable p ip \<longleftrightarrow> Is4 ip \<and> Contains p ip
     \<and> ip \<noteq> Next (PAddr (Masked p)) \<and> ip \<noteq> Next (Next (PAddr (Masked p)))"

text \<open>What \<open>lease\<close> hands out: an address after the first three of the block.\<close>

definition in_pool :: "prefix \<Rightarrow> addr \<Rightarrow> bool" where
  "in_pool p ip \<longleftrightarrow> (case ip of
       V4 v \<Rightarrow> unat (pool_base p) + 3 \<le> unat v \<and> unat v < unat (pool_base p) + 2 ^ (32 - PBits p)
     | _ \<Rightarrow> False)"

definition valid_pool :: "prefix \<Rightarrow> bool" where
  "valid_pool p \<longleftrightarrow> Is4 (PAddr p) \<and> PBits p \<le> 30"

lemma valid_poolE:
  assumes "valid_pool p"
  obtains n b where "p = Prefix (V4 n) b" "b \<le> 30" "PAddr (Masked p) = V4 (pool_base p)"
    "unat (pool_base p) = unat n div 2 ^ (32 - b) * 2 ^ (32 - b)"
    "unat (pool_base p) + 2 ^ (32 - b) \<le> 2 ^ 32" "4 \<le> (2 :: nat) ^ (32 - b)"
proof -
  from assms obtain n b where p: "p = Prefix (V4 n) b" and b: "b \<le> 30"
    by (cases p) (auto simp: valid_pool_def elim: Is4.elims)
  have base: "pool_base p = n AND NOT (mask (32 - b))" by (simp add: p pool_base_def)
  have eq: "unat (pool_base p) = unat n div 2 ^ (32 - b) * 2 ^ (32 - b)"
    by (simp add: base unat_mask_out)
  have split: "(2 :: nat) ^ 32 = 2 ^ b * 2 ^ (32 - b)" using b by (simp flip: power_add)
  have "unat n < 2 ^ b * 2 ^ (32 - b)" using unat_u32_lt [of n] split by simp
  then have "unat n div 2 ^ (32 - b) < 2 ^ b" by (rule less_mult_imp_div_less)
  then have "Suc (unat n div 2 ^ (32 - b)) * 2 ^ (32 - b) \<le> 2 ^ b * 2 ^ (32 - b)"
    by (intro mult_le_mono1) simp
  then have top: "unat (pool_base p) + 2 ^ (32 - b) \<le> 2 ^ 32" using eq split by simp
  have "(2 :: nat) ^ 2 \<le> 2 ^ (32 - b)" using b by (intro power_increasing) auto
  then have "4 \<le> (2 :: nat) ^ (32 - b)" by simp
  moreover have "PAddr (Masked p) = V4 (pool_base p)" by (simp add: p pool_base_def)
  ultimately show thesis using p b eq top by (intro that)
qed

lemma Next_base:
  assumes "valid_pool p"
  shows "Next (PAddr (Masked p)) = V4 (pool_base p + 1)"
    "Next (Next (PAddr (Masked p))) = V4 (pool_base p + 2)"
    "unat (pool_base p + 1) = unat (pool_base p) + 1" "unat (pool_base p + 2) = unat (pool_base p) + 2"
proof -
  obtain n b where p: "p = Prefix (V4 n) b" "PAddr (Masked p) = V4 (pool_base p)"
    "unat (pool_base p) + 2 ^ (32 - b) \<le> 2 ^ 32" "4 \<le> (2 :: nat) ^ (32 - b)"
    using assms by (rule valid_poolE)
  then have lt: "unat (pool_base p) + 2 < 2 ^ 32" by linarith
  then show u: "unat (pool_base p + 1) = unat (pool_base p) + 1"
    "unat (pool_base p + 2) = unat (pool_base p) + 2"
    by (subst unat_add_lem [THEN iffD1]; simp)+
  then have "pool_base p + 1 \<noteq> 0" "pool_base p + 1 + 1 \<noteq> 0"
    by (auto simp: word_unat_eq_iff add.assoc)
  then show "Next (PAddr (Masked p)) = V4 (pool_base p + 1)"
    "Next (Next (PAddr (Masked p))) = V4 (pool_base p + 2)"
    by (simp_all add: p(2) add.assoc)
qed

lemma in_pool_leasable:
  assumes "valid_pool p" "in_pool p ip"
  shows "leasable p ip"
proof -
  obtain n b where p: "p = Prefix (V4 n) b" "PAddr (Masked p) = V4 (pool_base p)"
    "unat (pool_base p) = unat n div 2 ^ (32 - b) * 2 ^ (32 - b)"
    using assms(1) by (rule valid_poolE)
  from assms(2) p(1) obtain v where v: "ip = V4 v" "unat (pool_base p) + 3 \<le> unat v"
    "unat v < unat (pool_base p) + 2 ^ (32 - b)"
    by (auto simp: in_pool_def split: addr.splits)
  have "unat v div 2 ^ (32 - b) = unat n div 2 ^ (32 - b)"
    by (rule div_nat_eqI) (use v p(3) in \<open>simp_all add: mult.commute\<close>)
  then have "Contains p ip" by (simp add: p(1) v(1) Contains4_iff del: Contains.simps)
  moreover have "v \<noteq> pool_base p + 1" "v \<noteq> pool_base p + 2"
    using Next_base(3,4) [OF assms(1)] v(2) by auto
  ultimately show ?thesis
    unfolding leasable_def v(1) unfolding Next_base(2) [OF assms(1)]
    unfolding Next_base(1) [OF assms(1)] by simp
qed

section \<open>Invariant\<close>

definition alloc_inv :: "Allocator \<Rightarrow> bool" where
  "alloc_inv a \<longleftrightarrow> valid_pool (prefix_of a)
     \<and> (\<forall>k ip. fmlookup (leases a) k = Some ip
          \<longrightarrow> fmlookup (used a) ip = Some k \<and> leasable (prefix_of a) ip)"

lemma alloc_inv_New [inv_intros]: "Allocator_New cidr = Inr a \<Longrightarrow> alloc_inv a"
  by (auto simp: Allocator_New_def alloc_inv_def valid_pool_def split: option.splits if_splits)

lemma Reserve_iff:
  "Reserve a k ip = Inr a' \<longleftrightarrow> leasable (prefix_of a) ip
     \<and> (fmlookup (used a) ip = None \<or> fmlookup (used a) ip = Some k)
     \<and> a' = a\<lparr>used := fmupd ip k (used a), leases := fmupd k ip (leases a)\<rparr>"
  by (auto simp: Reserve_def Let_def leasable_def split: option.splits)

lemma alloc_inv_Reserve [inv_intros]:
  "alloc_inv a \<Longrightarrow> Reserve a k ip = Inr a' \<Longrightarrow> alloc_inv a'"
  unfolding Reserve_iff alloc_inv_def by (auto split: if_splits)

lemma lease_hit:
  assumes "alloc_inv a" "fmlookup (leases a) k = Some ip"
  shows "lease a k = Inr (ip, a)"
proof -
  from assms have "Is4 ip" by (auto simp: alloc_inv_def leasable_def)
  then have "IsValid ip" by (cases ip) (auto simp: IsValid_def)
  with assms(2) show ?thesis by (simp add: lease_def mapget_def)
qed

lemma unat_block: "b \<le> 30 \<Longrightarrow> b \<noteq> 0 \<Longrightarrow> unat (push_bit (32 - b) 1 :: u32) = 2 ^ (32 - b)"
  using unat_of_nat [where ?'a = 32, of "2 ^ (32 - b)"] power_strict_increasing [of "32 - b" 32 "2 :: nat"]
  by simp

text \<open>A key without a lease gets a free pool address, or there is none.\<close>

lemma lease_miss:
  assumes inv: "alloc_inv a" and none: "fmlookup (leases a) k = None"
  shows "(\<exists>ip. lease a k = Inr (ip, a\<lparr>used := fmupd ip k (used a), leases := fmupd k ip (leases a)\<rparr>)
           \<and> ip |\<notin>| fmdom (used a) \<and> in_pool (prefix_of a) ip)
       \<or> (lease a k = Inl PoolExhausted
           \<and> (PBits (prefix_of a) = 0 \<or> (\<forall>ip. in_pool (prefix_of a) ip \<longrightarrow> ip |\<in>| fmdom (used a))))"
proof -
  let ?p = "prefix_of a"
  have vp: "valid_pool ?p" using inv by (simp add: alloc_inv_def)
  obtain n b where p: "?p = Prefix (V4 n) b" "b \<le> 30" "PAddr (Masked ?p) = V4 (pool_base ?p)"
    "unat (pool_base ?p) + 2 ^ (32 - b) \<le> 2 ^ 32" "4 \<le> (2 :: nat) ^ (32 - b)"
    using vp by (rule valid_poolE)
  let ?t = "push_bit (32 - b) (1 :: u32)"
  define h where "h = Sum256 (string_bytes k)"
  define slot where "slot = IPv4NumFromBytes (h ! 0, h ! 1, h ! 2, h ! 3) mod (?t - 3) + 3"
  have hit: "mapget NoAddr (leases a) k = NoAddr" using none by (simp add: mapget_def)
  show ?thesis
  proof (cases "b = 0")
    case True
    then have "?t = 0" by simp
    then show ?thesis using hit p(1,3) True by (simp add: lease_def Let_def IsValid_def)
  next
    case False
    have t: "unat ?t = 2 ^ (32 - b)" using p(2) False by (rule unat_block)
    have big: "(2 :: nat) ^ (32 - b) \<le> 2 ^ 31" using False by (intro power_increasing) auto
    have "unat (?t - 3) = unat ?t - 3" using t p(5) by (simp add: unat_sub word_le_nat_alt)
    then have pos: "0 < ?t - 3" using t p(5) by (simp add: word_less_nat_alt)
    have ok: "pool_ok (pool_base ?p) slot ?t"
      using t p(4,5) big pos by (simp add: pool_ok_def slot_def word_mod_less_divisor)
    have gt: "\<not> ?t \<le> 3" using t p(5) by (simp add: word_le_nat_alt)
    have eq: "lease a k = (case lease_loop (used a) (pool_base ?p) slot ?t 0 of
         None \<Rightarrow> Inl PoolExhausted
       | Some v \<Rightarrow> Inr (V4 v, a\<lparr>used := fmupd (V4 v) k (used a), leases := fmupd k (V4 v) (leases a)\<rparr>))"
      using hit p(1,3) gt
      by (simp add: lease_def Let_def IsValid_def slot_def h_def pool_base_def cong: option.case_cong)
    have pool: "in_pool ?p ip \<longleftrightarrow> (\<exists>v. ip = V4 v \<and> unat (pool_base ?p) + 3 \<le> unat v
        \<and> unat v < unat (pool_base ?p) + unat ?t)" for ip
      using p(1) t by (auto simp: in_pool_def split: addr.splits)
    show ?thesis
    proof (cases "lease_loop (used a) (pool_base ?p) slot ?t 0")
      case None
      then have "\<forall>ip. in_pool ?p ip \<longrightarrow> ip |\<in>| fmdom (used a)"
        unfolding pool lease_loop_None_iff [OF ok] by blast
      with None eq show ?thesis by simp
    next
      case (Some v)
      then show ?thesis using eq lease_loop_free [OF ok Some] pool by auto
    qed
  qed
qed

lemma lease_Inr:
  assumes "alloc_inv a" "lease a k = Inr (ip, a')"
  shows "alloc_inv a' \<and> prefix_of a' = prefix_of a \<and> fmlookup (leases a') = (fmlookup (leases a))(k \<mapsto> ip)
    \<and> (\<forall>ip0. fmlookup (leases a) k = Some ip0 \<longrightarrow> ip = ip0)
    \<and> (fmlookup (leases a) k = None \<longrightarrow> in_pool (prefix_of a) ip)"
proof (cases "fmlookup (leases a) k")
  case None
  then have a': "a' = a\<lparr>used := fmupd ip k (used a), leases := fmupd k ip (leases a)\<rparr>"
    "ip |\<notin>| fmdom (used a)" "in_pool (prefix_of a) ip"
    using lease_miss [OF assms(1) None] assms(2) by auto
  have "valid_pool (prefix_of a)" using assms(1) by (simp add: alloc_inv_def)
  then have "leasable (prefix_of a) ip" using a'(3) by (rule in_pool_leasable)
  moreover have "fmlookup (used a) ip = None" using a'(2) by (simp add: fmlookup_dom_iff)
  ultimately have "Reserve a k ip = Inr a'" by (simp add: Reserve_iff a'(1))
  then have "alloc_inv a'" by (rule alloc_inv_Reserve [OF assms(1)])
  with a' None show ?thesis by simp
next
  case (Some ip0)
  then show ?thesis using lease_hit [OF assms(1) Some] assms by auto
qed

interpretation lease_table: lease_pool alloc_inv "\<lambda>a. fmlookup (leases a)" "\<lambda>a. leasable (prefix_of a)" lease
proof (unfold_locales, goal_cases)
  case (6 a k ip k')
  then show ?case by (metis alloc_inv_def option.inject)
next
  case (7 a k ip)
  then show ?case by (simp add: alloc_inv_def)
qed (auto dest: lease_Inr lease_hit)

lemma alloc_inv_Allocate [inv_intros]:
  "alloc_inv a \<Longrightarrow> Allocate a keys = Inr (out, a') \<Longrightarrow> alloc_inv a'"
  unfolding Allocate_def by (drule (1) lease_table.all_keeps) simp

lemma lease_all_prefix:
  "alloc_inv a \<Longrightarrow> lease_all lease a ks = Inr (out, a') \<Longrightarrow> prefix_of a' = prefix_of a"
proof (induction ks arbitrary: a out)
  case (Cons k ks)
  then obtain ip b out' where b: "lease a k = Inr (ip, b)" "lease_all lease b ks = Inr (out', a')"
    by (auto split: sum.splits prod.splits)
  then show ?case using lease_Inr [OF Cons.prems(1) b(1)] Cons.IH by metis
qed simp

section \<open>Properties\<close>

abbreviation demo_alloc :: Allocator where
  "demo_alloc \<equiv> \<lparr>prefix_of = Prefix (V4 0x0AC00000) 16,
     leases = fmupd ''b'' (V4 0x0AC00004) (fmupd ''a'' (V4 0x0AC00005) fmempty),
     used = fmupd (V4 0x0AC00004) ''b'' (fmupd (V4 0x0AC00005) ''a'' fmempty)\<rparr>"

lemma demo_alloc_inv: "alloc_inv demo_alloc"
  by (simp add: alloc_inv_def valid_pool_def leasable_def mask_numeral)

lemma demo_alloc_Allocate:
  "Allocate demo_alloc [''b'', ''a'']
     = Inr ([\<lparr>Key = ''a'', IP = V4 0x0AC00005\<rparr>, \<lparr>Key = ''b'', IP = V4 0x0AC00004\<rparr>], demo_alloc)"
  by (simp add: Allocate_def lease_def mapget_def IsValid_def Let_def)

text \<open>
  C3: \<open>Allocate\<close> keeps the lease table consistent, returns one lease per requested key in sorted key
  order, gives two keys the same address only if they are the same key, and never returns an
  address outside the configured prefix, the host NAT address or the DNS address.
\<close>

theorem Allocate_safe:
  assumes "alloc_inv a" "Allocate a keys = Inr (out, a')"
  shows "alloc_inv a' \<and> map Key out = sort keys
    \<and> (\<forall>l\<in>set out. \<forall>m\<in>set out. IP l = IP m \<longleftrightarrow> Key l = Key m)
    \<and> (\<forall>l\<in>set out. leasable (prefix_of a) (IP l))"
  using lease_table.all_keeps [OF assms(1), of "sort keys" out a']
    lease_table.all_distinct [OF assms(1), of "sort keys" out a'] assms(2)
  by (auto simp: Allocate_def)

theorem Allocate_safe_witness:
  "alloc_inv demo_alloc \<and> leasable (prefix_of demo_alloc) (V4 0x0AC00005)"
  using Allocate_safe [OF demo_alloc_inv demo_alloc_Allocate] by simp

text \<open>
  Probing is complete: asking for a lease fails exactly when the key has none yet and either the
  prefix is a /0 or every address after the first three of the block is taken.
\<close>

lemma lease_fails_iff:
  assumes "alloc_inv a"
  shows "(\<exists>e. lease a k = Inl e) \<longleftrightarrow> fmlookup (leases a) k = None
    \<and> (PBits (prefix_of a) = 0 \<or> (\<forall>ip. in_pool (prefix_of a) ip \<longrightarrow> ip |\<in>| fmdom (used a)))"
proof (cases "fmlookup (leases a) k")
  case None
  have zero: "\<exists>e. lease a k = Inl e" if "PBits (prefix_of a) = 0"
    using that None assms
    by (auto simp: lease_def mapget_def IsValid_def Let_def split: option.splits)
  show ?thesis using lease_miss [OF assms None] None zero by auto
next
  case (Some ip)
  then show ?thesis using lease_hit [OF assms Some] by simp
qed

text \<open>
  Leases are stable: allocating any subset of the keys again changes nothing and returns leases
  that the first call returned.
\<close>

lemma Allocate_stable:
  assumes "alloc_inv a" "Allocate a ks = Inr (out, a')" "set ks' \<subseteq> set ks"
  shows "\<exists>out'. Allocate a' ks' = Inr (out', a') \<and> map Key out' = sort ks' \<and> set out' \<subseteq> set out"
proof -
  let ?l = "\<lambda>k. \<lparr>Key = k, IP = the (fmlookup (leases a') k)\<rparr>"
  have all: "lease_all lease a (sort ks) = Inr (out, a')" using assms(2) by (simp add: Allocate_def)
  note K = lease_table.all_keeps [OF assms(1) all]
  have "?l k \<in> set out" if "k \<in> set ks" for k
  proof -
    from that K obtain l where "l \<in> set out" "Key l = k"
      by (metis image_iff list.set_map set_sort)
    moreover from this K have "l = ?l k" by (cases l) auto
    ultimately show ?thesis by simp
  qed
  then have "set (map ?l (sort ks')) \<subseteq> set out" using assms(3) by auto
  moreover have "lease_all lease a' (sort ks') = Inr (map ?l (sort ks'), a')"
    by (rule lease_table.all_stable [OF assms(1) all]) (use assms(3) in auto)
  ultimately show ?thesis by (auto simp: Allocate_def comp_def)
qed

text \<open>
  The result of \<open>Allocate\<close> does not depend on the order in which the keys are given.
\<close>

lemma Allocate_order_independent:
  assumes "mset ks = mset ks'"
  shows "Allocate a ks = Allocate a ks'"
proof -
  have "sort ks = sort ks'" using assms by (intro properties_for_sort) auto
  then show ?thesis by (simp add: Allocate_def)
qed

text \<open>
  A /0 pool is accepted by the constructor, but the 32-bit block size wraps to zero, so no key can
  ever be leased from it.
\<close>

lemma slash_zero_exhausted:
  "\<exists>a. Allocator_New ''0.0.0.0/0'' = Inr a \<and> (\<forall>k. lease a k = Inl PoolExhausted)"
proof -
  have "ParsePrefix ''0.0.0.0/0'' = Some (Prefix (V4 0) 0)"
    by code_simp
  then show ?thesis
    by (simp add: Allocator_New_def lease_def mapget_def IsValid_def)
qed

end
