(* ===== verification/Inventory.thy ===== *)
theory Inventory
  imports Netip "HOL-Library.Multiset"
begin

text \<open>
  \<^verbatim>\<open>internal/inventory/inventory.go\<close>: the aggregate view of the targets of all profiles, the key
  that identifies a target, and the ordered first-match policy for canonical addresses.

  \<^verbatim>\<open>sort.Slice\<close> promises a sorted permutation and nothing about the order of equal elements, so
  the sorter is an argument of \<open>Build\<close>; the locale \<open>slice_sorter\<close> states its contract, and
  Go's insertion sort (what \<^verbatim>\<open>sort.Slice\<close> runs on short slices) is shown to meet it.
\<close>

section \<open>Data\<close>

definition Node :: string where "Node = ''node''"
definition Service :: string where "Service = ''service''"

record Target =
  ProfileID :: string
  ProfileName :: string
  Order :: int
  Kind :: string
  ID :: string
  FQDN :: string
  Online :: bool
  CanonicalIP :: addr

record InvProfile =
  P_ID :: string
  P_Name :: string
  P_Order :: int
  P_Targets :: "Target list"

record Snapshot =
  Targets :: "Target list"
  Canonical :: "(addr, Target list) fmap"
  byFQDN :: "(string, Target list) fmap"

section \<open>Operations\<close>

definition target_Key :: "Target \<Rightarrow> string" where
  "target_Key t = ProfileID t @ ''/'' @ Kind t @ ''/'' @ ID t @ ''/'' @ addr_String (CanonicalIP t)"

definition target_less :: "Target \<Rightarrow> Target \<Rightarrow> bool" where
  "target_less a b =
     (if Order a \<noteq> Order b then Order a < Order b
      else if Kind a \<noteq> Kind b then Kind a < Kind b
      else if ID a \<noteq> ID b then ID a < ID b
      else CanonicalIP a < CanonicalIP b)"

definition stamp :: "InvProfile \<Rightarrow> Target \<Rightarrow> Target" where
  "stamp p t = t\<lparr>ProfileID := P_ID p, ProfileName := P_Name p, Order := P_Order p\<rparr>"

text \<open>The body of the inner loop of \<open>Build\<close>.\<close>

definition add_target :: "InvProfile \<Rightarrow> Snapshot \<Rightarrow> Target \<Rightarrow> Snapshot" where
  "add_target p s t0 = (let t = stamp p t0 in
     s\<lparr>Targets := Targets s @ [t],
       Canonical := fmupd (CanonicalIP t) (mapget [] (Canonical s) (CanonicalIP t) @ [t]) (Canonical s),
       byFQDN := (if FQDN t \<noteq> [] then fmupd (FQDN t) (mapget [] (byFQDN s) (FQDN t) @ [t]) (byFQDN s)
                  else byFQDN s)\<rparr>)"

definition Build ::
  "((Target \<Rightarrow> Target \<Rightarrow> bool) \<Rightarrow> Target list \<Rightarrow> Target list) \<Rightarrow> InvProfile list \<Rightarrow> Snapshot" where
  "Build sort_slice ps =
     (let s = foldl (\<lambda>s p. foldl (add_target p) s (P_Targets p))
                \<lparr>Targets = [], Canonical = fmempty, byFQDN = fmempty\<rparr> ps
      in s\<lparr>Targets := sort_slice target_less (Targets s)\<rparr>)"

text \<open>
  \<^verbatim>\<open>sort.SliceStable\<close> works in place, on the slice the map holds: the snapshot's index is
  reordered too.
\<close>

definition ResolveRaw :: "Snapshot \<Rightarrow> addr \<Rightarrow> Target option \<times> Snapshot" where
  "ResolveRaw s ip = (let v = mapget [] (Canonical s) ip in
     if v = [] then (None, s)
     else let v' = sort_key Order v in (Some (hd v'), s\<lparr>Canonical := fmupd ip v' (Canonical s)\<rparr>))"

definition Collisions :: "Snapshot \<Rightarrow> (addr, Target list) fmap" where
  "Collisions s = fmfilter (\<lambda>ip. 1 < length (mapget [] (Canonical s) ip)) (Canonical s)"

section \<open>The contract of sort.Slice\<close>

definition target_rank :: "Target \<Rightarrow> int \<times> string \<times> string \<times> addr" where
  "target_rank t = (Order t, Kind t, ID t, CanonicalIP t)"

lemma target_less_rank: "target_less a b \<longleftrightarrow> target_rank a < target_rank b"
  by (auto simp: target_less_def target_rank_def)

locale slice_sorter =
  fixes srt :: "(Target \<Rightarrow> Target \<Rightarrow> bool) \<Rightarrow> Target list \<Rightarrow> Target list"
  assumes srt_perm: "mset (srt target_less ts) = mset ts"
    and srt_sorted: "sorted_wrt (\<lambda>a b. \<not> target_less b a) (srt target_less ts)"
begin

lemma srt_set [simp]: "set (srt target_less ts) = set ts"
  using srt_perm by (rule mset_eq_setD)

lemma srt_ranks: "sorted (map target_rank (srt target_less ts))"
  using srt_sorted [of ts] by (simp add: target_less_rank sorted_map not_less)

lemma srt_orders: "sorted (map Order (srt target_less ts))"
proof -
  have "sorted_wrt (\<lambda>a b. target_rank a \<le> target_rank b) (srt target_less ts)"
    using srt_ranks [of ts] by (simp add: sorted_map)
  then have "sorted_wrt (\<lambda>a b. Order a \<le> Order b) (srt target_less ts)"
    by (rule sorted_wrt_mono_rel [rotated]) (auto simp: target_rank_def)
  then show ?thesis by (simp add: sorted_map)
qed

lemma srt_first_least:
  assumes "find P (srt target_less ts) = Some t" "u \<in> set ts" "P u"
  shows "t \<in> set ts \<and> P t \<and> Order t \<le> Order u"
proof -
  from assms(1) obtain i where i: "i < length (srt target_less ts)" "srt target_less ts ! i = t"
    "P t" "\<forall>j<i. \<not> P (srt target_less ts ! j)"
    by (auto simp: find_Some_iff)
  have "u \<in> set (srt target_less ts)" using assms(2) by simp
  then obtain j where j: "j < length (srt target_less ts)" "srt target_less ts ! j = u"
    by (meson in_set_conv_nth)
  with i(4) assms(3) have "i \<le> j" by (metis not_less)
  with srt_orders [of ts] i(1,2) j have "Order t \<le> Order u"
    by (metis length_map nth_map sorted_iff_nth_mono)
  moreover have "t \<in> set ts" using i(1,2) srt_set nth_mem by metis
  ultimately show ?thesis using i(3) by simp
qed

end

text \<open>Insertion sort: each element moves left past the larger ones.\<close>

fun insert_left :: "('a \<Rightarrow> 'a \<Rightarrow> bool) \<Rightarrow> 'a \<Rightarrow> 'a list \<Rightarrow> 'a list" where
  "insert_left lt x [] = [x]"
| "insert_left lt x (y # ys) = (if lt x y then y # insert_left lt x ys else x # y # ys)"

definition insertionSort :: "('a \<Rightarrow> 'a \<Rightarrow> bool) \<Rightarrow> 'a list \<Rightarrow> 'a list" where
  "insertionSort lt xs = rev (foldl (\<lambda>acc x. insert_left lt x acc) [] xs)"

lemma mset_insert_left [simp]: "mset (insert_left lt x ys) = add_mset x (mset ys)"
  by (induction ys) auto

lemma set_insert_left [simp]: "set (insert_left lt x ys) = insert x (set ys)"
  by (induction ys) auto

lemma insert_left_sorted:
  "sorted_wrt (\<lambda>a b. target_rank b \<le> target_rank a) ys
     \<Longrightarrow> sorted_wrt (\<lambda>a b. target_rank b \<le> target_rank a) (insert_left target_less x ys)"
  by (induction ys) (auto simp: target_less_rank not_less)

lemma foldl_insert_left:
  "mset (foldl (\<lambda>acc x. insert_left lt x acc) acc xs) = mset acc + mset xs"
  "sorted_wrt (\<lambda>a b. target_rank b \<le> target_rank a) acc2 \<Longrightarrow>
   sorted_wrt (\<lambda>a b. target_rank b \<le> target_rank a)
     (foldl (\<lambda>acc x. insert_left target_less x acc) acc2 ts)"
proof -
  show "mset (foldl (\<lambda>acc x. insert_left lt x acc) acc xs) = mset acc + mset xs"
    by (induction xs arbitrary: acc) auto
  show "sorted_wrt (\<lambda>a b. target_rank b \<le> target_rank a) acc2 \<Longrightarrow>
    sorted_wrt (\<lambda>a b. target_rank b \<le> target_rank a)
      (foldl (\<lambda>acc x. insert_left target_less x acc) acc2 ts)"
    by (induction ts arbitrary: acc2) (auto intro: insert_left_sorted)
qed

interpretation go_sort: slice_sorter insertionSort
proof unfold_locales
  show "mset (insertionSort target_less ts) = mset ts" for ts
    by (simp add: insertionSort_def foldl_insert_left)
  show "sorted_wrt (\<lambda>a b. \<not> target_less b a) (insertionSort target_less ts)" for ts
    using foldl_insert_left(2) [of "[]" ts]
    by (simp add: insertionSort_def sorted_wrt_rev target_less_rank not_less)
qed

section \<open>What Build collects\<close>

definition all_targets :: "InvProfile list \<Rightarrow> Target list" where
  "all_targets ps = concat (map (\<lambda>p. map (stamp p) (P_Targets p)) ps)"

text \<open>The two indexes agree with a list of targets.\<close>

definition snap_inv :: "Snapshot \<Rightarrow> Target list \<Rightarrow> bool" where
  "snap_inv s ts \<longleftrightarrow> Targets s = ts
     \<and> (\<forall>ip. mapget [] (Canonical s) ip = filter (\<lambda>t. CanonicalIP t = ip) ts)
     \<and> (\<forall>ip. ip |\<in>| fmdom (Canonical s) \<longleftrightarrow> (\<exists>t\<in>set ts. CanonicalIP t = ip))
     \<and> (\<forall>f. mapget [] (byFQDN s) f = (if f = [] then [] else filter (\<lambda>t. FQDN t = f) ts))"

lemma snap_inv_add [inv_intros]:
  "snap_inv s ts \<Longrightarrow> snap_inv (add_target p s t) (ts @ [stamp p t])"
  by (auto simp: snap_inv_def add_target_def Let_def mapget_def split: option.splits)

lemma snap_inv_foldl: "snap_inv s ts \<Longrightarrow> snap_inv (foldl (add_target p) s us) (ts @ map (stamp p) us)"
proof (induction us arbitrary: s ts)
  case Nil
  then show ?case by simp
next
  case (Cons u us)
  show ?case using Cons.IH [OF snap_inv_add [OF Cons.prems]] by simp
qed

lemma snap_inv_build:
  "snap_inv s ts \<Longrightarrow>
   snap_inv (foldl (\<lambda>s p. foldl (add_target p) s (P_Targets p)) s ps) (ts @ all_targets ps)"
proof (induction ps arbitrary: s ts)
  case Nil
  then show ?case by (simp add: all_targets_def)
next
  case (Cons p ps)
  show ?case using Cons.IH [OF snap_inv_foldl [OF Cons.prems]] by (simp add: all_targets_def)
qed

lemma snap_inv_empty: "snap_inv \<lparr>Targets = [], Canonical = fmempty, byFQDN = fmempty\<rparr> []"
  by (simp add: snap_inv_def mapget_def)

lemma Build_fields:
  "Targets (Build srt ps) = srt target_less (all_targets ps)"
  "mapget [] (Canonical (Build srt ps)) ip = filter (\<lambda>t. CanonicalIP t = ip) (all_targets ps)"
  "ip |\<in>| fmdom (Canonical (Build srt ps)) \<longleftrightarrow> (\<exists>t\<in>set (all_targets ps). CanonicalIP t = ip)"
  "mapget [] (byFQDN (Build srt ps)) f
     = (if f = [] then [] else filter (\<lambda>t. FQDN t = f) (all_targets ps))"
  using snap_inv_build [OF snap_inv_empty, of ps] by (auto simp: Build_def Let_def snap_inv_def)

lemma hd_sort_key_le: "x \<in> set xs \<Longrightarrow> f (hd (sort_key f xs)) \<le> f x"
proof -
  assume "x \<in> set xs"
  then obtain y ys where ys: "sort_key f xs = y # ys" by (cases "sort_key f xs") (auto dest: arg_cong [of _ _ set])
  have "sorted (map f (sort_key f xs))" by simp
  moreover have "x \<in> set (y # ys)" using \<open>x \<in> set xs\<close> ys by (metis set_sort)
  ultimately show ?thesis using ys by auto
qed

lemma hd_sort_key_stable:
  assumes "xs \<noteq> []" "t = hd (sort_key f xs)"
  shows "t = hd (filter (\<lambda>x. f x = f t) xs)"
proof -
  obtain ys where ys: "sort_key f xs = t # ys"
    using assms by (cases "sort_key f xs") (auto dest: arg_cong [of _ _ set])
  have "filter (\<lambda>x. f x = f t) xs = filter (\<lambda>x. f x = f t) (sort_key f xs)"
    by (simp add: sort_key_stable)
  also have "\<dots> = t # filter (\<lambda>x. f x = f t) ys" by (simp add: ys)
  finally show ?thesis by simp
qed

lemma sorted_find_some: "(\<exists>t\<in>set ts. P t) \<Longrightarrow> \<exists>t. find P ts = Some t"
  by (induction ts) auto

lemma ResolveRaw_cases:
  "case fst (ResolveRaw (Build srt ps) ip) of
     None \<Rightarrow> \<not> (\<exists>t\<in>set (all_targets ps). CanonicalIP t = ip)
   | Some t \<Rightarrow> t \<in> set (all_targets ps) \<and> CanonicalIP t = ip
       \<and> \<not> (\<exists>u\<in>set (all_targets ps). CanonicalIP u = ip \<and> Order u < Order t)
       \<and> t = hd (filter (\<lambda>u. CanonicalIP u = ip \<and> Order u = Order t) (all_targets ps))"
proof -
  let ?v = "filter (\<lambda>t. CanonicalIP t = ip) (all_targets ps)"
  have eq: "fst (ResolveRaw (Build srt ps) ip) = (if ?v = [] then None else Some (hd (sort_key Order ?v)))"
    by (simp add: ResolveRaw_def Build_fields Let_def)
  show ?thesis
  proof (cases "?v = []")
    case True
    with eq show ?thesis by (auto simp: filter_empty_conv)
  next
    case False
    define t where "t = hd (sort_key Order ?v)"
    have mem: "t \<in> set ?v"
      using False t_def by (metis hd_in_set length_sort list.size(3) length_0_conv set_sort)
    have least: "Order t \<le> Order u" if "u \<in> set ?v" for u
      using that t_def by (auto intro: hd_sort_key_le)
    have "t = hd (filter (\<lambda>u. CanonicalIP u = ip \<and> Order u = Order t) (all_targets ps))"
      using hd_sort_key_stable [OF False t_def] by (simp add: conj_commute)
    moreover have "\<not> (\<exists>u\<in>set (all_targets ps). CanonicalIP u = ip \<and> Order u < Order t)"
      using least by fastforce
    ultimately show ?thesis using eq False mem unfolding t_def [symmetric] by simp
  qed
qed

section \<open>Properties\<close>

abbreviation demo_target :: "string \<Rightarrow> Target" where
  "demo_target i \<equiv> \<lparr>ProfileID = [], ProfileName = [], Order = 0, Kind = ''node'', ID = i,
     FQDN = [], Online = True, CanonicalIP = V4 0x64010203\<rparr>"

abbreviation demo_profiles :: "InvProfile list" where
  "demo_profiles \<equiv> [\<lparr>P_ID = ''later'', P_Name = ''later'', P_Order = 1, P_Targets = [demo_target ''b'']\<rparr>,
     \<lparr>P_ID = ''first'', P_Name = ''first'', P_Order = 0, P_Targets = [demo_target ''a'']\<rparr>]"

text \<open>
  For every sorter that meets the contract of \<^verbatim>\<open>sort.Slice\<close>, the target list of the snapshot is
  a permutation of the targets of all profiles, each stamped with its profile's identity and
  position, in ascending order of (profile order, kind, ID, canonical address).
\<close>

lemma Build_sorted_permutation:
  assumes "slice_sorter srt"
  shows "mset (Targets (Build srt ps)) = mset (all_targets ps)
    \<and> sorted (map target_rank (Targets (Build srt ps)))"
  using slice_sorter.srt_perm [OF assms] slice_sorter.srt_ranks [OF assms]
  by (simp add: Build_fields)

text \<open>
  C33: Raw canonical selection is ordered first match: it fails exactly when no profile has the
  address; otherwise it returns a target with that address whose profile comes first in the
  order, and the first such target in inventory order.
\<close>

theorem ResolveRaw_first_match:
  "case fst (ResolveRaw (Build srt ps) ip) of
     None \<Rightarrow> \<not> (\<exists>t\<in>set (all_targets ps). CanonicalIP t = ip)
   | Some t \<Rightarrow> t \<in> set (all_targets ps) \<and> CanonicalIP t = ip
       \<and> \<not> (\<exists>u\<in>set (all_targets ps). CanonicalIP u = ip \<and> Order u < Order t)
       \<and> t = hd (filter (\<lambda>u. CanonicalIP u = ip \<and> Order u = Order t) (all_targets ps))"
  by (rule ResolveRaw_cases)

text \<open>
  Scanning the sorted target list for the first entry with a canonical address (as the packet
  mux does) selects the same profile order as \<open>ResolveRaw\<close>.
\<close>

lemma first_in_order_agrees_with_ResolveRaw:
  assumes "slice_sorter srt" "fst (ResolveRaw (Build srt ps) ip) = Some t"
  shows "\<exists>u. find (\<lambda>u. CanonicalIP u = ip) (Targets (Build srt ps)) = Some u \<and> Order u = Order t"
proof -
  have t: "t \<in> set (all_targets ps)" "CanonicalIP t = ip"
    and least: "\<not> (\<exists>u\<in>set (all_targets ps). CanonicalIP u = ip \<and> Order u < Order t)"
    using ResolveRaw_cases [where srt = srt and ps = ps and ip = ip] assms(2) by auto
  have "\<exists>x\<in>set (srt target_less (all_targets ps)). CanonicalIP x = ip"
    using t slice_sorter.srt_set [OF assms(1)] by auto
  then have "\<exists>u. find (\<lambda>u. CanonicalIP u = ip) (srt target_less (all_targets ps)) = Some u"
    by (rule sorted_find_some)
  then obtain u where u: "find (\<lambda>u. CanonicalIP u = ip) (srt target_less (all_targets ps)) = Some u" ..
  note F = slice_sorter.srt_first_least [OF assms(1) u t]
  with least have "Order u = Order t" by force
  with u show ?thesis by (simp add: Build_fields)
qed

text \<open>
  The collision report lists exactly the canonical addresses that more than one target has, each
  with all its targets in inventory order.
\<close>

lemma Collisions_exact:
  "fmlookup (Collisions (Build srt ps)) ip =
     (let v = filter (\<lambda>t. CanonicalIP t = ip) (all_targets ps) in if 1 < length v then Some v else None)"
proof (cases "fmlookup (Canonical (Build srt ps)) ip")
  case None
  then show ?thesis
    using Build_fields(2) [where srt = srt and ps = ps and ip = ip] by (simp add: Collisions_def mapget_def Let_def)
next
  case (Some v)
  then show ?thesis
    using Build_fields(2) [where srt = srt and ps = ps and ip = ip] by (simp add: Collisions_def mapget_def Let_def)
qed

lemma Split_Key:
  assumes "CHR ''/'' \<notin> set (ProfileID t)" "CHR ''/'' \<notin> set (Kind t)" "CanonicalIP t = V4 n"
  shows "Split CHR ''/'' (target_Key t) = [ProfileID t, Kind t] @ Split CHR ''/'' (ID t) @ [string4 n]"
  using assms by (simp add: target_Key_def str_simps)

text \<open>
  Target keys identify targets: as long as profile IDs and kinds contain no slash, two IPv4
  targets with the same key agree in profile, kind, ID and canonical address.
\<close>

lemma target_Key_injective:
  assumes "target_Key t = target_Key u" "Is4 (CanonicalIP t)" "Is4 (CanonicalIP u)"
    and "CHR ''/'' \<notin> set (ProfileID t) \<union> set (Kind t) \<union> set (ProfileID u) \<union> set (Kind u)"
  shows "ProfileID t = ProfileID u \<and> Kind t = Kind u \<and> ID t = ID u \<and> CanonicalIP t = CanonicalIP u"
proof -
  obtain m n where ips: "CanonicalIP t = V4 m" "CanonicalIP u = V4 n"
    using assms(2,3) by (auto elim!: Is4.elims)
  have "Split CHR ''/'' (target_Key t) = Split CHR ''/'' (target_Key u)" using assms(1) by simp
  then have "ProfileID t = ProfileID u \<and> Kind t = Kind u
      \<and> Split CHR ''/'' (ID t) = Split CHR ''/'' (ID u) \<and> string4 m = string4 n"
    using assms(4) ips by (simp add: Split_Key)
  then show ?thesis using addr_String4_inject [of m n] ips by (simp add: Split_inject)
qed

end
