(* ===== verification/Checksum.thy ===== *)
theory Checksum
  imports Prelude
begin

text \<open>
  The Internet checksum of \<^verbatim>\<open>internal/mux/mux.go\<close>: \<open>sum\<close> (here \<open>sum16\<close>) and the incremental
  \<open>adjustChecksum\<close>, both with the 32-bit accumulator and the carry-folding loops of the code. Both
  are related to arithmetic modulo 65535 on the 16-bit words of the data (\<open>wsum\<close>), from which
  follow that a computed checksum verifies and that the incremental update equals a recomputation.
\<close>

section \<open>Operations\<close>

fun sum_words :: "u32 \<Rightarrow> bytes \<Rightarrow> u32" where
  "sum_words s (a # b # p) = sum_words (s + ucast (be16 [a, b] 0)) p"
| "sum_words s [a] = s + push_bit 8 (ucast a)"
| "sum_words s [] = s"

text \<open>\<^verbatim>\<open>for s>>16 != 0 { s = (s & 0xffff) + (s >> 16) }\<close>\<close>

function fold_carries :: "u32 \<Rightarrow> u32" where
  "fold_carries s =
     (if drop_bit 16 s \<noteq> 0 then fold_carries ((s AND 0xffff) + drop_bit 16 s) else s)"
  by pat_completeness auto

lemma unat_low16: "unat (s AND 0xffff) = unat s mod 65536" for s :: u32
proof -
  have "s AND 0xffff = take_bit 16 s" by (simp add: take_bit_eq_mask mask_numeral)
  then show ?thesis by (simp add: take_bit_eq_mod unat_mod)
qed

lemma unat_high16: "unat (drop_bit 16 s) = unat s div 65536" for s :: u32
  by (simp add: drop_bit_eq_div unat_div)

lemma unat_fold_step:
  "unat ((s AND 0xffff) + drop_bit 16 s) = unat s mod 65536 + unat s div 65536" for s :: u32
proof -
  have "unat s mod 65536 < 65536" by simp
  moreover have "unat s div 65536 < 65536" using unat_u32_lt [of s] by linarith
  ultimately have "unat (s AND 0xffff) + unat (drop_bit 16 s) < 2 ^ 32"
    unfolding unat_low16 unat_high16 by simp
  then show ?thesis
    by (subst unat_add_lem [THEN iffD1]) (simp_all add: unat_low16 unat_high16)
qed

termination fold_carries
proof (relation "measure unat", goal_cases)
  case (2 s)
  then have "unat s div 65536 \<noteq> 0"
    by (metis unat_high16 unat_eq_zero)
  then have "unat s mod 65536 + unat s div 65536 < unat s"
    using div_mult_mod_eq [of "unat s" 65536] by linarith
  then show ?case by (simp only: in_measure unat_fold_step)
qed simp

declare fold_carries.simps [simp del]

definition sum16 :: "bytes \<Rightarrow> u16" where
  "sum16 p = NOT (ucast (fold_carries (sum_words 0 p)))"

text \<open>
  The loop of \<open>adjustChecksum\<close>; indexing past the end of the new words panics, which is \<open>None\<close>.
\<close>

fun adjust_loop :: "u32 \<Rightarrow> bytes \<Rightarrow> bytes \<Rightarrow> u32 option" where
  "adjust_loop s (o1 # o2 # os) (n1 # n2 # ns) =
     adjust_loop (fold_carries (s + (ucast (NOT (be16 [o1, o2] 0)) + ucast (be16 [n1, n2] 0)))) os ns"
| "adjust_loop s (o1 # o2 # os) _ = None"
| "adjust_loop s _ _ = Some s"

definition adjustChecksum :: "u16 \<Rightarrow> bytes \<Rightarrow> bytes \<Rightarrow> u16 option" where
  "adjustChecksum old oldWords newWords =
     map_option (\<lambda>s. NOT (ucast s)) (adjust_loop (ucast (NOT old)) oldWords newWords)"

section \<open>Arithmetic modulo 65535\<close>

fun wsum :: "bytes \<Rightarrow> nat" where
  "wsum (a # b # p) = 256 * unat a + unat b + wsum p"
| "wsum [a] = 256 * unat a"
| "wsum [] = 0"

text \<open>The value the folding loop ends with.\<close>

definition ones_norm :: "nat \<Rightarrow> nat" where
  "ones_norm x = (if x = 0 then 0 else (x - 1) mod 65535 + 1)"

lemma ones_norm_le: "ones_norm x \<le> 65535"
proof (cases "x = 0")
  case False
  then have "ones_norm x = (x - 1) mod 65535 + 1" by (simp add: ones_norm_def)
  moreover have "(x - 1) mod 65535 < 65535" by (rule mod_less_divisor) simp
  ultimately show ?thesis by linarith
qed (simp add: ones_norm_def)

lemma ones_norm_mod: "ones_norm x mod 65535 = x mod 65535"
proof (cases x)
  case (Suc y)
  then show ?thesis by (simp add: ones_norm_def mod_Suc_eq)
qed (simp add: ones_norm_def)

lemma ones_norm_0_iff [simp]: "ones_norm x = 0 \<longleftrightarrow> x = 0"
  by (simp add: ones_norm_def)

lemma ones_norm_unique:
  assumes "y \<le> 65535" "y mod 65535 = x mod 65535" "y = 0 \<longleftrightarrow> x = 0"
  shows "ones_norm x = y"
proof (cases "x = 0")
  case False
  have "ones_norm x mod 65535 = y mod 65535" using assms(2) ones_norm_mod by simp
  moreover have "ones_norm x \<noteq> 0" "y \<noteq> 0" using False assms(3) by simp_all
  ultimately show ?thesis using assms(1) ones_norm_le [of x]
    by (cases "ones_norm x = 65535"; cases "y = 65535") auto
qed (use assms in \<open>simp add: ones_norm_def\<close>)

lemma ones_norm_cong: "x mod 65535 = y mod 65535 \<Longrightarrow> (x = 0 \<longleftrightarrow> y = 0) \<Longrightarrow> ones_norm x = ones_norm y"
  by (rule ones_norm_unique) (simp_all add: ones_norm_le ones_norm_mod)

lemma unat_fold_carries: "unat (fold_carries s) = ones_norm (unat s)"
proof (induction s rule: fold_carries.induct)
  case (1 s)
  show ?case
  proof (cases "drop_bit 16 s = 0")
    case True
    then have "unat s div 65536 = 0" by (metis unat_high16 unat_0)
    then have lt: "unat s < 65536" by simp
    have "ones_norm (unat s) = unat s" using lt by (intro ones_norm_unique) auto
    with True show ?thesis by (simp add: fold_carries.simps [of s])
  next
    case False
    let ?t = "(s AND 0xffff) + drop_bit 16 s"
    define q r where "q = unat s div 65536" and "r = unat s mod 65536"
    have split: "unat s = r + q + 65535 * q"
      using div_mult_mod_eq [of "unat s" 65536] unfolding q_def r_def by linarith
    have "(r + q) mod 65535 = unat s mod 65535" unfolding split by (rule mod_mult_self2 [symmetric])
    moreover have "r + q = 0 \<longleftrightarrow> unat s = 0" using split by auto
    ultimately have "ones_norm (unat ?t) = ones_norm (unat s)"
      unfolding unat_fold_step q_def r_def by (rule ones_norm_cong)
    with "1.IH" [OF False] False show ?thesis by (simp add: fold_carries.simps [of s])
  qed
qed

section \<open>Words and bytes\<close>

lemma unat_be16: "unat (be16 p i) = 256 * unat (p ! i) + unat (p ! Suc i)"
proof -
  let ?a = "ucast (p ! i) :: u16" and ?b = "ucast (p ! Suc i) :: u16"
  have lt: "unat (p ! i) < 256" "unat (p ! Suc i) < 256" by (rule unat_byte_lt)+
  have a: "unat ?a = unat (p ! i)" and b: "unat ?b = unat (p ! Suc i)"
    using lt by (simp_all add: unsigned_ucast_eq take_bit_nat_eq_self)
  have "be16 p i = push_bit 8 ?a + ?b"
    unfolding be16_def by (rule disjunctive_add [symmetric]) (auto simp: bit_simps dest: bit_imp_le_length)
  moreover have "unat (push_bit 8 ?a) = 256 * unat (p ! i)"
    using lt a by (simp add: unsigned_push_bit_eq push_bit_nat_def take_bit_nat_eq_self mult.commute)
  ultimately show ?thesis
    using lt b by (simp add: unat_word_ariths)
qed

lemma be16_pair: "unat (be16 [a, b] 0) = 256 * unat a + unat b"
  using unat_be16 [of "[a, b]" 0] by simp

lemma unat_ucast_u16: "unat (ucast w :: u32) = unat w" for w :: u16
proof -
  have "unat w < 2 ^ 32" using unat_u16_lt [of w] by simp
  then show ?thesis by (simp add: unsigned_ucast_eq take_bit_eq_mod)
qed

lemma unat_not16: "unat (NOT w) = 65535 - unat w" for w :: u16
proof -
  have "NOT w = - 1 - w" by (simp add: not_eq_complement)
  moreover have "unat (- 1 :: u16) = 65535"
    by (simp add: unsigned_minus_1_eq_mask mask_numeral)
  moreover have "w \<le> - 1" by simp
  ultimately show ?thesis by (metis unat_sub)
qed

lemma unat_sum_words:
  "unat s + wsum p < 2 ^ 32 \<Longrightarrow> unat (sum_words s p) = unat s + wsum p"
proof (induction s p rule: sum_words.induct)
  case (1 s a b p)
  have w: "unat (ucast (be16 [a, b] 0) :: u32) = 256 * unat a + unat b"
    by (simp add: unat_ucast_u16 be16_pair)
  have "unat (s + ucast (be16 [a, b] 0)) = unat s + (256 * unat a + unat b)"
    using 1(2) w by (subst unat_add_lem [THEN iffD1]) simp_all
  with 1 show ?case by simp
next
  case (2 s a)
  have "unat (push_bit 8 (ucast a) :: u32) = 256 * unat a"
    using unat_byte_lt [of a]
    by (simp add: unsigned_push_bit_eq unsigned_ucast_eq push_bit_nat_def take_bit_nat_eq_self mult.commute)
  with 2 show ?case by (simp, subst unat_add_lem [THEN iffD1]) simp_all
qed simp

lemma wsum_le: "wsum p \<le> 65535 * ((length p + 1) div 2)"
proof (induction p rule: wsum.induct)
  case (1 a b p)
  then show ?case using unat_byte_lt [of a] unat_byte_lt [of b] by simp
next
  case (2 a)
  then show ?case using unat_byte_lt [of a] by simp
qed simp

text \<open>No datagram (at most 65535 bytes, with a 12-byte pseudo header) overflows the accumulator.\<close>

lemma wsum_no_overflow: "length p \<le> 131070 \<Longrightarrow> wsum p < 2 ^ 32"
proof -
  assume "length p \<le> 131070"
  then have "(length p + 1) div 2 \<le> 65535" by linarith
  then show ?thesis using wsum_le [of p] by simp
qed

lemma unat_sum16: "length p \<le> 131070 \<Longrightarrow> unat (sum16 p) = 65535 - ones_norm (wsum p)"
proof -
  assume "length p \<le> 131070"
  then have "unat (sum_words 0 p) = wsum p"
    using unat_sum_words [of 0 p] wsum_no_overflow by simp
  then have eq: "unat (fold_carries (sum_words 0 p)) = ones_norm (wsum p)"
    by (simp add: unat_fold_carries)
  have "ones_norm (wsum p) < 2 ^ 16" using ones_norm_le [of "wsum p"] by simp
  then have "unat (ucast (fold_carries (sum_words 0 p)) :: u16) = ones_norm (wsum p)"
    by (simp add: unsigned_ucast_eq eq take_bit_nat_eq_self)
  then show ?thesis by (simp add: sum16_def unat_not16)
qed

text \<open>A checksum verifies when words and checksum add up to zero in one's complement.\<close>

definition csum_ok :: "u16 \<Rightarrow> bytes \<Rightarrow> bool" where
  "csum_ok c p \<longleftrightarrow> (wsum p + unat c) mod 65535 = 0"

lemma csum_ok_sum16: "length p \<le> 131070 \<Longrightarrow> csum_ok (sum16 p) p"
proof -
  assume "length p \<le> 131070"
  then have "(wsum p + unat (sum16 p)) mod 65535 = (ones_norm (wsum p) + (65535 - ones_norm (wsum p))) mod 65535"
    by (metis unat_sum16 mod_add_left_eq ones_norm_mod)
  also have "\<dots> = 0" using ones_norm_le [of "wsum p"] by simp
  finally show ?thesis by (simp add: csum_ok_def)
qed

lemma sum16_zero_iff:
  "length p \<le> 131070 \<Longrightarrow> sum16 p = 0 \<longleftrightarrow> wsum p \<noteq> 0 \<and> wsum p mod 65535 = 0"
proof -
  assume len: "length p \<le> 131070"
  have "sum16 p = 0 \<longleftrightarrow> ones_norm (wsum p) = 65535"
    using unat_sum16 [OF len] ones_norm_le [of "wsum p"] by (auto simp: word_unat_eq_iff)
  also have "\<dots> \<longleftrightarrow> wsum p \<noteq> 0 \<and> wsum p mod 65535 = 0"
    using ones_norm_mod [of "wsum p"] ones_norm_unique [of 65535 "wsum p"]
    by (metis mod_self ones_norm_0_iff order_refl zero_neq_numeral)
  finally show ?thesis .
qed

section \<open>Replacing words\<close>

lemma be16_put16: "Suc i < length p \<Longrightarrow> be16 (put16 p i v) i = v"
  unfolding be16_def put16_def
  by (rule bit_word_eqI) (auto simp: bit_simps nth_list_update dest: bit_imp_le_length)

lemma wsum_append: "even (length p) \<Longrightarrow> wsum (p @ q) = wsum p + wsum q"
  by (induction p rule: wsum.induct) auto

lemma split_at_pair:
  "Suc i < length p \<Longrightarrow> p = take i p @ [p ! i, p ! Suc i] @ drop (Suc (Suc i)) p"
  by (simp add: Cons_nth_drop_Suc)

lemma wsum_at_pair:
  assumes "even i" "Suc i < length p"
  shows "wsum p = wsum (take i p) + unat (be16 p i) + wsum (drop (Suc (Suc i)) p)"
proof -
  have "wsum p = wsum (take i p @ [p ! i, p ! Suc i] @ drop (Suc (Suc i)) p)"
    using split_at_pair [OF assms(2)] by simp
  also have "\<dots> = wsum (take i p) + wsum ([p ! i, p ! Suc i] @ drop (Suc (Suc i)) p)"
    by (rule wsum_append) (use assms in simp)
  finally show ?thesis by (simp add: unat_be16)
qed

lemma put16_take_drop:
  "take i (put16 p i v) = take i p" "drop (Suc (Suc i)) (put16 p i v) = drop (Suc (Suc i)) p"
  by (simp_all add: put16_def)

lemma wsum_put16:
  assumes "even i" "Suc i < length p"
  shows "wsum (put16 p i v) + unat (be16 p i) = wsum p + unat v"
  using wsum_at_pair [OF assms] wsum_at_pair [of i "put16 p i v"] assms
  by (simp add: put16_take_drop be16_put16)

lemma adjust_loop_spec:
  assumes "length os = length ns" "even (length os)" "unat s \<le> 65535"
  shows "\<exists>s'. adjust_loop s os ns = Some s' \<and> unat s' \<le> 65535
    \<and> (unat s' + wsum os) mod 65535 = (unat s + wsum ns) mod 65535
    \<and> (unat s' = 0 \<longrightarrow> unat s = 0 \<and> (os \<noteq> [] \<longrightarrow> wsum os \<noteq> 0))"
  using assms
proof (induction s os ns rule: adjust_loop.induct)
  case (1 s o1 o2 os n1 n2 ns)
  define w where "w = unat (be16 [o1, o2] 0)"
  define v where "v = unat (be16 [n1, n2] 0)"
  have lt: "w \<le> 65535" "v \<le> 65535"
    using unat_u16_lt [of "be16 [o1, o2] 0"] unat_u16_lt [of "be16 [n1, n2] 0"]
    by (simp_all add: w_def v_def)
  let ?t = "s + (ucast (NOT (be16 [o1, o2] 0)) + ucast (be16 [n1, n2] 0))"
  have t: "unat ?t = unat s + (65535 - w) + v"
  proof -
    have "unat (ucast (NOT (be16 [o1, o2] 0)) + ucast (be16 [n1, n2] 0) :: u32) = (65535 - w) + v"
      using lt by (subst unat_add_lem [THEN iffD1]) (simp_all add: unat_ucast_u16 unat_not16 w_def v_def)
    then show ?thesis
      using lt 1(4) by (subst unat_add_lem [THEN iffD1]) simp_all
  qed
  let ?f = "fold_carries ?t"
  have f: "unat ?f = ones_norm (unat s + (65535 - w) + v)" by (simp only: unat_fold_carries t)
  have "length os = length ns" "even (length os)" "unat ?f \<le> 65535"
    using 1(2,3) f ones_norm_le by simp_all
  from 1(1) [OF this] obtain s' where s': "adjust_loop ?f os ns = Some s'" "unat s' \<le> 65535"
    "(unat s' + wsum os) mod 65535 = (unat ?f + wsum ns) mod 65535"
    "unat s' = 0 \<longrightarrow> unat ?f = 0"
    by (elim exE conjE) simp
  have fm: "(unat ?f + w) mod 65535 = (unat s + v) mod 65535"
  proof -
    have "(unat ?f + w) mod 65535 = (unat s + (65535 - w) + v + w) mod 65535"
      unfolding f by (rule mod_add_cong [OF ones_norm_mod refl])
    also have "unat s + (65535 - w) + v + w = (unat s + v) + 65535 * 1" using lt by simp
    finally show ?thesis by (simp only: mod_mult_self2)
  qed
  have "(unat s' + wsum (o1 # o2 # os)) mod 65535 = (unat s' + wsum os + w) mod 65535"
    by (simp add: w_def be16_pair algebra_simps)
  also have "\<dots> = (unat ?f + wsum ns + w) mod 65535" by (rule mod_add_cong [OF s'(3) refl])
  also have "\<dots> = (unat ?f + w + wsum ns) mod 65535" by (simp add: algebra_simps)
  also have "\<dots> = (unat s + v + wsum ns) mod 65535" by (rule mod_add_cong [OF fm refl])
  also have "\<dots> = (unat s + wsum (n1 # n2 # ns)) mod 65535"
    by (simp add: v_def be16_pair algebra_simps)
  finally have "(unat s' + wsum (o1 # o2 # os)) mod 65535 = (unat s + wsum (n1 # n2 # ns)) mod 65535" .
  moreover have "unat s' = 0 \<longrightarrow> unat s = 0 \<and> wsum (o1 # o2 # os) \<noteq> 0"
    using s'(4) f lt by (auto simp: w_def be16_pair)
  ultimately show ?case using s'(1,2) by auto
qed (simp_all, metis One_nat_def odd_one)

lemma adjustChecksum_spec:
  assumes "length os = length ns" "even (length os)"
  shows "\<exists>c'. adjustChecksum c os ns = Some c'
    \<and> (65535 - unat c' + wsum os) mod 65535 = (65535 - unat c + wsum ns) mod 65535
    \<and> (unat c' = 65535 \<longrightarrow> unat c = 65535 \<and> (os \<noteq> [] \<longrightarrow> wsum os \<noteq> 0))"
proof -
  have u: "unat (ucast (NOT c) :: u32) = 65535 - unat c" by (simp add: unat_ucast_u16 unat_not16)
  obtain s' where s': "adjust_loop (ucast (NOT c)) os ns = Some s'" "unat s' \<le> 65535"
    "(unat s' + wsum os) mod 65535 = (65535 - unat c + wsum ns) mod 65535"
    "unat s' = 0 \<longrightarrow> 65535 - unat c = 0 \<and> (os \<noteq> [] \<longrightarrow> wsum os \<noteq> 0)"
    using adjust_loop_spec [OF assms, of "ucast (NOT c)"] u by auto
  let ?c = "NOT (ucast s') :: u16"
  have "unat (ucast s' :: u16) = unat s'"
    using s'(2) by (simp add: unsigned_ucast_eq take_bit_nat_eq_self)
  then have c: "unat ?c = 65535 - unat s'" by (simp add: unat_not16)
  have "65535 - unat ?c = unat s'" using s'(2) c by simp
  moreover have "unat ?c = 65535 \<longrightarrow> unat s' = 0" using s'(2) c by linarith
  ultimately show ?thesis
    using s' unat_u16_lt [of c] by (auto simp: adjustChecksum_def)
qed

lemma adjust_keeps_csum_ok:
  assumes "length os = length ns" "even (length os)" "csum_ok c (os @ rest)"
  shows "\<exists>c'. adjustChecksum c os ns = Some c' \<and> csum_ok c' (ns @ rest)"
proof -
  obtain c' where c': "adjustChecksum c os ns = Some c'"
    "(65535 - unat c' + wsum os) mod 65535 = (65535 - unat c + wsum ns) mod 65535"
    using adjustChecksum_spec [OF assms(1,2)] by blast
  obtain q1 q2 where q: "65535 - unat c' + wsum os + 65535 * q1 = 65535 - unat c + wsum ns + 65535 * q2"
    using c'(2) nat_mod_eq_iff by blast
  have ev: "even (length ns)" using assms(1,2) by simp
  have "(wsum os + wsum rest + unat c) mod 65535 = 0"
    using assms(3) wsum_append [OF assms(2)] by (simp add: csum_ok_def)
  then obtain k where k: "wsum os + wsum rest + unat c = 65535 * k" by auto
  have b: "unat c \<le> 65535" "unat c' \<le> 65535" using unat_u16_lt [of c] unat_u16_lt [of c'] by simp_all
  have "wsum ns + wsum rest + unat c' + 65535 * q2 = 65535 * (k + q1)"
    using q k b by simp
  then have "(wsum ns + wsum rest + unat c') mod 65535 = 0"
    by (metis mod_mult_self1_is_0 mod_mult_self2)
  with c'(1) show ?thesis by (simp add: csum_ok_def wsum_append [OF ev])
qed

lemma sum16_put_zero:
  assumes "even i" "Suc i < length p" "length p \<le> 131070" "be16 p i = 0" "csum_ok c p" "wsum p \<noteq> 0 \<or> c \<noteq> 0"
  shows "sum16 (put16 p i c) = 0"
proof -
  have w: "wsum (put16 p i c) = wsum p + unat c"
    using wsum_put16 [OF assms(1,2), of c] assms(4) by simp
  have "wsum p + unat c \<noteq> 0" using assms(6) by (auto simp: word_unat_eq_iff)
  with w assms(3,5) show ?thesis by (simp add: sum16_zero_iff csum_ok_def)
qed

lemma sum16_stored:
  assumes "even i" "Suc i < length p" "length p \<le> 131070" "be16 p i = 0"
  shows "sum16 (put16 p i (sum16 p)) = 0"
proof (rule sum16_put_zero)
  show "csum_ok (sum16 p) p" using assms(3) by (rule csum_ok_sum16)
  show "wsum p \<noteq> 0 \<or> sum16 p \<noteq> 0" using sum16_zero_iff [OF assms(3)] by auto
qed (use assms in auto)

section \<open>Properties\<close>

text \<open>
  A computed Internet checksum verifies: clearing a 16-bit aligned field, summing the data and
  storing the result in the field makes the sum over the data zero (for any data up to 131070
  bytes, more than a datagram with its pseudo header).
\<close>

lemma sum_verifies:
  assumes "even i" "Suc i < length p" "length p \<le> 131070"
  shows "sum16 (put16 (put16 p i 0) i (sum16 (put16 p i 0))) = 0"
  by (rule sum16_stored) (use assms be16_put16 in auto)

text \<open>
  C32: The incremental update used for the first fragment equals recomputing the checksum from
  scratch: if the old checksum is the checksum of the old words followed by the rest of the data,
  then the adjusted checksum is the checksum of the new words followed by the same rest (the data
  not being all zero, which a pseudo header never is).
\<close>

theorem adjust_equals_recompute:
  assumes "length os = length ns" "even (length os)" "os \<noteq> []"
    and "length (os @ rest) \<le> 131070" "wsum (ns @ rest) \<noteq> 0"
  shows "adjustChecksum (sum16 (os @ rest)) os ns = Some (sum16 (ns @ rest))"
proof -
  let ?c = "sum16 (os @ rest)"
  obtain c' where c': "adjustChecksum ?c os ns = Some c'"
    "(65535 - unat c' + wsum os) mod 65535 = (65535 - unat ?c + wsum ns) mod 65535"
    "unat c' = 65535 \<longrightarrow> unat ?c = 65535 \<and> wsum os \<noteq> 0"
    using adjustChecksum_spec [OF assms(1,2), of ?c] assms(3) by blast
  obtain d where d: "adjustChecksum ?c os ns = Some d" "csum_ok d (ns @ rest)"
    using adjust_keeps_csum_ok [OF assms(1,2) csum_ok_sum16 [OF assms(4)]] by blast
  have len: "length (ns @ rest) \<le> 131070" using assms(1,4) by simp
  have b: "unat c' \<le> 65535" using unat_u16_lt [of c'] by simp
  have ne: "unat c' \<noteq> 65535"
  proof
    assume "unat c' = 65535"
    then have "unat ?c = 65535" "wsum os \<noteq> 0" using c'(3) by simp_all
    then have "ones_norm (wsum (os @ rest)) = 0"
      using unat_sum16 [OF assms(4)] ones_norm_le [of "wsum (os @ rest)"] by linarith
    with \<open>wsum os \<noteq> 0\<close> show False using wsum_append [OF assms(2)] by simp
  qed
  have "ones_norm (wsum (ns @ rest)) = 65535 - unat c'"
  proof (rule ones_norm_unique)
    have "(wsum (ns @ rest) + unat c') mod 65535 = 0"
      using d c'(1) by (simp add: csum_ok_def)
    then obtain k where "wsum (ns @ rest) + unat c' = 65535 * k" by auto
    then have "65535 - unat c' + 65535 * k = wsum (ns @ rest) + 65535 * 1" using b by linarith
    then show "(65535 - unat c') mod 65535 = wsum (ns @ rest) mod 65535"
      by (metis mod_mult_self2)
  next
    have "65535 - unat c' \<noteq> 0" using ne b by linarith
    then show "65535 - unat c' = 0 \<longleftrightarrow> wsum (ns @ rest) = 0" using assms(5) by blast
  qed simp
  then have "unat (sum16 (ns @ rest)) = unat c'" using unat_sum16 [OF len] b by linarith
  with c'(1) show ?thesis by (simp add: word_unat_eq_iff)
qed

theorem adjust_equals_recompute_witness:
  "adjustChecksum (sum16 ([10, 0] @ [1, 2, 3])) [10, 0] [100, 64] = Some (sum16 ([100, 64] @ [1, 2, 3]))"
  by (rule adjust_equals_recompute) simp_all

end
