(* ===== verification/Packet.thy ===== *)
theory Packet
  imports Netip Checksum
begin

text \<open>
  The packet functions of \<^verbatim>\<open>internal/mux/mux.go\<close>: header parsing (\<open>ipv4\<close>, \<open>fragmentBits\<close>),
  address translation with checksum repair (\<open>rewrite\<close>), and the keys under which flows and fragments
  are remembered (\<open>flowKey\<close>, \<open>fragmentKey\<close>). An index or slice expression out of range is a Go
  panic, the error value \<open>IndexPanic\<close>.
\<close>

section \<open>Operations\<close>

datatype packet_error =
    InvalidIPv4 | InvalidHeader
  | Short | ShortFragmentedTransport | ShortICMP | ShortTransport | IndexPanic

definition hdr_len :: "bytes \<Rightarrow> nat" where
  "hdr_len p = unat (p ! 0 AND 15) * 4"

definition ipv4 :: "bytes \<Rightarrow> packet_error + addr \<times> addr \<times> byte" where
  "ipv4 p = (if length p < 20 \<or> drop_bit 4 (p ! 0) \<noteq> 4 then Inl InvalidIPv4
     else let n = hdr_len p in
       if n < 20 \<or> length p < n then Inl InvalidHeader
       else Inr (AddrFrom4 (p ! 12, p ! 13, p ! 14, p ! 15), AddrFrom4 (p ! 16, p ! 17, p ! 18, p ! 19), p ! 9))"

definition fragmentBits :: "bytes \<Rightarrow> u16 \<times> bool" where
  "fragmentBits p = (if length p < 8 then (0, False)
     else let v = be16 p 6 in (v AND 0x1fff, v AND 0x2000 \<noteq> 0))"

definition pseudo_header :: "addr \<Rightarrow> addr \<Rightarrow> byte \<Rightarrow> bytes \<Rightarrow> bytes" where
  "pseudo_header src dst proto seg = (let ph = replicate (12 + length seg) 0;
       ph = copy_at ph 0 (length ph) (AsSlice src);
       ph = copy_at ph 4 (length ph) (AsSlice dst);
       ph = ph[9 := proto];
       ph = put16 ph 10 (word_of_nat (length seg))
     in copy_at ph 12 (length ph) seg)"

text \<open>The addresses and the header checksum: the first half of \<open>rewrite\<close>.\<close>

definition rewrite_header :: "bytes \<Rightarrow> addr \<Rightarrow> addr \<Rightarrow> bytes" where
  "rewrite_header p src dst = (let n = hdr_len p;
       p = copy_at p 12 16 (AsSlice src);
       p = copy_at p 16 20 (AsSlice dst);
       p = p[10 := 0, 11 := 0]
     in put16 p 10 (sum16 (take n p)))"

definition rewrite :: "bytes \<Rightarrow> addr \<Rightarrow> addr \<Rightarrow> byte \<Rightarrow> packet_error + bytes" where
  "rewrite p src dst proto =
    (if p = [] then Inl IndexPanic
     else let n = hdr_len p in
     if length p < n then Inl Short
     else if length p < 20 then Inl IndexPanic
     else let oldSrc = take 4 (drop 12 p); oldDst = take 4 (drop 16 p);
              p = rewrite_header p src dst; (offset, mf) = fragmentBits p in
     if 0 < offset then Inr p
     else if mf \<and> (proto = 6 \<or> proto = 17) then
       let off = (if proto = 17 then n + 6 else n + 16) in
       if length p < off + 2 then Inl ShortFragmentedTransport
       else (case adjustChecksum (be16 p off) (oldSrc @ oldDst) (AsSlice src @ AsSlice dst) of
           None \<Rightarrow> Inl IndexPanic
         | Some c \<Rightarrow> Inr (put16 p off c))
     else if mf \<and> proto = 1 then Inr p
     else if proto = 1 then
       (if length p < n + 4 then Inl ShortICMP
        else let p = p[n + 2 := 0, n + 3 := 0] in Inr (put16 p (n + 2) (sum16 (drop n p))))
     else if proto = 6 \<or> proto = 17 then
       (if length p < n + 8 then Inl ShortTransport
        else let off = (if proto = 17 then n + 6 else n + 16) in
        if length p \<le> off + 1 then Inl IndexPanic
        else let p = p[off := 0, off + 1 := 0];
                 c = sum16 (pseudo_header src dst proto (drop n p));
                 c = (if proto = 17 \<and> c = 0 then 0xffff else c)
             in Inr (put16 p off c))
     else Inr p)"

definition flowKey :: "string \<Rightarrow> bytes \<Rightarrow> bool \<Rightarrow> string" where
  "flowKey pid p inbound = (case ipv4 p of
       Inl _ \<Rightarrow> []
     | Inr (src, dst, proto) \<Rightarrow>
         let n = hdr_len p;
             remote = (if inbound then src else dst);
             key = (\<lambda>remotePort local. pid @ ''/'' @ dec (unat proto) @ ''/'' @ addr_String remote
                      @ ''/'' @ dec (unat remotePort) @ ''/'' @ dec (unat (local :: u16)))
         in if proto = 6 \<or> proto = 17 then
              (if length p < n + 4 then []
               else let a = be16 p n; b = be16 p (n + 2) in
                 if inbound then key a b else key b a)
            else if proto = 1 then
              (if length p < n + 6 then [] else key (0 :: u16) (be16 p (n + 4)))
            else [])"

definition fragmentKey :: "string \<Rightarrow> bytes \<Rightarrow> string" where
  "fragmentKey pid p = (if length p < 20 then []
     else pid @ ''/'' @ dec (unat (p ! 9)) @ ''/'' @ hex_bytes (take 4 (drop 12 p)) @ ''/''
       @ hex_bytes (take 4 (drop 16 p)) @ ''/'' @ dec (unat (be16 p 4)))"

definition flowTimeout :: "byte \<Rightarrow> duration" where
  "flowTimeout proto = (if proto = 6 then 5 * Minute else if proto = 17 then Minute else 30 * Second)"

section \<open>Header lemmas\<close>

lemma ipv4_Inr:
  "ipv4 p = Inr (src, dst, proto) \<longleftrightarrow> 20 \<le> hdr_len p \<and> hdr_len p \<le> length p \<and> drop_bit 4 (p ! 0) = 4
     \<and> src = AddrFrom4 (p ! 12, p ! 13, p ! 14, p ! 15)
     \<and> dst = AddrFrom4 (p ! 16, p ! 17, p ! 18, p ! 19) \<and> proto = p ! 9"
  by (auto simp: ipv4_def Let_def simp del: AddrFrom4.simps)

lemma hdr_len_le: "hdr_len p \<le> 60"
proof -
  have "p ! 0 AND 15 \<le> 15" by (rule word_and_le1)
  then show ?thesis by (simp add: hdr_len_def word_le_nat_alt)
qed

lemma nth_copy_at:
  assumes "lo \<le> hi" "hi \<le> length p" "length src = hi - lo" "i < length p"
  shows "copy_at p lo hi src ! i = (if lo \<le> i \<and> i < hi then src ! (i - lo) else p ! i)"
  using assms by (auto simp: copy_at_def Let_def nth_append)

lemma nth_put16:
  "Suc i < length p \<Longrightarrow> put16 p i v ! j
     = (if j = i then ucast (drop_bit 8 v) else if j = Suc i then ucast v else p ! j)"
  by (auto simp: put16_def nth_list_update)

lemma take_put16: "Suc i < n \<Longrightarrow> take n (put16 p i v) = put16 (take n p) i v"
  by (simp add: put16_def take_update_swap)

lemma length_rewrite_header [simp]: "20 \<le> length p \<Longrightarrow> length (rewrite_header p src dst) = length p"
  by (simp add: rewrite_header_def Let_def)

text \<open>Bytes of the rewritten header outside the checksum.\<close>

lemma nth_rewrite_header:
  assumes "20 \<le> length p" "i < length p" "i \<noteq> 10" "i \<noteq> 11"
  shows "rewrite_header p (V4 s) (V4 d) ! i =
    (if 12 \<le> i \<and> i < 16 then AsSlice (V4 s) ! (i - 12)
     else if 16 \<le> i \<and> i < 20 then AsSlice (V4 d) ! (i - 16) else p ! i)"
proof -
  have "length (AsSlice (V4 s)) = 16 - 12" "length (AsSlice (V4 d)) = 20 - 16"
    by (simp_all del: AsSlice.simps)
  with assms show ?thesis
    by (simp add: rewrite_header_def Let_def nth_put16 nth_copy_at del: AsSlice.simps)
qed

lemma hdr_len_rewrite_header [simp]:
  "20 \<le> length p \<Longrightarrow> hdr_len (rewrite_header p (V4 s) (V4 d)) = hdr_len p"
  using nth_rewrite_header [of p 0 s d] by (cases p) (simp_all add: hdr_len_def)

lemma rewrite_header_sum:
  assumes "20 \<le> hdr_len p" "hdr_len p \<le> length p"
  shows "sum16 (take (hdr_len p) (rewrite_header p (V4 s) (V4 d))) = 0"
proof -
  define q where "q = (copy_at (copy_at p 12 16 (AsSlice (V4 s))) 16 20 (AsSlice (V4 d)))[10 := 0, 11 := 0]"
  have len: "length q = length p" using assms by (simp add: q_def)
  have "be16 (take (hdr_len p) q) 10 = 0"
    using assms len by (simp add: be16_def q_def)
  then have "sum16 (put16 (take (hdr_len p) q) 10 (sum16 (take (hdr_len p) q))) = 0"
    using assms len hdr_len_le [of p] by (intro sum16_stored) auto
  then show ?thesis
    using assms by (simp add: rewrite_header_def Let_def take_put16 flip: q_def del: AsSlice.simps)
qed

lemma AddrFrom4_AsSlice:
  "AddrFrom4 (AsSlice (V4 n) ! 0, AsSlice (V4 n) ! Suc 0, AsSlice (V4 n) ! 2, AsSlice (V4 n) ! 3) = V4 n"
proof -
  obtain a b c d where q: "IPv4BytesFromNum n = (a, b, c, d)" by (cases "IPv4BytesFromNum n")
  then have "IPv4NumFromBytes (a, b, c, d) = n" by (metis IPv4NumFromBytes_BytesFromNum)
  with q show ?thesis by simp
qed

lemma ipv4_rewrite_header:
  assumes "ipv4 p = Inr (src, dst, proto)"
  shows "ipv4 (rewrite_header p (V4 s) (V4 d)) = Inr (V4 s, V4 d, proto)"
proof -
  have len: "20 \<le> length p" using assms by (auto simp: ipv4_Inr)
  then have "rewrite_header p (V4 s) (V4 d) ! i = AsSlice (V4 s) ! (i - 12)" if "12 \<le> i" "i < 16" for i
    using that by (simp add: nth_rewrite_header del: AsSlice.simps)
  moreover have "rewrite_header p (V4 s) (V4 d) ! i = AsSlice (V4 d) ! (i - 16)" if "16 \<le> i" "i < 20" for i
    using that len by (simp add: nth_rewrite_header del: AsSlice.simps)
  moreover have "rewrite_header p (V4 s) (V4 d) ! 0 = p ! 0"
    using len nth_rewrite_header [of p 0 s d] by (cases p) simp_all
  moreover have "rewrite_header p (V4 s) (V4 d) ! 9 = p ! 9"
    using len by (simp add: nth_rewrite_header)
  ultimately show ?thesis
    using assms len by (simp add: ipv4_Inr AddrFrom4_AsSlice del: AsSlice.simps AddrFrom4.simps)
qed

lemma fragmentBits_rewrite_header [simp]:
  "20 \<le> length p \<Longrightarrow> fragmentBits (rewrite_header p (V4 s) (V4 d)) = fragmentBits p"
  by (simp add: fragmentBits_def be16_def nth_rewrite_header)

section \<open>The shape of a rewritten packet\<close>

text \<open>The offset of the transport checksum.\<close>

definition csum_off :: "nat \<Rightarrow> byte \<Rightarrow> nat" where
  "csum_off n proto = (if proto = 1 then n + 2 else if proto = 17 then n + 6 else n + 16)"

lemma put16_zeroed [simp]: "put16 (p[i := 0, Suc i := 0]) i v = put16 p i v"
  by (simp add: put16_def list_update_swap [of i "Suc i"])

lemma rewrite_cases:
  assumes "ipv4 p = Inr (src, dst, proto)" "rewrite p (V4 s) (V4 d) proto = Inr q"
  defines "n \<equiv> hdr_len p" and "h \<equiv> rewrite_header p (V4 s) (V4 d)"
  obtains (none) "q = h" "0 < fst (fragmentBits p) \<or> proto \<notin> {1, 6, 17} \<or> proto = 1 \<and> snd (fragmentBits p)"
  | (frag) c where "snd (fragmentBits p)" "fst (fragmentBits p) = 0" "proto = 6 \<or> proto = 17"
      "csum_off n proto + 1 < length p"
      "adjustChecksum (be16 h (csum_off n proto)) (take 4 (drop 12 p) @ take 4 (drop 16 p))
         (AsSlice (V4 s) @ AsSlice (V4 d)) = Some c" "q = put16 h (csum_off n proto) c"
  | (icmp) "fragmentBits p = (0, False)" "proto = 1" "csum_off n proto + 1 < length p"
      "q = put16 h (n + 2) (sum16 (drop n (h[n + 2 := 0, n + 3 := 0])))"
  | (transport) c where "fragmentBits p = (0, False)" "proto = 6 \<or> proto = 17" "csum_off n proto + 1 < length p"
      "c = sum16 (pseudo_header (V4 s) (V4 d) proto (drop n (h[csum_off n proto := 0, csum_off n proto + 1 := 0])))"
      "q = put16 h (csum_off n proto) (if proto = 17 \<and> c = 0 then 0xffff else c)"
proof -
  have len: "20 \<le> n" "n \<le> length p" "length h = length p" "fragmentBits h = fragmentBits p"
    using assms(1) by (auto simp: ipv4_Inr n_def h_def)
  obtain offset mf where fb: "fragmentBits p = (offset, mf)" by fastforce
  have ne: "p \<noteq> []" "\<not> length p < n" "\<not> length p < 20" using len by auto
  note r = assms(2) [unfolded rewrite_def Let_def, folded n_def h_def,
    unfolded len(4) fb if_not_P [OF ne(1)] if_not_P [OF ne(2)] if_not_P [OF ne(3)] prod.case]
  consider "0 < offset" | "offset = 0" "mf" "proto = 6 \<or> proto = 17"
    | "offset = 0" "mf" "proto = 1" | "offset = 0" "\<not> mf" "proto = 1"
    | "offset = 0" "\<not> mf" "proto = 6 \<or> proto = 17" | "offset = 0" "proto \<notin> {1, 6, 17}"
    by (auto simp: word_gt_0)
  then show ?thesis
  proof cases
    case 2
    then have off: "csum_off n proto = (if proto = 17 then n + 6 else n + 16)" by (auto simp: csum_off_def)
    from r 2 obtain c where "adjustChecksum (be16 h (csum_off n proto)) (take 4 (drop 12 p) @ take 4 (drop 16 p))
         (AsSlice (V4 s) @ AsSlice (V4 d)) = Some c" "q = put16 h (csum_off n proto) c" "csum_off n proto + 1 < length h"
      by (auto simp add: off split: if_splits option.splits simp del: AsSlice.simps)
    then show ?thesis using 2 fb len(3) by (intro frag) simp_all
  next
    case 4
    have z: "put16 (h[n + 2 := 0, n + 3 := 0]) (n + 2) v = put16 h (n + 2) v" for v
      using put16_zeroed [of h "n + 2" v] by (simp add: numeral_3_eq_3)
    from 4 show ?thesis using r fb len(3)
      by (intro icmp) (simp_all only: csum_off_def z split: if_splits, simp_all)
  next
    case 5
    then have off: "csum_off n proto = (if proto = 17 then n + 6 else n + 16)" by (auto simp: csum_off_def)
    show ?thesis using r 5 fb len(3)
      by (intro transport [OF _ _ _ refl]) (simp_all add: off split: if_splits del: AsSlice.simps)
  qed (use r fb none in \<open>auto split: if_splits\<close>)
qed

lemma rewrite_shape:
  assumes "ipv4 p = Inr (src, dst, proto)" "rewrite p (V4 s) (V4 d) proto = Inr q"
  defines "n \<equiv> hdr_len p" and "h \<equiv> rewrite_header p (V4 s) (V4 d)"
  shows "q = h \<or> proto \<in> {1, 6, 17} \<and> csum_off n proto + 1 < length p \<and> (\<exists>c. q = put16 h (csum_off n proto) c)"
  by (rule rewrite_cases [OF assms(1,2)]) (auto simp: n_def h_def csum_off_def simp del: AsSlice.simps)

lemma nth_put16_neq: "j \<noteq> i \<Longrightarrow> j \<noteq> Suc i \<Longrightarrow> put16 p i v ! j = p ! j"
  by (simp add: put16_def)

lemma header_put16:
  assumes "20 \<le> i"
  shows "hdr_len (put16 h i c) = hdr_len h" "fragmentBits (put16 h i c) = fragmentBits h" "ipv4 (put16 h i c) = ipv4 h"
proof -
  show "hdr_len (put16 h i c) = hdr_len h" using assms by (simp add: hdr_len_def nth_put16_neq)
  then show "ipv4 (put16 h i c) = ipv4 h" using assms by (simp add: ipv4_def Let_def nth_put16_neq del: AddrFrom4.simps)
  show "fragmentBits (put16 h i c) = fragmentBits h" using assms by (simp add: fragmentBits_def be16_def nth_put16_neq)
qed

lemma rewrite_header_facts:
  assumes "ipv4 p = Inr (src, dst, proto)" "rewrite p (V4 s) (V4 d) proto = Inr q"
  shows "length q = length p" "hdr_len q = hdr_len p" "fragmentBits q = fragmentBits p"
    "ipv4 q = Inr (V4 s, V4 d, proto)"
proof -
  let ?h = "rewrite_header p (V4 s) (V4 d)"
  have n: "20 \<le> hdr_len p" "20 \<le> length p" using assms(1) by (auto simp: ipv4_Inr)
  have c: "20 \<le> csum_off (hdr_len p) proto" using n by (simp add: csum_off_def)
  from rewrite_shape [OF assms] n c ipv4_rewrite_header [OF assms(1), of s d]
  show "length q = length p" "hdr_len q = hdr_len p" "fragmentBits q = fragmentBits p"
    "ipv4 q = Inr (V4 s, V4 d, proto)"
    by (auto simp: header_put16)
qed

lemma take_rewrite:
  assumes "ipv4 p = Inr (src, dst, proto)" "rewrite p (V4 s) (V4 d) proto = Inr q"
  shows "take (hdr_len p) q = take (hdr_len p) (rewrite_header p (V4 s) (V4 d))"
  using rewrite_shape [OF assms] by (auto simp: csum_off_def put16_def)

lemma nth_rewrite:
  assumes "ipv4 p = Inr (src, dst, proto)" "rewrite p (V4 s) (V4 d) proto = Inr q"
    "i < length p" "i \<notin> {10..<20}" "i \<notin> {csum_off (hdr_len p) proto, Suc (csum_off (hdr_len p) proto)}"
  shows "q ! i = p ! i"
proof -
  have n: "20 \<le> length p" using assms(1) by (auto simp: ipv4_Inr)
  then have "rewrite_header p (V4 s) (V4 d) ! i = p ! i"
    using assms(3,4) by (subst nth_rewrite_header) auto
  then show ?thesis using rewrite_shape [OF assms(1,2)] assms(5) by (auto simp: nth_put16_neq)
qed

lemma drop_rewrite_header:
  assumes "20 \<le> n" "n \<le> length p"
  shows "drop n (rewrite_header p (V4 s) (V4 d)) = drop n p"
  by (rule nth_equalityI) (use assms in \<open>auto simp: nth_rewrite_header\<close>)

text \<open>
  C16: translating an IPv4 packet sets exactly the requested addresses, keeps the length, the
  protocol, the fragment fields and every byte outside the address, header-checksum and
  transport-checksum fields, and leaves a header whose Internet checksum verifies.
\<close>

theorem rewrite_translates:
  assumes "ipv4 p = Inr (src, dst, proto)" "rewrite p (V4 s) (V4 d) proto = Inr q"
  shows "ipv4 q = Inr (V4 s, V4 d, proto) \<and> length q = length p \<and> fragmentBits q = fragmentBits p
    \<and> sum16 (take (hdr_len q) q) = 0
    \<and> (\<forall>i<length p. i \<notin> {10..<20} \<longrightarrow> i \<notin> {csum_off (hdr_len p) proto, Suc (csum_off (hdr_len p) proto)}
         \<longrightarrow> q ! i = p ! i)"
proof -
  have n: "20 \<le> hdr_len p" "hdr_len p \<le> length p" using assms(1) by (auto simp: ipv4_Inr)
  then show ?thesis
    using rewrite_header_facts [OF assms] take_rewrite [OF assms] rewrite_header_sum [OF n] nth_rewrite [OF assms]
    by simp
qed

section \<open>Transport checksums\<close>

lemma pseudo_header_eq:
  "pseudo_header (V4 s) (V4 d) proto seg = AsSlice (V4 s) @ AsSlice (V4 d)
     @ [0, proto, ucast (drop_bit 8 (word_of_nat (length seg) :: u16)), ucast (word_of_nat (length seg) :: u16)] @ seg"
proof -
  obtain a b c e where s: "AsSlice (V4 s) = [a, b, c, e]" by (cases "IPv4BytesFromNum s") auto
  obtain a' b' c' e' where d: "AsSlice (V4 d) = [a', b', c', e']" by (cases "IPv4BytesFromNum d") auto
  have "replicate (12 + length seg) (0 :: byte) = replicate 12 0 @ replicate (length seg) 0"
    by (rule replicate_add)
  then show ?thesis
    by (simp add: pseudo_header_def Let_def s d copy_at_def put16_def eval_nat_numeral del: AsSlice.simps)
qed

lemma length_pseudo_header [simp]: "length (pseudo_header (V4 s) (V4 d) proto seg) = 12 + length seg"
  by (simp add: pseudo_header_eq del: AsSlice.simps)

lemma put16_append: "put16 (xs @ ys) (length xs + i) v = xs @ put16 ys i v"
  by (simp add: put16_def list_update_append)

lemma be16_append: "be16 (xs @ ys) (length xs + i) = be16 ys i"
  by (simp add: be16_def nth_append)

lemma drop_put16: "n \<le> i \<Longrightarrow> drop n (put16 p i v) = put16 (drop n p) (i - n) v"
  by (simp add: put16_def drop_update_swap Suc_diff_le)

lemma pseudo_header_at:
  "be16 (pseudo_header (V4 s) (V4 d) proto seg) (12 + i) = be16 seg i"
  "pseudo_header (V4 s) (V4 d) proto (put16 seg i v) = put16 (pseudo_header (V4 s) (V4 d) proto seg) (12 + i) v"
proof -
  obtain xs where xs: "length xs = 12" "\<And>seg'. length seg' = length seg \<Longrightarrow> pseudo_header (V4 s) (V4 d) proto seg' = xs @ seg'"
    by (rule that [of "AsSlice (V4 s) @ AsSlice (V4 d) @ [0, proto, ucast (drop_bit 8 (word_of_nat (length seg) :: u16)),
         ucast (word_of_nat (length seg) :: u16)]"]) (simp_all add: pseudo_header_eq del: AsSlice.simps)
  show "be16 (pseudo_header (V4 s) (V4 d) proto seg) (12 + i) = be16 seg i"
    using be16_append [of xs seg i] xs by simp
  show "pseudo_header (V4 s) (V4 d) proto (put16 seg i v) = put16 (pseudo_header (V4 s) (V4 d) proto seg) (12 + i) v"
    using put16_append [of xs seg i v] xs by simp
qed

lemma zero_field:
  assumes "n \<le> i" "Suc i < length h"
  shows "h[i := 0, Suc i := 0] = put16 h i 0" "be16 (drop n (put16 h i 0)) (i - n) = 0"
  using assms be16_put16 [of "i - n" "drop n h" 0] by (simp_all add: put16_def drop_update_swap Suc_diff_le)

lemma put16_put16 [simp]: "put16 (put16 p i u) i v = put16 p i v"
  by (simp add: put16_def list_update_swap [of i "Suc i"])

lemma csum_ok_ffff: "csum_ok 0 p \<Longrightarrow> csum_ok 0xffff p"
  by (simp add: csum_ok_def unat_word_ariths mod_Suc)

text \<open>A computed transport checksum, stored into its field, verifies.\<close>

lemma transport_stored:
  assumes "length seg \<le> 65535" "even i" "Suc i < length seg" "be16 seg i = 0"
    and c: "c = sum16 (pseudo_header (V4 s) (V4 d) proto seg)"
  shows "sum16 (pseudo_header (V4 s) (V4 d) proto (put16 seg i (if u \<and> c = 0 then 0xffff else c))) = 0"
proof -
  let ?ph = "pseudo_header (V4 s) (V4 d) proto seg"
  have len: "length ?ph \<le> 131070" using assms(1) by simp
  have "sum16 (put16 ?ph (12 + i) (if u \<and> c = 0 then 0xffff else c)) = 0"
  proof (rule sum16_put_zero)
    have "csum_ok c ?ph" using csum_ok_sum16 [OF len] by (simp add: c)
    then show "csum_ok (if u \<and> c = 0 then 0xffff else c) ?ph" by (auto intro: csum_ok_ffff)
    show "wsum ?ph \<noteq> 0 \<or> (if u \<and> c = 0 then 0xffff else c) \<noteq> 0"
      using sum16_zero_iff [OF len] by (auto simp: c)
  qed (use assms len in \<open>auto simp: pseudo_header_at\<close>)
  then show ?thesis by (simp add: pseudo_header_at)
qed

text \<open>
  C20: after translating an unfragmented TCP or UDP packet the transport checksum verifies over the
  pseudo header with the new addresses, and a UDP checksum is never the value 0 that means
  `no checksum'; an unfragmented ICMP message verifies too.
\<close>

theorem rewrite_transport_checksum:
  assumes "ipv4 p = Inr (src, dst, proto)" "rewrite p (V4 s) (V4 d) proto = Inr q"
    "fragmentBits p = (0, False)" "length p \<le> 65535"
  shows "(proto = 6 \<or> proto = 17 \<longrightarrow> sum16 (pseudo_header (V4 s) (V4 d) proto (drop (hdr_len p) q)) = 0)
    \<and> (proto = 17 \<longrightarrow> be16 q (hdr_len p + 6) \<noteq> 0)
    \<and> (proto = 1 \<longrightarrow> sum16 (drop (hdr_len p) q) = 0)"
proof (rule rewrite_cases [OF assms(1,2)])
  let ?n = "hdr_len p" and ?off = "csum_off (hdr_len p) proto" and ?h = "rewrite_header p (V4 s) (V4 d)"
  have n: "20 \<le> ?n" "?n \<le> length p" using assms(1) by (auto simp: ipv4_Inr)
  then have len: "length ?h = length p" by simp
  have ev: "even (?off - ?n)" "?n \<le> ?off" by (auto simp: csum_off_def)
  { assume proto: "proto = 1" and l: "?off + 1 < length p"
      and q: "q = put16 ?h (?n + 2) (sum16 (drop ?n (?h[?n + 2 := 0, ?n + 3 := 0])))"
    have z: "?h[?n + 2 := 0, ?n + 3 := 0] = put16 ?h (?n + 2) 0" "be16 (drop ?n (put16 ?h (?n + 2) 0)) 2 = 0"
      using zero_field [of ?n "?n + 2" ?h] l len proto by (simp_all add: csum_off_def numeral_3_eq_3)
    have "sum16 (put16 (drop ?n (put16 ?h (?n + 2) 0)) 2 (sum16 (drop ?n (put16 ?h (?n + 2) 0)))) = 0"
      using z(2) l len proto assms(4) n by (intro sum16_stored) (auto simp: csum_off_def)
    then show ?thesis using proto q [unfolded z(1)] by (simp add: drop_put16) }
  { fix c assume proto: "proto = 6 \<or> proto = 17" and l: "?off + 1 < length p"
      and c: "c = sum16 (pseudo_header (V4 s) (V4 d) proto (drop ?n (?h[?off := 0, ?off + 1 := 0])))"
      and q: "q = put16 ?h ?off (if proto = 17 \<and> c = 0 then 0xffff else c)"
    let ?seg = "drop ?n (put16 ?h ?off 0)"
    have z: "?h[?off := 0, ?off + 1 := 0] = put16 ?h ?off 0" "be16 ?seg (?off - ?n) = 0"
      using zero_field [of ?n ?off ?h] l len ev(2) by simp_all
    have "sum16 (pseudo_header (V4 s) (V4 d) proto (put16 ?seg (?off - ?n) (if proto = 17 \<and> c = 0 then 0xffff else c))) = 0"
      by (rule transport_stored) (use c z l len ev assms(4) n in auto)
    moreover have "put16 ?seg (?off - ?n) v = drop ?n (put16 ?h ?off v)" for v
      using ev(2) by (simp add: drop_put16)
    moreover have "be16 q ?off \<noteq> 0" if "proto = 17"
      using that l len by (simp add: q be16_put16)
    ultimately show ?thesis using proto q by (auto simp: csum_off_def) }
qed (use assms(3) in auto)

text \<open>
  On the first fragment of a TCP or UDP datagram, whose later bytes are not there to be summed,
  the incremental update keeps the checksum field correct: if it was correct for the old addresses
  followed by any remaining words (pseudo header tail and whole segment), it is correct for the new
  addresses followed by the same words.
\<close>

lemma rewrite_first_fragment_checksum:
  assumes "ipv4 p = Inr (src, dst, proto)" "rewrite p (V4 s) (V4 d) proto = Inr q"
    "fragmentBits p = (0, True)" "proto = 6 \<or> proto = 17"
    "csum_ok (be16 p (csum_off (hdr_len p) proto)) (take 4 (drop 12 p) @ take 4 (drop 16 p) @ rest)"
  shows "csum_ok (be16 q (csum_off (hdr_len p) proto)) (AsSlice (V4 s) @ AsSlice (V4 d) @ rest)"
proof (rule rewrite_cases [OF assms(1,2)])
  let ?off = "csum_off (hdr_len p) proto" and ?h = "rewrite_header p (V4 s) (V4 d)"
  have n: "20 \<le> hdr_len p" "hdr_len p \<le> length p" using assms(1) by (auto simp: ipv4_Inr)
  fix c assume c: "adjustChecksum (be16 ?h ?off) (take 4 (drop 12 p) @ take 4 (drop 16 p)) (AsSlice (V4 s) @ AsSlice (V4 d)) = Some c"
    and q: "q = put16 ?h ?off c" and l: "?off + 1 < length p"
  have "20 \<le> ?off" using n by (simp add: csum_off_def)
  then have "be16 ?h ?off = be16 p ?off" using n l by (simp add: be16_def nth_rewrite_header)
  then have "csum_ok c ((AsSlice (V4 s) @ AsSlice (V4 d)) @ rest)"
    using adjust_keeps_csum_ok [of "take 4 (drop 12 p) @ take 4 (drop 16 p)" "AsSlice (V4 s) @ AsSlice (V4 d)" "be16 p ?off" rest]
      assms(5) c n by (auto simp del: AsSlice.simps)
  then show ?thesis using l n by (simp add: q be16_put16 del: AsSlice.simps)
qed (use assms in auto)

section \<open>Errors\<close>

lemma rewrite_Inl_iff:
  assumes "ipv4 p = Inr (src, dst, proto)"
  shows "rewrite p (V4 s) (V4 d) proto = Inl e \<longleftrightarrow> fst (fragmentBits p) = 0 \<and>
    (snd (fragmentBits p) \<and> proto \<in> {6, 17} \<and> length p < csum_off (hdr_len p) proto + 2 \<and> e = ShortFragmentedTransport
     \<or> \<not> snd (fragmentBits p) \<and> proto = 1 \<and> length p < hdr_len p + 4 \<and> e = ShortICMP
     \<or> \<not> snd (fragmentBits p) \<and> proto \<in> {6, 17} \<and> length p < hdr_len p + 8 \<and> e = ShortTransport
     \<or> \<not> snd (fragmentBits p) \<and> proto = 6 \<and> hdr_len p + 8 \<le> length p \<and> length p < hdr_len p + 18 \<and> e = IndexPanic)"
proof -
  let ?h = "rewrite_header p (V4 s) (V4 d)"
  have n: "20 \<le> hdr_len p" "hdr_len p \<le> length p" "p \<noteq> []" "\<not> length p < 20" "\<not> length p < hdr_len p"
    using assms by (auto simp: ipv4_Inr)
  have adj: "\<exists>c'. adjustChecksum c (take 4 (drop 12 p) @ take 4 (drop 16 p)) (AsSlice (V4 s) @ AsSlice (V4 d)) = Some c'" for c
    using adjustChecksum_spec [of "take 4 (drop 12 p) @ take 4 (drop 16 p)" "AsSlice (V4 s) @ AsSlice (V4 d)" c] n
    by (auto simp del: AsSlice.simps)
  obtain offset mf where fb: "fragmentBits p = (offset, mf)" by fastforce
  consider "0 < offset" | "offset = 0" "mf" "proto \<in> {6, 17}" | "offset = 0" "mf" "proto \<notin> {6, 17}" | "offset = 0" "\<not> mf"
    by (auto simp: word_gt_0)
  then show ?thesis
  proof cases
    case 2
    with n fb adj [of "be16 ?h (hdr_len p + 6)"] adj [of "be16 ?h (hdr_len p + 16)"] show ?thesis
      by (auto simp: rewrite_def Let_def csum_off_def split: if_splits simp del: AsSlice.simps)
  qed (use n fb in \<open>auto simp: rewrite_def Let_def csum_off_def split: if_splits simp del: AsSlice.simps\<close>)
qed

section \<open>Repeated translation\<close>

lemma rewrite_recomputed:
  assumes "20 \<le> hdr_len p" "hdr_len p \<le> length p" "fragmentBits p = (offset, mf)" "0 < offset \<or> \<not> mf \<or> proto \<notin> {6, 17}"
  shows "rewrite p (V4 s) (V4 d) proto =
    (let n = hdr_len p; h = rewrite_header p (V4 s) (V4 d); off = csum_off n proto;
         c = sum16 (pseudo_header (V4 s) (V4 d) proto (drop n (put16 h off 0)))
     in if 0 < offset \<or> proto \<notin> {1, 6, 17} \<or> mf then Inr h
        else if proto = 1 then
          (if length p < n + 4 then Inl ShortICMP else Inr (put16 h off (sum16 (drop n (put16 h off 0)))))
        else if length p < n + 8 then Inl ShortTransport
        else if length p \<le> off + 1 then Inl IndexPanic
        else Inr (put16 h off (if proto = 17 \<and> c = 0 then 0xffff else c)))"
proof -
  have ne: "p \<noteq> []" "\<not> length p < 20" "\<not> length p < hdr_len p" using assms(1,2) by auto
  have z: "xs[i := 0, i + 1 := 0] = put16 xs i 0" for xs :: bytes and i by (simp add: put16_def)
  have z3: "xs[i + 2 := 0, i + 3 := 0] = put16 xs (i + 2) 0" for xs :: bytes and i
    using z [of xs "i + 2"] by (simp add: numeral_3_eq_3)
  from assms ne show ?thesis
    unfolding rewrite_def Let_def z z3 put16_put16 by (simp add: csum_off_def del: AsSlice.simps) auto
qed

lemma rewrite_header_put16:
  assumes "20 \<le> i" "20 \<le> hdr_len h" "hdr_len h \<le> i" "length h \<ge> 20"
  shows "rewrite_header (put16 h i c) (V4 s) (V4 d) = put16 (rewrite_header h (V4 s) (V4 d)) i c"
proof -
  let ?f = "\<lambda>p. (copy_at (copy_at p 12 16 (AsSlice (V4 s))) 16 20 (AsSlice (V4 d)))[10 := 0, 11 := 0]"
  obtain a b where h: "h = a @ b" "length a = 20"
    using assms(4) by (metis append_take_drop_id length_take min.absorb2)
  have put: "put16 (x @ b) i c = x @ put16 b (i - 20) c" if "length x = 20" for x
    using put16_append [of x b "i - 20" c] that assms(1) by simp
  have f: "?f (a @ y) = ?f a @ y" for y
    using h(2) by (simp add: copy_at_def Let_def list_update_append del: AsSlice.simps)
  have swap: "?f (put16 h i c) = put16 (?f h) i c"
    using h put [of a] put [of "?f a"] by (simp add: f del: AsSlice.simps)
  have "put16 (put16 x i c) 10 v = put16 (put16 x 10 v) i c" for x v
    using assms(1) by (simp add: put16_def list_update_swap)
  moreover have "take (hdr_len h) (put16 (?f h) i c) = take (hdr_len h) (?f h)"
    using assms(3) by (simp add: put16_def)
  ultimately show ?thesis
    using assms(1) by (simp add: rewrite_header_def Let_def header_put16 swap del: AsSlice.simps)
qed

lemma rewrite_header_rewrite_header:
  assumes "20 \<le> hdr_len p" "hdr_len p \<le> length p"
  shows "rewrite_header (rewrite_header p (V4 s) (V4 d)) (V4 s') (V4 d') = rewrite_header p (V4 s') (V4 d')"
proof -
  define g where "g x = (copy_at (copy_at x 12 16 (AsSlice (V4 s'))) 16 20 (AsSlice (V4 d')))[10 := 0, 11 := 0]" for x
  have len: "20 \<le> length p" using assms by simp
  have sl: "length (AsSlice (V4 s')) = 16 - 12" "length (AsSlice (V4 d')) = 20 - 16" by (simp_all del: AsSlice.simps)
  have g: "g x ! i = (if i = 10 \<or> i = 11 then 0 else if 12 \<le> i \<and> i < 16 then AsSlice (V4 s') ! (i - 12)
      else if 16 \<le> i \<and> i < 20 then AsSlice (V4 d') ! (i - 16) else x ! i)" if "i < length x" "20 \<le> length x" for x i
    using that sl by (auto simp: g_def nth_list_update nth_copy_at simp del: AsSlice.simps)
  have "g (rewrite_header p (V4 s) (V4 d)) = g p"
  proof (rule nth_equalityI)
    fix i assume "i < length (g (rewrite_header p (V4 s) (V4 d)))"
    then have "i < length p" using len by (simp add: g_def del: AsSlice.simps)
    then show "g (rewrite_header p (V4 s) (V4 d)) ! i = g p ! i"
      using len by (simp add: g nth_rewrite_header del: AsSlice.simps)
  qed (use len in \<open>simp add: g_def del: AsSlice.simps\<close>)
  then show ?thesis
    using len unfolding rewrite_header_def [of _ "V4 s'" "V4 d'"] Let_def g_def [symmetric] by simp
qed

text \<open>
  Translation is stateless: translating a packet whose transport checksum is recomputed (that
  is, any packet but the first fragment of a TCP or UDP datagram) and then translating the result
  gives what translating the original directly gives. In particular, translating out and back
  restores the packet that translation to the original addresses yields.
\<close>

lemma rewrite_rewrite:
  assumes "ipv4 p = Inr (src, dst, proto)" "rewrite p (V4 s) (V4 d) proto = Inr q"
    "0 < fst (fragmentBits p) \<or> \<not> snd (fragmentBits p) \<or> proto \<notin> {6, 17}"
  shows "rewrite q (V4 s') (V4 d') proto = rewrite p (V4 s') (V4 d') proto"
proof -
  let ?h = "rewrite_header p (V4 s) (V4 d)" and ?h' = "rewrite_header p (V4 s') (V4 d')"
  have n: "20 \<le> hdr_len p" "hdr_len p \<le> length p" using assms(1) by (auto simp: ipv4_Inr)
  note q = rewrite_header_facts [OF assms(1,2)]
  obtain offset mf where fb: "fragmentBits p = (offset, mf)" by fastforce
  have off: "csum_off (hdr_len p) proto \<ge> hdr_len p" by (simp add: csum_off_def)
  have "rewrite_header q (V4 s') (V4 d') = ?h' \<or> proto \<in> {1, 6, 17} \<and> (\<exists>c. rewrite_header q (V4 s') (V4 d') = put16 ?h' (csum_off (hdr_len p) proto) c)"
    using rewrite_shape [OF assms(1,2)] n off
    by (auto simp: rewrite_header_rewrite_header rewrite_header_put16 simp del: AsSlice.simps)
  moreover have "rewrite_header q (V4 s') (V4 d') = ?h'" if "0 < offset \<or> mf"
  proof -
    have "q = ?h" by (rule rewrite_cases [OF assms(1,2)]) (use that fb assms(3) in auto)
    then show ?thesis using n by (simp add: rewrite_header_rewrite_header)
  qed
  ultimately consider "rewrite_header q (V4 s') (V4 d') = ?h'"
    | c where "\<not> (0 < offset \<or> mf)" "proto \<in> {1, 6, 17}" "rewrite_header q (V4 s') (V4 d') = put16 ?h' (csum_off (hdr_len p) proto) c"
    by blast
  moreover have fq: "fragmentBits q = (offset, mf)" "20 \<le> hdr_len q" "hdr_len q \<le> length q"
    and a: "0 < offset \<or> \<not> mf \<or> proto \<notin> {6, 17}"
    using q n fb assms(3) by simp_all
  ultimately show ?thesis
  proof cases
    case 1
    show ?thesis
      by (simp only: rewrite_recomputed [OF n fb a] rewrite_recomputed [OF fq(2,3,1) a] q(1,2) 1)
  next
    case (2 c)
    then have "(0 < offset \<or> proto \<notin> {1, 6, 17} \<or> mf) = False" by blast
    then show ?thesis
      by (simp only: rewrite_recomputed [OF n fb a] rewrite_recomputed [OF fq(2,3,1) a] q(1,2) 2(3) Let_def put16_put16 if_False)
  qed
qed

section \<open>Keys\<close>

text \<open>What a flow key encodes: protocol, remote address, remote port and local port or ICMP identifier.\<close>

definition flow_tuple :: "bytes \<Rightarrow> bool \<Rightarrow> (byte \<times> addr \<times> u16 \<times> u16) option" where
  "flow_tuple p inbound = (case ipv4 p of Inl _ \<Rightarrow> None
     | Inr (src, dst, proto) \<Rightarrow>
         let n = hdr_len p; remote = (if inbound then src else dst); a = be16 p n; b = be16 p (n + 2) in
         if proto = 6 \<or> proto = 17 then
           (if length p < n + 4 then None else Some (proto, remote, if inbound then a else b, if inbound then b else a))
         else if proto = 1 \<and> n + 6 \<le> length p then Some (proto, remote, 0, be16 p (n + 4))
         else None)"

lemma flowKey_tuple:
  "flowKey pid p inbound = (case flow_tuple p inbound of None \<Rightarrow> []
     | Some (proto, remote, rp, lp) \<Rightarrow> pid @ ''/'' @ dec (unat proto) @ ''/'' @ addr_String remote
         @ ''/'' @ dec (unat rp) @ ''/'' @ dec (unat lp))"
  by (auto simp: flowKey_def flow_tuple_def Let_def split: sum.splits)

lemma flow_tuple_remote4: "flow_tuple p inbound = Some (proto, remote, rp, lp) \<Longrightarrow> \<exists>m. remote = V4 m"
  by (auto simp: flow_tuple_def Let_def ipv4_Inr split: sum.splits if_splits)

lemma flowKey_Nil_iff: "flowKey pid p inbound = [] \<longleftrightarrow> flow_tuple p inbound = None"
  by (auto simp: flowKey_tuple split: option.splits)

text \<open>A key is the profile ID followed by four slash-free fields, so it determines them whatever the ID is.\<close>

lemma key_fields_inject:
  assumes "CHR ''/'' \<notin> set a \<union> set b \<union> set c \<union> set d \<union> set a' \<union> set b' \<union> set c' \<union> set d'"
    "pid @ ''/'' @ a @ ''/'' @ b @ ''/'' @ c @ ''/'' @ d = pid' @ ''/'' @ a' @ ''/'' @ b' @ ''/'' @ c' @ ''/'' @ d'"
  shows "pid = pid' \<and> a = a' \<and> b = b' \<and> c = c' \<and> d = d'"
proof -
  have "Split (CHR ''/'') (pid @ ''/'' @ a @ ''/'' @ b @ ''/'' @ c @ ''/'' @ d)
      = Split (CHR ''/'') (pid' @ ''/'' @ a' @ ''/'' @ b' @ ''/'' @ c' @ ''/'' @ d')"
    using assms(2) by (rule arg_cong)
  then have "Split (CHR ''/'') pid @ [a, b, c, d] = Split (CHR ''/'') pid' @ [a', b', c', d']"
    using assms(1) by (simp add: str_simps)
  then show ?thesis by (simp add: Split_inject)
qed

lemma key_has_prefix:
  assumes "CHR ''/'' \<notin> set pid" "CHR ''/'' \<notin> set pid'"
  shows "HasPrefix (pid @ ''/'' @ rest) (pid' @ ''/'') \<longleftrightarrow> pid' = pid"
proof
  assume "HasPrefix (pid @ ''/'' @ rest) (pid' @ ''/'')"
  then obtain r where "pid @ CHR ''/'' # rest = pid' @ CHR ''/'' # r" by (auto simp: HasPrefix_iff)
  then have "Split (CHR ''/'') (pid @ CHR ''/'' # rest) = Split (CHR ''/'') (pid' @ CHR ''/'' # r)" by simp
  then show "pid' = pid" using assms by (simp add: Split_append Split_single)
qed (auto simp: HasPrefix_iff)

text \<open>
  Flow keys identify flows: equal non-empty keys come from the same profile and agree on
  protocol, remote address, remote port and local port, whatever characters the profile IDs hold.
\<close>

lemma flowKey_injective:
  assumes "flowKey pid p inbound = flowKey pid' p' inbound'" "flowKey pid p inbound \<noteq> []"
  shows "pid = pid' \<and> flow_tuple p inbound = flow_tuple p' inbound'"
proof -
  obtain proto m rp lp where t: "flow_tuple p inbound = Some (proto, V4 m, rp, lp)"
    using assms(2) flow_tuple_remote4 by (fastforce simp: flowKey_Nil_iff)
  obtain proto' m' rp' lp' where t': "flow_tuple p' inbound' = Some (proto', V4 m', rp', lp')"
    using assms flow_tuple_remote4 [of p' inbound'] by (fastforce simp: flowKey_Nil_iff)
  have "pid @ ''/'' @ dec (unat proto) @ ''/'' @ string4 m @ ''/'' @ dec (unat rp) @ ''/'' @ dec (unat lp)
      = pid' @ ''/'' @ dec (unat proto') @ ''/'' @ string4 m' @ ''/'' @ dec (unat rp') @ ''/'' @ dec (unat lp')"
    using assms(1) by (simp add: flowKey_tuple t t')
  from key_fields_inject [OF _ this] show ?thesis
    using addr_String4_inject [of m m'] by (simp add: t t' word_unat_eq_iff)
qed

lemma flowKey_swapped:
  assumes "ipv4 p = Inr (src, dst, proto)" "ipv4 r = Inr (dst, self, proto)"
    "proto = 6 \<or> proto = 17 \<Longrightarrow> hdr_len p + 4 \<le> length p \<and> hdr_len r + 4 \<le> length r
       \<and> be16 r (hdr_len r) = be16 p (hdr_len p + 2) \<and> be16 r (hdr_len r + 2) = be16 p (hdr_len p)"
    "proto = 1 \<Longrightarrow> hdr_len p + 6 \<le> length p \<and> hdr_len r + 6 \<le> length r \<and> be16 r (hdr_len r + 4) = be16 p (hdr_len p + 4)"
    "proto = 6 \<or> proto = 17 \<or> proto = 1"
  shows "flowKey pid r True = flowKey pid p False \<and> flowKey pid p False \<noteq> []"
proof -
  have "flow_tuple r True = flow_tuple p False \<and> flow_tuple p False \<noteq> None"
    using assms by (auto simp: flow_tuple_def Let_def)
  then show ?thesis by (simp add: flowKey_tuple flowKey_Nil_iff split: option.splits)
qed

text \<open>
  Fragment keys identify datagrams: equal keys of two packets of at least 20 bytes come from the
  same profile and agree on protocol, source and destination bytes and IP identification.
\<close>

lemma fragmentKey_injective:
  assumes "fragmentKey pid p = fragmentKey pid' p'" "20 \<le> length p" "20 \<le> length p'"
  shows "pid = pid' \<and> p ! 9 = p' ! 9 \<and> take 8 (drop 12 p) = take 8 (drop 12 p') \<and> be16 p 4 = be16 p' 4"
proof -
  have split: "take 8 (drop 12 x) = take 4 (drop 12 x) @ take 4 (drop 16 x)" for x :: bytes
    using take_add [of 4 4 "drop 12 x"] by simp
  from assms have "pid @ ''/'' @ dec (unat (p ! 9)) @ ''/'' @ hex_bytes (take 4 (drop 12 p)) @ ''/''
       @ hex_bytes (take 4 (drop 16 p)) @ ''/'' @ dec (unat (be16 p 4))
     = pid' @ ''/'' @ dec (unat (p' ! 9)) @ ''/'' @ hex_bytes (take 4 (drop 12 p')) @ ''/''
       @ hex_bytes (take 4 (drop 16 p')) @ ''/'' @ dec (unat (be16 p' 4))"
    by (simp add: fragmentKey_def)
  from key_fields_inject [OF _ this] show ?thesis
    using assms(2,3) by (simp add: split hex_bytes_inject word_unat_eq_iff)
qed

section \<open>Examples\<close>

text \<open>
  A UDP datagram from 169.254.100.1 port 53 to 100.64.0.9 port 54, its translation to the addresses
  0.0.0.1 and 0.0.0.2, the first fragment of the same datagram with its translation, and a reply.
\<close>

definition udp_example :: bytes where
  "udp_example = [69, 0, 0, 28, 0, 1, 0, 0, 64, 17, 0, 0, 169, 254, 100, 1, 100, 64, 0, 9, 0, 53, 0, 54, 0, 8, 0, 0]"

definition udp_translated :: bytes where
  "udp_translated = [69, 0, 0, 28, 0, 1, 0, 0, 64, 17, 122, 206, 0, 0, 0, 1, 0, 0, 0, 2, 0, 53, 0, 54, 0, 8, 255, 112]"

definition udp_reply :: bytes where
  "udp_reply = [69, 0, 0, 28, 0, 1, 0, 0, 64, 17, 0, 0, 100, 64, 0, 9, 0, 0, 0, 1, 0, 54, 0, 53, 0, 8, 0, 0]"

definition udp_fragment :: bytes where
  "udp_fragment = [69, 0, 0, 28, 0, 1, 32, 0, 64, 17, 0, 0, 0, 1, 0, 2, 0, 3, 0, 4, 0, 53, 0, 54, 0, 8, 255, 117]"

lemma ipv4_examples:
  "ipv4 udp_example = Inr (V4 2852021249, V4 1681915913, 17)" "ipv4 udp_reply = Inr (V4 1681915913, V4 1, 17)"
  "ipv4 udp_fragment = Inr (V4 65538, V4 196612, 17)"
  by code_simp+

lemma rewrite_example: "rewrite udp_example (V4 1) (V4 2) 17 = Inr udp_translated"
  by code_simp

lemma example_facts:
  "fragmentBits udp_example = (0, False)" "hdr_len udp_example = 20" "hdr_len udp_reply = 20"
  "length udp_example = 28" "length udp_reply = 28"
  "be16 udp_reply 20 = 54" "be16 udp_reply 22 = 53" "be16 udp_example 20 = 53" "be16 udp_example 22 = 54"
  by code_simp+

definition fragment_translated :: bytes where
  "fragment_translated = [69, 0, 0, 28, 0, 1, 32, 0, 64, 17, 90, 206, 0, 0, 0, 1, 0, 0, 0, 2, 0, 53, 0, 54, 0, 8, 255, 124]"

lemma fragment_facts:
  "rewrite udp_fragment (V4 1) (V4 2) 17 = Inr fragment_translated" "fragmentBits udp_fragment = (0, True)"
  by code_simp+

lemma fragment_checksum:
  "csum_ok (be16 udp_fragment (csum_off (hdr_len udp_fragment) 17))
     (take 4 (drop 12 udp_fragment) @ take 4 (drop 16 udp_fragment) @ [0, 128])"
  by (simp add: csum_ok_def unat_be16 csum_off_def hdr_len_def udp_fragment_def)

theorem rewrite_translates_witness:
  "ipv4 udp_translated = Inr (V4 1, V4 2, 17) \<and> sum16 (take (hdr_len udp_translated) udp_translated) = 0"
  using rewrite_translates [OF ipv4_examples(1) rewrite_example] by blast

theorem rewrite_transport_checksum_witness:
  "sum16 (pseudo_header (V4 1) (V4 2) 17 (drop (hdr_len udp_example) udp_translated)) = 0"
  using rewrite_transport_checksum [OF ipv4_examples(1) rewrite_example example_facts(1)] example_facts(4) by simp

end
