(* ===== verification/PacketTun.thy ===== *)
theory PacketTun
  imports Prelude
begin

text \<open>
  \<^verbatim>\<open>internal/packettun/channel.go\<close>: the channel-backed TUN between the packet mux and an embedded
  profile. The two bounded channels are lists (head first) with the capacity \<open>depth\<close>.

  A Go \<^verbatim>\<open>select\<close> with several ready cases picks one at random: the choice is the argument \<open>sel\<close>
  (true: the send or receive case, false: the \<^verbatim>\<open>done\<close> case). An operation that may block returns
  an option, with \<open>None\<close> for "blocked in this state".

  The locale \<open>fifo\<close> is the contract each direction offers to its two ends; it is interpreted once
  per direction.
\<close>

section \<open>Data\<close>

datatype tun_event = EventUp

datatype tun_error = ErrClosed | ErrQueueFull | EOF | ErrShortBuffer | ErrReadBatch | ErrWriteOffset

record Device =
  dev_name :: string
  mtu :: int
  depth :: nat
  toEngine :: "bytes list"
  fromEngine :: "bytes list"
  events :: "tun_event list"
  closed :: bool

section \<open>Operations\<close>

definition Device_New :: "string \<Rightarrow> int \<Rightarrow> int \<Rightarrow> Device" where
  "Device_New nm m queueDepth = (let qd = (if queueDepth < 1 then 1 else queueDepth) in
     \<lparr>dev_name = nm, mtu = m, depth = nat qd, toEngine = [], fromEngine = [],
      events = [EventUp], closed = False\<rparr>)"

definition MTU :: "Device \<Rightarrow> int" where "MTU d = mtu d"
definition Device_Name :: "Device \<Rightarrow> string" where "Device_Name d = dev_name d"
definition Events :: "Device \<Rightarrow> tun_event list" where "Events d = events d"
definition BatchSize :: "Device \<Rightarrow> nat" where "BatchSize d = 1"

datatype chan = ToEngine | FromEngine

fun chan_queue :: "chan \<Rightarrow> Device \<Rightarrow> bytes list" where
  "chan_queue ToEngine d = toEngine d"
| "chan_queue FromEngine d = fromEngine d"

fun chan_set :: "chan \<Rightarrow> bytes list \<Rightarrow> Device \<Rightarrow> Device" where
  "chan_set ToEngine q d = d\<lparr>toEngine := q\<rparr>"
| "chan_set FromEngine q d = d\<lparr>fromEngine := q\<rparr>"

definition send :: "bool \<Rightarrow> Device \<Rightarrow> chan \<Rightarrow> bytes \<Rightarrow> (tun_error option \<times> Device) option" where
  "send sel d ch p =
     (if length (chan_queue ch d) < depth d \<and> (sel \<or> \<not> closed d)
      then Some (None, chan_set ch (chan_queue ch d @ [p]) d)
      else if closed d then Some (Some ErrClosed, d)
      else None)"

definition Inject :: "bool \<Rightarrow> Device \<Rightarrow> bytes \<Rightarrow> (tun_error option \<times> Device) option" where
  "Inject sel d p = send sel d ToEngine p"

definition TryInject :: "bool \<Rightarrow> Device \<Rightarrow> bytes \<Rightarrow> tun_error option \<times> Device" where
  "TryInject sel d p =
     (if length (toEngine d) < depth d \<and> (sel \<or> \<not> closed d)
      then (None, d\<lparr>toEngine := toEngine d @ [p]\<rparr>)
      else if closed d then (Some ErrClosed, d)
      else (Some ErrQueueFull, d))"

definition Receive :: "bool \<Rightarrow> Device \<Rightarrow> ((tun_error + bytes) \<times> Device) option" where
  "Receive sel d =
     (if fromEngine d \<noteq> [] \<and> (sel \<or> \<not> closed d)
      then Some (Inr (hd (fromEngine d)), d\<lparr>fromEngine := tl (fromEngine d)\<rparr>)
      else if closed d then Some (Inl EOF, d)
      else None)"

text \<open>
  \<open>Read\<close> returns the packet count or the error, with the buffers and sizes it filled in. A packet
  that does not fit the buffer has already left the channel.
\<close>

definition Read :: "bool \<Rightarrow> Device \<Rightarrow> bytes list \<Rightarrow> nat list \<Rightarrow> nat
    \<Rightarrow> ((tun_error + nat) \<times> bytes list \<times> nat list \<times> Device) option" where
  "Read sel d bufs sizes off =
     (if bufs = [] \<or> length sizes < length bufs then Some (Inl ErrReadBatch, bufs, sizes, d)
      else if toEngine d \<noteq> [] \<and> (sel \<or> \<not> closed d) then
        let p = hd (toEngine d); d' = d\<lparr>toEngine := tl (toEngine d)\<rparr> in
        if length (hd bufs) < off + length p then Some (Inl ErrShortBuffer, bufs, sizes, d')
        else Some (Inr 1, bufs[0 := copy_at (hd bufs) off (length (hd bufs)) p],
               sizes[0 := length p], d')
      else if closed d then Some (Inl EOF, bufs, sizes, d)
      else None)"

text \<open>
  The loop of \<open>Write\<close>: the result is the number of packets accepted and the error, or \<open>None\<close> when
  it blocks on a packet; \<open>sel\<close> chooses for each packet.
\<close>

fun Write_loop :: "(nat \<Rightarrow> bool) \<Rightarrow> Device \<Rightarrow> bytes list \<Rightarrow> nat \<Rightarrow> nat
    \<Rightarrow> (nat \<times> tun_error option) option \<times> Device" where
  "Write_loop sel d [] off i = (Some (i, None), d)"
| "Write_loop sel d (b # bufs) off i =
     (if length b < off then (Some (i, Some ErrWriteOffset), d)
      else case send (sel i) d FromEngine (drop off b) of
        None \<Rightarrow> (None, d)
      | Some (Some e, d') \<Rightarrow> (Some (i, Some e), d')
      | Some (None, d') \<Rightarrow> Write_loop sel d' bufs off (Suc i))"

definition Write :: "(nat \<Rightarrow> bool) \<Rightarrow> Device \<Rightarrow> bytes list \<Rightarrow> nat
    \<Rightarrow> (nat \<times> tun_error option) option \<times> Device" where
  "Write sel d bufs off = Write_loop sel d bufs off 0"

definition Device_Close :: "Device \<Rightarrow> Device" where
  "Device_Close d = d\<lparr>closed := True\<rparr>"

section \<open>The contract of one direction\<close>

text \<open>
  The operations a direction offers, as seen by its ends: \<open>put\<close> accepts a packet or not; \<open>get\<close>, with the buffer and
  the offset of its caller, takes one out or not; \<open>shut\<close> closes the device. A packet that is taken out is
  delivered, or it is lost because it does not fit the buffer.
\<close>

datatype taken = Delivered bytes | TooLong nat nat

fun explains :: "taken \<Rightarrow> bytes \<Rightarrow> bool" where
  "explains (Delivered q) p \<longleftrightarrow> q = p"
| "explains (TooLong off room) p \<longleftrightarrow> room < off + length p"

datatype fifo_op = Put bool bytes | Get bool nat bytes | Shut

fun fifo_run :: "(bool \<Rightarrow> 'd \<Rightarrow> bytes \<Rightarrow> 'd option) \<Rightarrow> (bool \<Rightarrow> nat \<Rightarrow> bytes \<Rightarrow> 'd \<Rightarrow> (taken \<times> 'd) option) \<Rightarrow> ('d \<Rightarrow> 'd)
    \<Rightarrow> 'd \<Rightarrow> fifo_op list \<Rightarrow> bytes list \<times> taken list \<times> 'd" where
  "fifo_run put get shut d [] = ([], [], d)"
| "fifo_run put get shut d (Put s p # ops) = (case put s d p of
       None \<Rightarrow> fifo_run put get shut d ops
     | Some d' \<Rightarrow> (case fifo_run put get shut d' ops of (ac, tk, e) \<Rightarrow> (p # ac, tk, e)))"
| "fifo_run put get shut d (Get s off buf # ops) = (case get s off buf d of
       None \<Rightarrow> fifo_run put get shut d ops
     | Some (o', d') \<Rightarrow> (case fifo_run put get shut d' ops of (ac, tk, e) \<Rightarrow> (ac, o' # tk, e)))"
| "fifo_run put get shut d (Shut # ops) = fifo_run put get shut (shut d) ops"

locale fifo =
  fixes put :: "bool \<Rightarrow> 'd \<Rightarrow> bytes \<Rightarrow> 'd option"
    and get :: "bool \<Rightarrow> nat \<Rightarrow> bytes \<Rightarrow> 'd \<Rightarrow> (taken \<times> 'd) option"
    and shut :: "'d \<Rightarrow> 'd"
    and queue :: "'d \<Rightarrow> bytes list"
    and bound :: "'d \<Rightarrow> nat"
  assumes put_queue: "put s d p = Some d' \<Longrightarrow> queue d' = queue d @ [p]"
    and put_bound: "put s d p = Some d' \<Longrightarrow> length (queue d) < bound d"
    and put_same: "put s d p = Some d' \<Longrightarrow> bound d' = bound d"
    and get_queue: "get s off buf d = Some (o', d') \<Longrightarrow> \<exists>p. queue d = p # queue d' \<and> explains o' p"
    and get_same: "get s off buf d = Some (o', d') \<Longrightarrow> bound d' = bound d"
    and shut_same: "queue (shut d) = queue d" "bound (shut d) = bound d"
begin

text \<open>What was taken out, then what is still queued, is what was queued, then what was accepted.\<close>

lemma run_order:
  "fifo_run put get shut d ops = (ac, tk, e) \<Longrightarrow> \<exists>ps. queue d @ ac = ps @ queue e \<and> list_all2 explains tk ps"
proof (induction ops arbitrary: d ac tk)
  case (Cons op ops)
  show ?case
  proof (cases op)
    case (Put s p)
    then show ?thesis using Cons by (fastforce split: option.splits prod.splits dest: put_queue)
  next
    case (Get s off buf)
    show ?thesis
    proof (cases "get s off buf d")
      case None
      then show ?thesis using Cons Get by simp
    next
      case (Some od)
      obtain o' d' tk' where r: "od = (o', d')" "fifo_run put get shut d' ops = (ac, tk', e)" "tk = o' # tk'"
        using Cons.prems Get Some by (auto split: prod.splits)
      obtain p where p: "queue d = p # queue d'" "explains o' p" using get_queue Some r(1) by blast
      obtain ps where "queue d' @ ac = ps @ queue e" "list_all2 explains tk' ps" using Cons.IH [OF r(2)] by blast
      then show ?thesis using p r(3) by (intro exI [of _ "p # ps"]) simp
    qed
  next
    case Shut
    then show ?thesis using Cons.IH [of "shut d"] Cons.prems by (simp add: shut_same)
  qed
qed simp

lemma run_bound:
  "fifo_run put get shut d ops = (ac, tk, e) \<Longrightarrow> length (queue d) \<le> bound d
     \<Longrightarrow> length (queue e) \<le> bound d \<and> bound e = bound d"
proof (induction ops arbitrary: d ac tk)
  case (Cons op ops)
  have step: "length (queue e) \<le> bound d \<and> bound e = bound d"
    if "fifo_run put get shut d' ops = (ac', tk', e)" "length (queue d') \<le> bound d'" "bound d' = bound d" for d' ac' tk'
    using Cons.IH [OF that(1,2)] that(3) by simp
  show ?case
  proof (cases op)
    case (Put s p)
    show ?thesis
    proof (cases "put s d p")
      case None
      then show ?thesis using Cons Put by simp
    next
      case (Some d')
      then obtain ac' where "fifo_run put get shut d' ops = (ac', tk, e)" using Cons.prems(1) Put by (auto split: prod.splits)
      then show ?thesis by (rule step) (use put_queue [OF Some] put_bound [OF Some] put_same [OF Some] in simp_all)
    qed
  next
    case (Get s off buf)
    show ?thesis
    proof (cases "get s off buf d")
      case None
      then show ?thesis using Cons Get by simp
    next
      case (Some od)
      obtain o' d' where od: "od = (o', d')" by force
      have "length (queue d') \<le> bound d'" "bound d' = bound d"
        using get_queue [of s off buf d o' d'] get_same [of s off buf d o' d'] Some od Cons.prems(2) by auto
      moreover obtain tk' where "fifo_run put get shut d' ops = (ac, tk', e)" using Cons.prems(1) Get Some od by (auto split: prod.splits)
      ultimately show ?thesis using step by blast
    qed
  next
    case Shut
    then show ?thesis using Cons.prems by (intro step [of "shut d"]) (auto simp: shut_same)
  qed
qed simp

end

text \<open>Host to profile: \<open>TryInject\<close> at one end, \<open>Read\<close> with one buffer at the other.\<close>

definition host_put :: "bool \<Rightarrow> Device \<Rightarrow> bytes \<Rightarrow> Device option" where
  "host_put sel d p = (case TryInject sel d p of (None, d') \<Rightarrow> Some d' | (Some _, _) \<Rightarrow> None)"

definition engine_get :: "bool \<Rightarrow> nat \<Rightarrow> bytes \<Rightarrow> Device \<Rightarrow> (taken \<times> Device) option" where
  "engine_get sel off buf d = (case Read sel d [buf] [0] off of
       Some (Inr _, bufs, sizes, d') \<Rightarrow> Some (Delivered (take (sizes ! 0) (drop off (bufs ! 0))), d')
     | Some (Inl ErrShortBuffer, _, _, d') \<Rightarrow> Some (TooLong off (length buf), d')
     | _ \<Rightarrow> None)"

text \<open>Profile to host: \<open>Write\<close> of one packet at one end, \<open>Receive\<close> at the other.\<close>

definition engine_put :: "bool \<Rightarrow> Device \<Rightarrow> bytes \<Rightarrow> Device option" where
  "engine_put sel d p = (case Write (\<lambda>_. sel) d [p] 0 of (Some (_, None), d') \<Rightarrow> Some d' | _ \<Rightarrow> None)"

definition host_get :: "bool \<Rightarrow> nat \<Rightarrow> bytes \<Rightarrow> Device \<Rightarrow> (taken \<times> Device) option" where
  "host_get sel off buf d = (case Receive sel d of Some (Inr p, d') \<Rightarrow> Some (Delivered p, d') | _ \<Rightarrow> None)"

lemma copy_at_read:
  "off + length p \<le> length buf \<Longrightarrow> take (length p) (drop off (copy_at buf off (length buf) p)) = p"
  by (simp add: copy_at_def Let_def)

lemma engine_get_Some:
  "engine_get sel off buf d = Some (o', d') \<Longrightarrow>
   \<exists>p. toEngine d = p # toEngine d' \<and> d' = d\<lparr>toEngine := tl (toEngine d)\<rparr> \<and> explains o' p
     \<and> (length buf < off + length p \<longleftrightarrow> o' = TooLong off (length buf))"
  by (cases "toEngine d")
    (auto simp: engine_get_def Read_def Let_def copy_at_read split: if_splits option.splits sum.splits)

text \<open>A read that changes the device has taken a packet out; no other outcome is hidden by \<open>engine_get\<close>.\<close>

lemma engine_get_None:
  "engine_get sel off buf d = None \<Longrightarrow> Read sel d [buf] [0] off = Some (r, bufs, sizes, d') \<Longrightarrow> d' = d"
  by (auto simp: engine_get_def Read_def Let_def split: if_splits)

interpretation outward: fifo host_put engine_get Device_Close toEngine depth
proof unfold_locales
  fix s off buf d o' d'
  assume g: "engine_get s off buf d = Some (o', d')"
  from engine_get_Some [OF g] show "\<exists>p. toEngine d = p # toEngine d' \<and> explains o' p" by blast
  from engine_get_Some [OF g] show "depth d' = depth d" by auto
qed (auto simp: host_put_def TryInject_def Device_Close_def split: if_splits)

interpretation inward: fifo engine_put host_get Device_Close fromEngine depth
  by unfold_locales
    (auto simp: engine_put_def Write_def send_def host_get_def Receive_def Device_Close_def
      split: if_splits option.splits prod.splits sum.splits)

lemma host_get_delivers: "fifo_run engine_put host_get Device_Close d ops = (ac, out, d') \<Longrightarrow> set out \<subseteq> range Delivered"
proof (induction ops arbitrary: d ac out)
  case (Cons op ops)
  show ?case
  proof (cases op)
    case (Get s off buf)
    show ?thesis
    proof (cases "host_get s off buf d")
      case (Some od)
      obtain q e where q: "od = (Delivered q, e)" using Some by (auto simp: host_get_def split: option.splits prod.splits sum.splits)
      then obtain tk where "fifo_run engine_put host_get Device_Close e ops = (ac, tk, d')" "out = Delivered q # tk"
        using Cons.prems Get Some by (auto split: prod.splits)
      then show ?thesis using Cons.IH by fastforce
    qed (use Cons Get in simp)
  qed (use Cons in \<open>auto split: option.splits prod.splits\<close>)
qed simp

section \<open>Reachable devices\<close>

text \<open>Every way the sources change a device; which end moves and what it chooses is arbitrary.\<close>

inductive dev_step :: "Device \<Rightarrow> Device \<Rightarrow> bool" where
  try_inject: "TryInject sel d p = (r, d') \<Longrightarrow> dev_step d d'"
| inject: "Inject sel d p = Some (r, d') \<Longrightarrow> dev_step d d'"
| receive: "Receive sel d = Some (r, d') \<Longrightarrow> dev_step d d'"
| read: "Read sel d bufs sizes off = Some (r, bufs', sizes', d') \<Longrightarrow> dev_step d d'"
| wr: "Write sels d bufs off = (r, d') \<Longrightarrow> dev_step d d'"
| close: "dev_step d (Device_Close d)"

inductive dev_reachable :: "Device \<Rightarrow> bool" where
  new: "dev_reachable (Device_New nm m qd)"
| step: "dev_reachable d \<Longrightarrow> dev_step d d' \<Longrightarrow> dev_reachable d'"

definition dev_inv :: "Device \<Rightarrow> bool" where
  "dev_inv d \<longleftrightarrow> 1 \<le> depth d \<and> length (toEngine d) \<le> depth d \<and> length (fromEngine d) \<le> depth d"

lemma send_inv [inv_intros]: "dev_inv d \<Longrightarrow> send sel d ch p = Some (r, d') \<Longrightarrow> dev_inv d'"
  by (cases ch) (auto simp: send_def dev_inv_def split: if_splits)

lemma Write_loop_inv [inv_intros]: "dev_inv d \<Longrightarrow> Write_loop sel d bufs off i = (r, d') \<Longrightarrow> dev_inv d'"
  by (induction sel d bufs off i rule: Write_loop.induct)
    (auto split: if_splits option.splits dest: send_inv)

lemma dev_step_inv: "dev_step d d' \<Longrightarrow> dev_inv d \<Longrightarrow> dev_inv d'"
proof (induction rule: dev_step.induct)
  case (try_inject sel d p r d')
  then show ?case by (auto simp: TryInject_def dev_inv_def split: if_splits)
next
  case (inject sel d p r d')
  then show ?case by (auto simp: Inject_def dest: send_inv)
next
  case (receive sel d r d')
  then show ?case by (auto simp: Receive_def dev_inv_def split: if_splits)
next
  case (read sel d bufs sizes off r bufs' sizes' d')
  then show ?case by (auto simp: Read_def dev_inv_def Let_def split: if_splits)
next
  case (wr sels d bufs off r d')
  then show ?case by (auto simp: Write_def dest: Write_loop_inv)
next
  case (close d)
  then show ?case by (simp add: Device_Close_def dev_inv_def)
qed

lemma dev_reachable_inv: "dev_reachable d \<Longrightarrow> dev_inv d"
proof (induction rule: dev_reachable.induct)
  case (new nm m qd)
  then show ?case by (auto simp: Device_New_def Let_def dev_inv_def)
next
  case (step d d')
  then show ?case by (blast intro: dev_step_inv)
qed

section \<open>Properties\<close>

text \<open>
  In every reachable state of a profile TUN, both channels hold at most as many packets as the
  configured queue depth, which is at least one.
\<close>

lemma dev_queues_bounded:
  assumes "dev_reachable d"
  shows "1 \<le> depth d \<and> length (toEngine d) \<le> depth d \<and> length (fromEngine d) \<le> depth d"
  using dev_reachable_inv [OF assms] by (simp add: dev_inv_def)

text \<open>
  C34: Packets cross a profile TUN in order, without duplication or alteration, and none is lost but one that
  does not fit the reader's buffer: for any interleaving of injections by the mux, reads by the
  profile (each with its own buffer and offset) and closing, the packets taken out followed by those still
  queued are the packets queued at the start followed by those accepted, and each packet taken out
  was delivered as it is or was longer than the room its reader offered, in which case the read removed it and
  failed. In the opposite direction every packet taken out is delivered.
\<close>

theorem dev_fifo:
  "(case fifo_run host_put engine_get Device_Close d ops of (accepted, out, d') \<Rightarrow>
      \<exists>ps. toEngine d @ accepted = ps @ toEngine d' \<and> list_all2 explains out ps)
   \<and> (case fifo_run engine_put host_get Device_Close d ops of (accepted, out, d') \<Rightarrow>
      \<exists>ps. fromEngine d @ accepted = ps @ fromEngine d' \<and> out = map Delivered ps)"
proof -
  have "out = map Delivered ps" if "set out \<subseteq> range Delivered" "list_all2 explains out ps" for out ps
    using that(2,1) by (induction rule: list_all2_induct) auto
  then show ?thesis using outward.run_order [of d ops] inward.run_order [of d ops] host_get_delivers [of d ops] by (fastforce split: prod.splits)
qed

text \<open>
  \<open>TryInject\<close> never blocks: it appends the packet when there is room on an open device, and
  otherwise reports a full queue or a closed device and leaves the device unchanged.
\<close>

lemma TryInject_outcome:
  "TryInject sel d p = (None, d\<lparr>toEngine := toEngine d @ [p]\<rparr>) \<and> length (toEngine d) < depth d
   \<or> TryInject sel d p = (Some ErrQueueFull, d) \<and> \<not> closed d \<and> depth d \<le> length (toEngine d)
   \<or> TryInject sel d p = (Some ErrClosed, d) \<and> closed d"
  by (auto simp: TryInject_def)

lemma Write_loop_accounts:
  assumes "Write_loop sel d bufs off i = (Some (n, err), d')"
  shows "i \<le> n \<and> n - i \<le> length bufs \<and> fromEngine d' = fromEngine d @ map (drop off) (take (n - i) bufs)
    \<and> (err = None \<longrightarrow> n - i = length bufs)
    \<and> (err \<noteq> None \<longrightarrow> n - i < length bufs \<and> (err = Some ErrClosed \<and> closed d
         \<or> err = Some ErrWriteOffset \<and> length (bufs ! (n - i)) < off))"
  using assms
proof (induction bufs arbitrary: d i)
  case Nil
  then show ?case by auto
next
  case (Cons b bufs)
  show ?case
  proof (cases "length b < off")
    case True
    with Cons.prems show ?thesis by auto
  next
    case False
    show ?thesis
    proof (cases "send (sel i) d FromEngine (drop off b)")
      case None
      with False Cons.prems show ?thesis by simp
    next
      case (Some rd)
      obtain r d1 where rd: "rd = (r, d1)" by (cases rd)
      show ?thesis
      proof (cases r)
        case None
        with Some rd False Cons.prems have run: "Write_loop sel d1 bufs off (Suc i) = (Some (n, err), d')"
          by simp
        have d1: "fromEngine d1 = fromEngine d @ [drop off b]" "closed d1 = closed d"
          using Some rd None by (auto simp: send_def split: if_splits)
        note IH = Cons.IH [OF run]
        then have "Suc i \<le> n" by blast
        then have "n - i = Suc (n - Suc i)" by simp
        with IH d1 show ?thesis by auto
      next
        case (Some e)
        then show ?thesis
          using \<open>send _ _ _ _ = Some rd\<close> rd False Cons.prems by (auto simp: send_def split: if_splits)
      qed
    qed
  qed
qed

text \<open>
  When \<open>Write\<close> returns, its count is exact: that many packets of the batch, in order and
  stripped of the offset, were appended for the mux. Without an error it is the whole batch; with
  an error the next packet was refused because the device is closed or the offset is too large.
\<close>

lemma Write_accounts:
  assumes "Write sel d bufs off = (Some (n, err), d')"
  shows "n \<le> length bufs \<and> fromEngine d' = fromEngine d @ map (drop off) (take n bufs)
    \<and> (err = None \<longrightarrow> n = length bufs)
    \<and> (err \<noteq> None \<longrightarrow> n < length bufs \<and> (err = Some ErrClosed \<and> closed d
         \<or> err = Some ErrWriteOffset \<and> length (bufs ! n) < off))"
  using Write_loop_accounts [of sel d bufs off 0 n err d'] assms by (simp add: Write_def)

text \<open>
  Closing wakes everybody: on a closed device no operation blocks, and once the channels are
  drained (or full, for a sender) each reports the closure.
\<close>

lemma closed_never_blocks:
  assumes "d' = Device_Close d"
  shows "Receive sel d' \<noteq> None \<and> Inject sel d' p \<noteq> None \<and> Read sel d' bufs sizes off \<noteq> None
    \<and> fst (Write sels d' bs woff) \<noteq> None
    \<and> (fromEngine d = [] \<longrightarrow> Receive sel d' = Some (Inl EOF, d'))
    \<and> (length (toEngine d) = depth d \<longrightarrow> Inject sel d' p = Some (Some ErrClosed, d'))"
proof -
  have "fst (Write_loop sels e bs woff i) \<noteq> None" if "closed e" for e i
    using that
  proof (induction bs arbitrary: e i)
    case (Cons b bs)
    then show ?case by (auto simp: send_def)
  qed simp
  then show ?thesis using assms
    by (auto simp: Device_Close_def Receive_def Inject_def send_def Read_def Write_def Let_def)
qed

end
