(* ===== verification/Mux.thy ===== *)
theory Mux
  imports Packet PacketTun Inventory
begin

text \<open>
  \<^verbatim>\<open>internal/mux/mux.go\<close>: the packet engine between the host TUN and the profile TUNs.

  \<^item> \<open>Engine\<close> is the state of the Go struct: bindings, flow and fragment tables, counters at 64 bits,
    the rate limiter of warnings, and the set of profile TUNs that already have a loop. The context
    is the flag \<open>started\<close>; the goroutines that were started are listed in \<open>loops\<close>.
  \<^item> \<open>Net\<close> adds what the engine shares with others: the store of profile TUN devices, addressed by
    the pointers (\<open>tun_id\<close>) the bindings hold, and the packets written to the host TUN.
  \<^item> \<open>hostStep\<close> and \<open>profileStep\<close> are one iteration of \<open>hostLoop\<close> and \<open>profileLoop\<close>. Their arguments
    are the packet that was read, the readings \<open>clk 0, clk 1, \<dots>\<close> of the clock in the order the code
    takes them, the choice \<open>sel\<close> of the \<^verbatim>\<open>select\<close> in \<open>TryInject\<close>, and whether the write to the host
    TUN succeeds. The result \<open>Panic\<close> is a run-time panic, which ends the process.

  The locale \<open>bounded_table\<close> is the contract of a bounded table with expiry; the flow table and the
  fragment table are its two interpretations. Log lines are not modelled; the counter of the lines
  that pass the rate limiter is.
\<close>

section \<open>Data\<close>

type_synonym tun_id = nat

record DatapathProfile =
  DP_ID :: string
  SelfIPv4 :: addr
  DP_Tun :: tun_id

record Binding =
  B_Target :: Target
  Effective :: addr
  Self :: addr
  B_Tun :: tun_id

record flowState =
  seen :: time
  proto_of :: byte

record fragmentState =
  fr_raw :: bool
  fr_binding :: Binding
  fr_seen :: time

record MuxStats =
  HostPackets :: u64
  ProfilePackets :: u64
  Drops :: u64
  FlowLimitDrops :: u64
  FragmentLimitDrops :: u64
  PurgedFlows :: u64
  PurgedFragments :: u64
  RateLimitedErrors :: u64
  Flows :: nat
  Fragments :: nat

record Engine =
  nat_addr :: addr
  byEffective :: "(addr, Binding) fmap"
  byInbound :: "(string, Binding) fmap"
  raw :: "(addr, Binding) fmap"
  selfByProfile :: "(string, addr) fmap"
  flows :: "(string, flowState) fmap"
  fragments :: "(string, fragmentState) fmap"
  hostPackets :: u64
  profilePackets :: u64
  drops :: u64
  flowLimitDrops :: u64
  fragmentLimitDrops :: u64
  purgedFlows :: u64
  purgedFragments :: u64
  rateLimitedErrors :: u64
  warnings :: "(string, time) fmap"
  profileSeen :: "(tun_id, bool) fmap"
  profiles :: "DatapathProfile list"
  started :: bool
  loops :: "(tun_id \<times> string) list"

definition zero_Target :: Target where
  "zero_Target = \<lparr>ProfileID = [], ProfileName = [], Order = 0, Kind = [], ID = [], FQDN = [],
     Online = False, CanonicalIP = NoAddr\<rparr>"

definition zero_Binding :: Binding where
  "zero_Binding = \<lparr>B_Target = zero_Target, Effective = NoAddr, Self = NoAddr, B_Tun = 0\<rparr>"

section \<open>Operations\<close>

subsection \<open>Bindings\<close>

definition inboundKey :: "string \<Rightarrow> addr \<Rightarrow> string" where
  "inboundKey pid a = pid @ ''/'' @ addr_String a"

text \<open>The body of the loop over the targets in \<open>New\<close>.\<close>

definition add_binding :: "(string, DatapathProfile) fmap \<Rightarrow> (string, addr) fmap \<Rightarrow> Engine \<Rightarrow> Target \<Rightarrow> Engine" where
  "add_binding self leases e t = (let ip = mapget NoAddr leases (target_Key t) in
     case fmlookup self (ProfileID t) of None \<Rightarrow> e
     | Some p \<Rightarrow> if \<not> IsValid ip then e
       else let b = \<lparr>B_Target = t, Effective = ip, Self = SelfIPv4 p, B_Tun = DP_Tun p\<rparr> in
         e\<lparr>byEffective := fmupd ip b (byEffective e),
           byInbound := fmupd (inboundKey (ProfileID t) (CanonicalIP t)) b (byInbound e),
           raw := (case fmlookup (raw e) (CanonicalIP t) of None \<Rightarrow> fmupd (CanonicalIP t) b (raw e) | Some _ \<Rightarrow> raw e)\<rparr>)"

definition Engine_New :: "addr \<Rightarrow> Target list \<Rightarrow> (string, addr) fmap \<Rightarrow> DatapathProfile list \<Rightarrow> Engine" where
  "Engine_New nata targets leases profs =
    (let self = foldl (\<lambda>m p. fmupd (DP_ID p) p m) fmempty profs;
         e = \<lparr>nat_addr = nata, byEffective = fmempty, byInbound = fmempty, raw = fmempty,
              selfByProfile = foldl (\<lambda>m p. fmupd (DP_ID p) (SelfIPv4 p) m) fmempty profs,
              flows = fmempty, fragments = fmempty, hostPackets = 0, profilePackets = 0, drops = 0,
              flowLimitDrops = 0, fragmentLimitDrops = 0, purgedFlows = 0, purgedFragments = 0,
              rateLimitedErrors = 0, warnings = fmempty, profileSeen = fmempty, profiles = profs,
              started = False, loops = []\<rparr>
     in foldl (add_binding self leases) e targets)"

definition purged :: "string fset \<Rightarrow> string \<Rightarrow> bool" where
  "purged removed key \<longleftrightarrow> fBex removed (\<lambda>id. HasPrefix key (id @ ''/''))"

definition purgeProfiles :: "string fset \<Rightarrow> Engine \<Rightarrow> Engine" where
  "purgeProfiles removed e = (if removed = {||} then e
     else let fl = map_delete_if (\<lambda>key _. purged removed key) (flows e);
              fr = map_delete_if (\<lambda>key _. purged removed key) (fragments e) in
       e\<lparr>flows := fl, fragments := fr,
         purgedFlows := purgedFlows e + word_of_nat (maplen (flows e) - maplen fl),
         purgedFragments := purgedFragments e + word_of_nat (maplen (fragments e) - maplen fr)\<rparr>)"

definition start_loop :: "Engine \<Rightarrow> DatapathProfile \<Rightarrow> Engine" where
  "start_loop e p = (if mapget False (profileSeen e) (DP_Tun p) then e
     else e\<lparr>profileSeen := fmupd (DP_Tun p) True (profileSeen e), loops := loops e @ [(DP_Tun p, DP_ID p)]\<rparr>)"

definition ensureProfileLoops :: "DatapathProfile list \<Rightarrow> Engine \<Rightarrow> Engine" where
  "ensureProfileLoops profs e = (if \<not> started e then e else foldl start_loop e profs)"

definition Engine_Run :: "Engine \<Rightarrow> Engine" where
  "Engine_Run e = ensureProfileLoops (profiles e) (e\<lparr>started := True\<rparr>)"

definition Update :: "Target list \<Rightarrow> (string, addr) fmap \<Rightarrow> DatapathProfile list \<Rightarrow> Engine \<Rightarrow> Engine" where
  "Update targets leases profs e =
    (let n = Engine_New (nat_addr e) targets leases profs;
         removed = fmdom (selfByProfile e) |-| fmdom (selfByProfile n);
         e = e\<lparr>byEffective := byEffective n, byInbound := byInbound n, raw := raw n,
               selfByProfile := selfByProfile n\<rparr>
     in ensureProfileLoops profs (purgeProfiles removed e))"

subsection \<open>Counters and warnings\<close>

text \<open>The two clock readings are \<^verbatim>\<open>time.Since\<close> and \<^verbatim>\<open>time.Now\<close>.\<close>

definition warnf :: "time \<Rightarrow> time \<Rightarrow> string \<Rightarrow> Engine \<Rightarrow> Engine" where
  "warnf t1 t2 key e = (if t1 - mapget 0 (warnings e) key < 30 * Second then e
     else e\<lparr>warnings := fmupd key t2 (warnings e), rateLimitedErrors := rateLimitedErrors e + 1\<rparr>)"

definition dropf :: "time \<Rightarrow> time \<Rightarrow> string \<Rightarrow> Engine \<Rightarrow> Engine" where
  "dropf t1 t2 key e = warnf t1 t2 key (e\<lparr>drops := drops e + 1\<rparr>)"

definition Stats :: "Engine \<Rightarrow> MuxStats" where
  "Stats e = \<lparr>HostPackets = hostPackets e, ProfilePackets = profilePackets e, Drops = drops e,
     FlowLimitDrops = flowLimitDrops e, FragmentLimitDrops = fragmentLimitDrops e,
     PurgedFlows = purgedFlows e, PurgedFragments = purgedFragments e,
     RateLimitedErrors = rateLimitedErrors e, Flows = maplen (flows e), Fragments = maplen (fragments e)\<rparr>"

subsection \<open>Flow and fragment tables\<close>

definition flow_expired :: "time \<Rightarrow> flowState \<Rightarrow> bool" where
  "flow_expired now t \<longleftrightarrow> flowTimeout (proto_of t) < now - seen t"

definition addFlow :: "time \<Rightarrow> string \<Rightarrow> byte \<Rightarrow> Engine \<Rightarrow> bool \<times> Engine" where
  "addFlow now k proto e = (if k = [] then (False, e)
     else let fl = map_delete_if (\<lambda>_. flow_expired now) (flows e) in
       if 65536 \<le> maplen fl then (False, e\<lparr>flows := fl, flowLimitDrops := flowLimitDrops e + 1\<rparr>)
       else (True, e\<lparr>flows := fmupd k \<lparr>seen = now, proto_of = proto\<rparr> fl\<rparr>))"

definition touchFlow :: "time \<Rightarrow> time \<Rightarrow> string \<Rightarrow> byte \<Rightarrow> Engine \<Rightarrow> bool \<times> Engine" where
  "touchFlow t1 t2 k proto e = (if k = [] then (False, e)
     else case fmlookup (flows e) k of
       None \<Rightarrow> (False, e\<lparr>flows := fmdrop k (flows e)\<rparr>)
     | Some t \<Rightarrow> if flow_expired t1 t then (False, e\<lparr>flows := fmdrop k (flows e)\<rparr>)
         else (True, e\<lparr>flows := fmupd k \<lparr>seen = t2, proto_of = proto\<rparr> (flows e)\<rparr>))"

definition fragment_expired :: "time \<Rightarrow> fragmentState \<Rightarrow> bool" where
  "fragment_expired now s \<longleftrightarrow> 30 * Second < now - fr_seen s"

definition putFragment :: "time \<Rightarrow> string \<Rightarrow> fragmentState \<Rightarrow> Engine \<Rightarrow> Engine" where
  "putFragment now k v e = (if k = [] then e
     else let fr = map_delete_if (\<lambda>_. fragment_expired now) (fragments e) in
       if 8192 \<le> maplen fr then e\<lparr>fragments := fr, fragmentLimitDrops := fragmentLimitDrops e + 1\<rparr>
       else e\<lparr>fragments := fmupd k (v\<lparr>fr_seen := now\<rparr>) fr\<rparr>)"

definition getFragment :: "time \<Rightarrow> time \<Rightarrow> string \<Rightarrow> Engine \<Rightarrow> fragmentState option \<times> Engine" where
  "getFragment t1 t2 k e = (case fmlookup (fragments e) k of
       None \<Rightarrow> (None, e\<lparr>fragments := fmdrop k (fragments e)\<rparr>)
     | Some v \<Rightarrow> if fragment_expired t1 v then (None, e\<lparr>fragments := fmdrop k (fragments e)\<rparr>)
         else (Some (v\<lparr>fr_seen := t2\<rparr>), e\<lparr>fragments := fmupd k (v\<lparr>fr_seen := t2\<rparr>) (fragments e)\<rparr>))"

subsection \<open>The packet loops\<close>

record Net =
  eng :: Engine
  tuns :: "tun_id \<Rightarrow> Device"
  host_out :: "bytes list"

datatype 's outcome = Blocked | Stopped 's | Panic | Continue 's

definition lookup_binding :: "Engine \<Rightarrow> addr \<Rightarrow> Binding option" where
  "lookup_binding e dst = (case fmlookup (byEffective e) dst of
       Some b \<Rightarrow> Some b | None \<Rightarrow> fmlookup (raw e) dst)"

definition host_drop :: "(nat \<Rightarrow> time) \<Rightarrow> string \<Rightarrow> Engine \<Rightarrow> Net \<Rightarrow> Net outcome" where
  "host_drop clk key e s = Continue (s\<lparr>eng := dropf (clk 1) (clk 2) key e\<rparr>)"

definition hostStep :: "(nat \<Rightarrow> time) \<Rightarrow> bool \<Rightarrow> bytes option \<Rightarrow> Net \<Rightarrow> Net outcome" where
  "hostStep clk sel rd s = (case rd of None \<Rightarrow> Stopped s
   | Some p \<Rightarrow>
     let e = (eng s)\<lparr>hostPackets := hostPackets (eng s) + 1\<rparr> in
     case ipv4 p of Inl _ \<Rightarrow> host_drop clk ''host-invalid'' e s
     | Inr (src, dst, proto) \<Rightarrow>
       if src \<noteq> nat_addr e then host_drop clk ''host-invalid'' e s
       else case lookup_binding e dst of None \<Rightarrow> host_drop clk ''host-unmatched'' e s
       | Some b \<Rightarrow>
         let israw = (dst \<noteq> Effective b); offset = fst (fragmentBits p);
             (ok, e) = (if israw \<and> offset = 0 then addFlow (clk 0) (flowKey (ProfileID (B_Target b)) p False) proto e
                        else (True, e)) in
         if \<not> ok then host_drop clk ''flow-capacity'' e s
         else case rewrite p (Self b) (CanonicalIP (B_Target b)) proto of
           Inl err \<Rightarrow> if err = IndexPanic then Panic else host_drop clk ''host-rewrite'' e s
         | Inr q \<Rightarrow> (case TryInject sel (tuns s (B_Tun b)) q of
             (None, d) \<Rightarrow> Continue (s\<lparr>eng := e, tuns := (tuns s)(B_Tun b := d)\<rparr>)
           | (Some _, d) \<Rightarrow> Continue (s\<lparr>eng := e\<lparr>drops := drops e + 1\<rparr>, tuns := (tuns s)(B_Tun b := d)\<rparr>)))"

definition host_write :: "bool \<Rightarrow> bytes \<Rightarrow> addr \<Rightarrow> byte \<Rightarrow> Net \<Rightarrow> Net outcome" where
  "host_write wr p src proto s = (case rewrite p src (nat_addr (eng s)) proto of
       Inl err \<Rightarrow> if err = IndexPanic then Panic else Continue s
     | Inr q \<Rightarrow> Continue (if wr then s\<lparr>host_out := host_out s @ [q]\<rparr> else s))"

definition profilePacket :: "(nat \<Rightarrow> time) \<Rightarrow> bool \<Rightarrow> string \<Rightarrow> bytes \<Rightarrow> Net \<Rightarrow> Net outcome" where
  "profilePacket clk wr pid p s =
    (let e = (eng s)\<lparr>profilePackets := profilePackets (eng s) + 1\<rparr> in
     case ipv4 p of Inl _ \<Rightarrow> Continue (s\<lparr>eng := e\<rparr>)
     | Inr (src, dst, proto) \<Rightarrow>
       if dst \<noteq> mapget NoAddr (selfByProfile e) pid then Continue (s\<lparr>eng := e\<rparr>)
       else let (offset, mf) = fragmentBits p in
       if 0 < offset then
         (case getFragment (clk 0) (clk 1) (fragmentKey pid p) e of
            (None, e) \<Rightarrow> Continue (s\<lparr>eng := e\<rparr>)
          | (Some fs, e) \<Rightarrow>
              host_write wr p (if fr_raw fs then src else Effective (fr_binding fs)) proto (s\<lparr>eng := e\<rparr>))
       else case touchFlow (clk 0) (clk 1) (flowKey pid p True) proto e of
         (True, e) \<Rightarrow>
           let e = (if mf then putFragment (clk 3) (fragmentKey pid p)
                      \<lparr>fr_raw = True, fr_binding = zero_Binding, fr_seen = clk 2\<rparr> e else e)
           in host_write wr p src proto (s\<lparr>eng := e\<rparr>)
       | (False, e) \<Rightarrow> (case fmlookup (byInbound e) (inboundKey pid src) of
           None \<Rightarrow> Continue (s\<lparr>eng := e\<rparr>)
         | Some b \<Rightarrow>
             let e = (if mf then putFragment (clk 3) (fragmentKey pid p)
                        \<lparr>fr_raw = False, fr_binding = b, fr_seen = clk 2\<rparr> e else e)
             in host_write wr p (Effective b) proto (s\<lparr>eng := e\<rparr>)))"

definition profileStep :: "(nat \<Rightarrow> time) \<Rightarrow> bool \<Rightarrow> bool \<Rightarrow> tun_id \<Rightarrow> string \<Rightarrow> Net \<Rightarrow> Net outcome" where
  "profileStep clk sel wr t pid s = (case Receive sel (tuns s t) of
       None \<Rightarrow> Blocked
     | Some (Inl _, d) \<Rightarrow> Stopped (s\<lparr>tuns := (tuns s)(t := d)\<rparr>)
     | Some (Inr p, d) \<Rightarrow> profilePacket clk wr pid p (s\<lparr>tuns := (tuns s)(t := d)\<rparr>))"

section \<open>The contract of a bounded table with expiry\<close>

text \<open>
  \<open>put\<close> first drops the expired entries, then refuses a new entry when the table is full;
  \<open>get\<close> answers from a live entry, which it refreshes, and drops an expired one.
\<close>

locale bounded_table =
  fixes table :: "'s \<Rightarrow> (string, 'v) fmap"
    and put :: "time \<Rightarrow> string \<Rightarrow> 'a \<Rightarrow> 's \<Rightarrow> 's"
    and get :: "time \<Rightarrow> time \<Rightarrow> string \<Rightarrow> 'a \<Rightarrow> 's \<Rightarrow> bool \<times> 's"
    and expired :: "time \<Rightarrow> 'v \<Rightarrow> bool"
    and entry :: "time \<Rightarrow> 'a \<Rightarrow> 'v"
    and lifetime :: "'a \<Rightarrow> duration"
    and cap :: nat
  assumes put_table: "k \<noteq> [] \<Longrightarrow> table (put now k a s) =
      (let live = map_delete_if (\<lambda>_. expired now) (table s) in
       if cap \<le> maplen live then live else fmupd k (entry now a) live)"
    and put_empty: "table (put now [] a s) = table s"
    and get_hit: "k \<noteq> [] \<Longrightarrow> fst (get t1 t2 k a s) \<longleftrightarrow> (\<exists>v. fmlookup (table s) k = Some v \<and> \<not> expired t1 v)"
    and get_table: "maplen (table (snd (get t1 t2 k a s))) \<le> maplen (table s)"
    and entry_expired: "expired now (entry t a) \<longleftrightarrow> lifetime a < now - t"
begin

lemma put_bounded: "maplen (table s) \<le> cap \<Longrightarrow> maplen (table (put now k a s)) \<le> cap"
proof (cases "k = []")
  case False
  let ?live = "map_delete_if (\<lambda>_. expired now) (table s)"
  assume "maplen (table s) \<le> cap"
  then have "maplen ?live \<le> cap" using maplen_delete_if_le order_trans by blast
  moreover have "maplen (fmupd k (entry now a) ?live) \<le> Suc (maplen ?live)" by (rule maplen_upd_le)
  ultimately show ?thesis using False by (simp add: put_table Let_def)
qed (simp add: put_empty)

lemma get_bounded: "maplen (table s) \<le> cap \<Longrightarrow> maplen (table (snd (get t1 t2 k a s))) \<le> cap"
  using get_table order_trans by blast

text \<open>An accepted entry is found until its lifetime is over, and not found afterwards.\<close>

lemma put_get:
  assumes "k \<noteq> []" "maplen (map_delete_if (\<lambda>_. expired now) (table s)) < cap"
  shows "fst (get t1 t2 k a' (put now k a s)) \<longleftrightarrow> t1 - now \<le> lifetime a"
  using assms by (simp add: get_hit put_table Let_def entry_expired not_less)

lemma put_keeps_live:
  assumes "k \<noteq> []" "k' \<noteq> k" "fmlookup (table s) k' = Some v" "\<not> expired now v"
  shows "fmlookup (table (put now k a s)) k' = Some v"
  using assms by (simp add: put_table Let_def)

lemma get_expired: "k \<noteq> [] \<Longrightarrow> fmlookup (table s) k = Some v \<Longrightarrow> expired t1 v \<Longrightarrow> \<not> fst (get t1 t2 k a s)"
  by (simp add: get_hit)

lemma put_full:
  assumes "k \<noteq> []" "cap \<le> maplen (map_delete_if (\<lambda>_. expired now) (table s))"
  shows "table (put now k a s) = map_delete_if (\<lambda>_. expired now) (table s)"
  using assms by (simp add: put_table Let_def)

end

definition frag_get :: "time \<Rightarrow> time \<Rightarrow> string \<Rightarrow> fragmentState \<Rightarrow> Engine \<Rightarrow> bool \<times> Engine" where
  "frag_get t1 t2 k a e = (case getFragment t1 t2 k e of (r, e') \<Rightarrow> (r \<noteq> None, e'))"

interpretation flow_table: bounded_table flows "\<lambda>now k proto e. snd (addFlow now k proto e)" touchFlow flow_expired
  "\<lambda>now proto. \<lparr>seen = now, proto_of = proto\<rparr>" flowTimeout 65536
proof (unfold_locales, goal_cases)
  case (4 t1 t2 k a s)
  then show ?case
    by (auto simp: touchFlow_def maplen_upd maplen_drop_le intro: fmdomI split: option.splits)
qed (auto simp: addFlow_def touchFlow_def flow_expired_def Let_def split: option.splits)

interpretation fragment_table: bounded_table fragments putFragment frag_get fragment_expired
  "\<lambda>now v. v\<lparr>fr_seen := now\<rparr>" "\<lambda>_. 30 * Second" 8192
proof (unfold_locales, goal_cases)
  case (4 t1 t2 k a s)
  then show ?case
    by (auto simp: frag_get_def getFragment_def maplen_upd maplen_drop_le intro: fmdomI split: option.splits)
qed (auto simp: putFragment_def frag_get_def getFragment_def fragment_expired_def Let_def split: option.splits)

section \<open>What each operation leaves alone\<close>

lemma addFlow_frame [simp]:
  "nat_addr (snd (addFlow now k pr e)) = nat_addr e"
  "byEffective (snd (addFlow now k pr e)) = byEffective e"
  "byInbound (snd (addFlow now k pr e)) = byInbound e"
  "raw (snd (addFlow now k pr e)) = raw e"
  "selfByProfile (snd (addFlow now k pr e)) = selfByProfile e"
  "profileSeen (snd (addFlow now k pr e)) = profileSeen e"
  "profiles (snd (addFlow now k pr e)) = profiles e"
  "started (snd (addFlow now k pr e)) = started e"
  "loops (snd (addFlow now k pr e)) = loops e"
  "hostPackets (snd (addFlow now k pr e)) = hostPackets e"
  "profilePackets (snd (addFlow now k pr e)) = profilePackets e"
  "drops (snd (addFlow now k pr e)) = drops e"
  "fragments (snd (addFlow now k pr e)) = fragments e"
  by (simp_all add: addFlow_def Let_def)

lemma touchFlow_frame [simp]:
  "nat_addr (snd (touchFlow t1 t2 k pr e)) = nat_addr e"
  "byEffective (snd (touchFlow t1 t2 k pr e)) = byEffective e"
  "byInbound (snd (touchFlow t1 t2 k pr e)) = byInbound e"
  "raw (snd (touchFlow t1 t2 k pr e)) = raw e"
  "selfByProfile (snd (touchFlow t1 t2 k pr e)) = selfByProfile e"
  "profileSeen (snd (touchFlow t1 t2 k pr e)) = profileSeen e"
  "profiles (snd (touchFlow t1 t2 k pr e)) = profiles e"
  "started (snd (touchFlow t1 t2 k pr e)) = started e"
  "loops (snd (touchFlow t1 t2 k pr e)) = loops e"
  "hostPackets (snd (touchFlow t1 t2 k pr e)) = hostPackets e"
  "profilePackets (snd (touchFlow t1 t2 k pr e)) = profilePackets e"
  "drops (snd (touchFlow t1 t2 k pr e)) = drops e"
  "fragments (snd (touchFlow t1 t2 k pr e)) = fragments e"
  by (simp_all add: touchFlow_def split: option.split)

lemma putFragment_frame [simp]:
  "nat_addr (putFragment now k v e) = nat_addr e"
  "byEffective (putFragment now k v e) = byEffective e"
  "byInbound (putFragment now k v e) = byInbound e"
  "raw (putFragment now k v e) = raw e"
  "selfByProfile (putFragment now k v e) = selfByProfile e"
  "profileSeen (putFragment now k v e) = profileSeen e"
  "profiles (putFragment now k v e) = profiles e"
  "started (putFragment now k v e) = started e"
  "loops (putFragment now k v e) = loops e"
  "hostPackets (putFragment now k v e) = hostPackets e"
  "profilePackets (putFragment now k v e) = profilePackets e"
  "drops (putFragment now k v e) = drops e"
  "flows (putFragment now k v e) = flows e"
  by (simp_all add: putFragment_def Let_def)

lemma getFragment_frame [simp]:
  "nat_addr (snd (getFragment t1 t2 k e)) = nat_addr e"
  "byEffective (snd (getFragment t1 t2 k e)) = byEffective e"
  "byInbound (snd (getFragment t1 t2 k e)) = byInbound e"
  "raw (snd (getFragment t1 t2 k e)) = raw e"
  "selfByProfile (snd (getFragment t1 t2 k e)) = selfByProfile e"
  "profileSeen (snd (getFragment t1 t2 k e)) = profileSeen e"
  "profiles (snd (getFragment t1 t2 k e)) = profiles e"
  "started (snd (getFragment t1 t2 k e)) = started e"
  "loops (snd (getFragment t1 t2 k e)) = loops e"
  "hostPackets (snd (getFragment t1 t2 k e)) = hostPackets e"
  "profilePackets (snd (getFragment t1 t2 k e)) = profilePackets e"
  "drops (snd (getFragment t1 t2 k e)) = drops e"
  "flows (snd (getFragment t1 t2 k e)) = flows e"
  by (simp_all add: getFragment_def split: option.split)

lemma dropf_frame [simp]:
  "nat_addr (dropf t1 t2 k e) = nat_addr e"
  "byEffective (dropf t1 t2 k e) = byEffective e"
  "byInbound (dropf t1 t2 k e) = byInbound e"
  "raw (dropf t1 t2 k e) = raw e"
  "selfByProfile (dropf t1 t2 k e) = selfByProfile e"
  "profileSeen (dropf t1 t2 k e) = profileSeen e"
  "profiles (dropf t1 t2 k e) = profiles e"
  "started (dropf t1 t2 k e) = started e"
  "loops (dropf t1 t2 k e) = loops e"
  "hostPackets (dropf t1 t2 k e) = hostPackets e"
  "profilePackets (dropf t1 t2 k e) = profilePackets e"
  "flows (dropf t1 t2 k e) = flows e"
  "fragments (dropf t1 t2 k e) = fragments e"
  "drops (dropf t1 t2 k e) = drops e + 1"
  by (simp_all add: dropf_def warnf_def)

lemma ensureProfileLoops_frame [simp]:
  "nat_addr (ensureProfileLoops ps e) = nat_addr e"
  "byEffective (ensureProfileLoops ps e) = byEffective e"
  "byInbound (ensureProfileLoops ps e) = byInbound e"
  "raw (ensureProfileLoops ps e) = raw e"
  "selfByProfile (ensureProfileLoops ps e) = selfByProfile e"
  "hostPackets (ensureProfileLoops ps e) = hostPackets e"
  "profilePackets (ensureProfileLoops ps e) = profilePackets e"
  "drops (ensureProfileLoops ps e) = drops e"
  "flows (ensureProfileLoops ps e) = flows e"
  "fragments (ensureProfileLoops ps e) = fragments e"
  "purgedFlows (ensureProfileLoops ps e) = purgedFlows e"
  "purgedFragments (ensureProfileLoops ps e) = purgedFragments e"
  "profiles (ensureProfileLoops ps e) = profiles e"
  "started (ensureProfileLoops ps e) = started e"
proof -
  have "nat_addr (foldl start_loop e ps) = nat_addr e \<and> byEffective (foldl start_loop e ps) = byEffective e
    \<and> byInbound (foldl start_loop e ps) = byInbound e \<and> raw (foldl start_loop e ps) = raw e
    \<and> selfByProfile (foldl start_loop e ps) = selfByProfile e \<and> hostPackets (foldl start_loop e ps) = hostPackets e
    \<and> profilePackets (foldl start_loop e ps) = profilePackets e \<and> drops (foldl start_loop e ps) = drops e
    \<and> flows (foldl start_loop e ps) = flows e \<and> fragments (foldl start_loop e ps) = fragments e
    \<and> purgedFlows (foldl start_loop e ps) = purgedFlows e \<and> purgedFragments (foldl start_loop e ps) = purgedFragments e
    \<and> profiles (foldl start_loop e ps) = profiles e \<and> started (foldl start_loop e ps) = started e"
    by (induction ps arbitrary: e) (simp_all add: start_loop_def)
  then show "nat_addr (ensureProfileLoops ps e) = nat_addr e"
    "byEffective (ensureProfileLoops ps e) = byEffective e"
    "byInbound (ensureProfileLoops ps e) = byInbound e"
    "raw (ensureProfileLoops ps e) = raw e"
    "selfByProfile (ensureProfileLoops ps e) = selfByProfile e"
    "hostPackets (ensureProfileLoops ps e) = hostPackets e"
    "profilePackets (ensureProfileLoops ps e) = profilePackets e"
    "drops (ensureProfileLoops ps e) = drops e"
    "flows (ensureProfileLoops ps e) = flows e"
    "fragments (ensureProfileLoops ps e) = fragments e"
    "purgedFlows (ensureProfileLoops ps e) = purgedFlows e"
    "purgedFragments (ensureProfileLoops ps e) = purgedFragments e"
    "profiles (ensureProfileLoops ps e) = profiles e"
    "started (ensureProfileLoops ps e) = started e"
    by (simp_all add: ensureProfileLoops_def)
qed

lemma purgeProfiles_frame [simp]:
  "nat_addr (purgeProfiles rm e) = nat_addr e"
  "byEffective (purgeProfiles rm e) = byEffective e"
  "byInbound (purgeProfiles rm e) = byInbound e"
  "raw (purgeProfiles rm e) = raw e"
  "selfByProfile (purgeProfiles rm e) = selfByProfile e"
  "profileSeen (purgeProfiles rm e) = profileSeen e"
  "profiles (purgeProfiles rm e) = profiles e"
  "started (purgeProfiles rm e) = started e"
  "loops (purgeProfiles rm e) = loops e"
  "hostPackets (purgeProfiles rm e) = hostPackets e"
  "profilePackets (purgeProfiles rm e) = profilePackets e"
  "drops (purgeProfiles rm e) = drops e"
  by (simp_all add: purgeProfiles_def Let_def)

section \<open>The engine invariant\<close>

text \<open>The tables are within their bounds and every TUN has at most one loop.\<close>

definition engine_inv :: "Engine \<Rightarrow> bool" where
  "engine_inv e \<longleftrightarrow> maplen (flows e) \<le> 65536 \<and> maplen (fragments e) \<le> 8192
     \<and> distinct (map fst (loops e)) \<and> (\<forall>t \<in> fst ` set (loops e). mapget False (profileSeen e) t)"

lemma engine_inv_cong:
  "flows e' = flows e \<Longrightarrow> fragments e' = fragments e \<Longrightarrow> loops e' = loops e \<Longrightarrow> profileSeen e' = profileSeen e
    \<Longrightarrow> engine_inv e' \<longleftrightarrow> engine_inv e"
  by (simp add: engine_inv_def)

lemma addFlow_inv [inv_intros]: "engine_inv e \<Longrightarrow> engine_inv (snd (addFlow now k pr e))"
  using flow_table.put_bounded [of e now k pr] by (simp add: engine_inv_def)

lemma touchFlow_inv [inv_intros]: "engine_inv e \<Longrightarrow> engine_inv (snd (touchFlow t1 t2 k pr e))"
  using flow_table.get_bounded [of e t1 t2 k pr] by (simp add: engine_inv_def)

lemma putFragment_inv [inv_intros]: "engine_inv e \<Longrightarrow> engine_inv (putFragment now k v e)"
  using fragment_table.put_bounded [of e now k v] by (simp add: engine_inv_def)

lemma getFragment_inv [inv_intros]: "engine_inv e \<Longrightarrow> engine_inv (snd (getFragment t1 t2 k e))"
  using fragment_table.get_bounded [of e t1 t2 k] by (auto simp: engine_inv_def frag_get_def split: prod.splits)

lemma dropf_inv [inv_intros]: "engine_inv e \<Longrightarrow> engine_inv (dropf t1 t2 k e)"
  by (simp add: engine_inv_cong [of "dropf t1 t2 k e" e])

lemma counters_inv [simp]:
  "engine_inv (e\<lparr>hostPackets := a\<rparr>) \<longleftrightarrow> engine_inv e" "engine_inv (e\<lparr>profilePackets := a\<rparr>) \<longleftrightarrow> engine_inv e"
  "engine_inv (e\<lparr>drops := a\<rparr>) \<longleftrightarrow> engine_inv e" "engine_inv (e\<lparr>started := b\<rparr>) \<longleftrightarrow> engine_inv e"
  by (simp_all add: engine_inv_def)

lemma start_loop_inv: "engine_inv e \<Longrightarrow> engine_inv (start_loop e p)"
  by (auto simp: engine_inv_def start_loop_def)

lemma ensureProfileLoops_inv [inv_intros]: "engine_inv e \<Longrightarrow> engine_inv (ensureProfileLoops ps e)"
proof -
  have "engine_inv e \<Longrightarrow> engine_inv (foldl start_loop e ps)" by (induction ps arbitrary: e) (simp_all add: start_loop_inv)
  then show "engine_inv e \<Longrightarrow> engine_inv (ensureProfileLoops ps e)" by (simp add: ensureProfileLoops_def)
qed

lemma purgeProfiles_inv [inv_intros]: "engine_inv e \<Longrightarrow> engine_inv (purgeProfiles rm e)"
  using maplen_delete_if_le [of "\<lambda>key _. purged rm key" "flows e"] maplen_delete_if_le [of "\<lambda>key _. purged rm key" "fragments e"]
  by (simp add: engine_inv_def purgeProfiles_def Let_def)

lemma Update_inv [inv_intros]: "engine_inv e \<Longrightarrow> engine_inv (Update ts ls ps e)"
  unfolding Update_def Let_def
  by (intro ensureProfileLoops_inv purgeProfiles_inv) (simp add: engine_inv_def)

lemma Engine_Run_inv [inv_intros]: "engine_inv e \<Longrightarrow> engine_inv (Engine_Run e)"
  unfolding Engine_Run_def by (intro ensureProfileLoops_inv) simp

lemma add_binding_frame:
  "flows (foldl (add_binding sf ls) e ts) = flows e \<and> fragments (foldl (add_binding sf ls) e ts) = fragments e
    \<and> loops (foldl (add_binding sf ls) e ts) = loops e \<and> profileSeen (foldl (add_binding sf ls) e ts) = profileSeen e
    \<and> selfByProfile (foldl (add_binding sf ls) e ts) = selfByProfile e \<and> nat_addr (foldl (add_binding sf ls) e ts) = nat_addr e"
  by (induction ts arbitrary: e) (simp_all add: add_binding_def Let_def split: option.split)

lemma Engine_New_frame [simp]:
  "nat_addr (Engine_New n ts ls ps) = n" "flows (Engine_New n ts ls ps) = fmempty" "fragments (Engine_New n ts ls ps) = fmempty"
  "loops (Engine_New n ts ls ps) = []"
  "selfByProfile (Engine_New n ts ls ps) = foldl (\<lambda>m p. fmupd (DP_ID p) (SelfIPv4 p) m) fmempty ps"
  by (simp_all add: Engine_New_def Let_def add_binding_frame)

lemma Engine_New_inv [inv_intros]: "engine_inv (Engine_New n ts ls ps)"
  by (simp add: engine_inv_def)

section \<open>One host packet\<close>

abbreviation host_counted :: "Net \<Rightarrow> Engine" where
  "host_counted s \<equiv> (eng s)\<lparr>hostPackets := hostPackets (eng s) + 1\<rparr>"

abbreviation admitted :: "(nat \<Rightarrow> time) \<Rightarrow> bytes \<Rightarrow> addr \<Rightarrow> byte \<Rightarrow> Binding \<Rightarrow> Engine \<Rightarrow> bool \<times> Engine" where
  "admitted clk p dst proto b e \<equiv>
     (if dst \<noteq> Effective b \<and> fst (fragmentBits p) = 0
      then addFlow (clk 0) (flowKey (ProfileID (B_Target b)) p False) proto e else (True, e))"

lemma lookup_binding_counted [simp]: "lookup_binding (e\<lparr>hostPackets := x\<rparr>) dst = lookup_binding e dst"
  by (simp add: lookup_binding_def split: option.split)

lemma TryInject_cases:
  "TryInject sel d q = (None, d\<lparr>toEngine := toEngine d @ [q]\<rparr>) \<and> length (toEngine d) < depth d
   \<or> (\<exists>err. TryInject sel d q = (Some err, d))"
  by (auto simp: TryInject_def)

lemma hostStep_cases:
  assumes "hostStep clk sel (Some p) s = Continue s'"
  obtains (dropped) e key where "s' = s\<lparr>eng := dropf (clk 1) (clk 2) key e\<rparr>"
      "e = host_counted s \<or> (\<exists>now k pr. e = snd (addFlow now k pr (host_counted s)))"
  | (refused) e where "s' = s\<lparr>eng := e\<lparr>drops := drops e + 1\<rparr>\<rparr>"
      "e = host_counted s \<or> (\<exists>now k pr. e = snd (addFlow now k pr (host_counted s)))"
  | (forwarded) b dst proto q e where "ipv4 p = Inr (nat_addr (eng s), dst, proto)"
      "lookup_binding (eng s) dst = Some b" "rewrite p (Self b) (CanonicalIP (B_Target b)) proto = Inr q"
      "admitted clk p dst proto b (host_counted s) = (True, e)"
      "length (toEngine (tuns s (B_Tun b))) < depth (tuns s (B_Tun b))"
      "s' = s\<lparr>eng := e, tuns := (tuns s)(B_Tun b := (tuns s (B_Tun b))\<lparr>toEngine := toEngine (tuns s (B_Tun b)) @ [q]\<rparr>)\<rparr>"
proof -
  note d = assms [unfolded hostStep_def Let_def, simplified]
  show ?thesis
  proof (cases "\<exists>dst proto b. ipv4 p = Inr (nat_addr (eng s), dst, proto) \<and> lookup_binding (eng s) dst = Some b")
    case False
    then have "\<exists>key. s' = s\<lparr>eng := dropf (clk 1) (clk 2) key (host_counted s)\<rparr>"
      using d by (auto simp: host_drop_def split: sum.splits if_splits option.splits)
    then show ?thesis using dropped by blast
  next
    case True
    then obtain dst proto b where p: "ipv4 p = Inr (nat_addr (eng s), dst, proto)" and b: "lookup_binding (eng s) dst = Some b"
      by blast
    obtain ok e where ok: "admitted clk p dst proto b (host_counted s) = (ok, e)" by fastforce
    then have e: "e = host_counted s \<or> (\<exists>now k pr. e = snd (addFlow now k pr (host_counted s)))"
      by (metis prod.inject snd_conv)
    show ?thesis
    proof (cases "ok \<and> (\<exists>q. rewrite p (Self b) (CanonicalIP (B_Target b)) proto = Inr q)")
      case False
      then have "\<exists>key. s' = s\<lparr>eng := dropf (clk 1) (clk 2) key e\<rparr>"
        using d by (auto simp: p b ok host_drop_def split: sum.splits if_splits)
      then show ?thesis using dropped e by blast
    next
      case True
      then obtain q where q: "rewrite p (Self b) (CanonicalIP (B_Target b)) proto = Inr q" and "ok" by blast
      with ok have ok': "admitted clk p dst proto b (host_counted s) = (True, e)" by simp
      show ?thesis
        using TryInject_cases [of sel "tuns s (B_Tun b)" q]
      proof
        assume "TryInject sel (tuns s (B_Tun b)) q = (None, (tuns s (B_Tun b))\<lparr>toEngine := toEngine (tuns s (B_Tun b)) @ [q]\<rparr>)
          \<and> length (toEngine (tuns s (B_Tun b))) < depth (tuns s (B_Tun b))"
        then show ?thesis using d by (intro forwarded [OF p b q ok']) (simp_all add: p b ok' q)
      next
        assume "\<exists>err. TryInject sel (tuns s (B_Tun b)) q = (Some err, tuns s (B_Tun b))"
        then show ?thesis using d by (intro refused [OF _ e]) (auto simp: p b ok' q)
      qed
    qed
  qed
qed

lemma admitted_frame:
  assumes "admitted clk p dst proto b (host_counted s) = (ok, e)"
  shows "hostPackets e = hostPackets (eng s) + 1" "drops e = drops (eng s)" "byEffective e = byEffective (eng s)"
    "byInbound e = byInbound (eng s)" "raw e = raw (eng s)" "selfByProfile e = selfByProfile (eng s)"
    "nat_addr e = nat_addr (eng s)" "fragments e = fragments (eng s)"
proof -
  have "e = host_counted s \<or> (\<exists>now k pr. e = snd (addFlow now k pr (host_counted s)))"
    using assms by (metis prod.inject snd_conv)
  then show "hostPackets e = hostPackets (eng s) + 1" "drops e = drops (eng s)" "byEffective e = byEffective (eng s)"
    "byInbound e = byInbound (eng s)" "raw e = raw (eng s)" "selfByProfile e = selfByProfile (eng s)"
    "nat_addr e = nat_addr (eng s)" "fragments e = fragments (eng s)"
    by auto
qed

text \<open>
  C2: every host packet is either counted as a drop, with no TUN touched, or appended to the queue
  of exactly one profile TUN: the one of the binding its destination selects (effective address
  first, canonical address second), translated to that binding's own source and canonical
  destination. Its source is the engine's NAT address, the packet counter grows by one, and nothing
  goes back to the host.
\<close>

theorem hostStep_accounts:
  assumes "hostStep clk sel (Some p) s = Continue s'"
  shows "hostPackets (eng s') = hostPackets (eng s) + 1 \<and> host_out s' = host_out s \<and>
    (tuns s' = tuns s \<and> drops (eng s') = drops (eng s) + 1 \<or>
     drops (eng s') = drops (eng s) \<and>
     (\<exists>b dst proto q. ipv4 p = Inr (nat_addr (eng s), dst, proto) \<and> lookup_binding (eng s) dst = Some b
        \<and> rewrite p (Self b) (CanonicalIP (B_Target b)) proto = Inr q
        \<and> tuns s' = (tuns s)(B_Tun b := (tuns s (B_Tun b))\<lparr>toEngine := toEngine (tuns s (B_Tun b)) @ [q]\<rparr>)))"
  using assms
proof (cases rule: hostStep_cases)
  case (forwarded b dst proto q e)
  then show ?thesis using admitted_frame [where clk = clk and p = p and dst = dst and proto = proto and b = b and s = s and ok = True and e = e] by fastforce
qed auto

text \<open>
  C28: the host direction fails closed: a packet that is not IPv4, does not come from the NAT address,
  or has a destination without a binding is dropped and counted, and changes no table and no TUN.
\<close>

theorem hostStep_fails_closed:
  assumes "\<nexists>dst proto b. ipv4 p = Inr (nat_addr (eng s), dst, proto) \<and> lookup_binding (eng s) dst = Some b"
  shows "\<exists>s'. hostStep clk sel (Some p) s = Continue s' \<and> tuns s' = tuns s \<and> host_out s' = host_out s
     \<and> drops (eng s') = drops (eng s) + 1 \<and> flows (eng s') = flows (eng s) \<and> fragments (eng s') = fragments (eng s)"
  using assms by (auto simp: hostStep_def Let_def host_drop_def split: sum.split option.split)

section \<open>The bindings of New\<close>

text \<open>The bindings, in target order, that the loop of \<open>New\<close> creates.\<close>

definition bind :: "DatapathProfile list \<Rightarrow> (string, addr) fmap \<Rightarrow> Target \<Rightarrow> Binding option" where
  "bind profs leases t = (case find (\<lambda>p. DP_ID p = ProfileID t) (rev profs) of None \<Rightarrow> None
     | Some p \<Rightarrow> let ip = mapget NoAddr leases (target_Key t) in
         if IsValid ip then Some \<lparr>B_Target = t, Effective = ip, Self = SelfIPv4 p, B_Tun = DP_Tun p\<rparr> else None)"

definition bindings :: "DatapathProfile list \<Rightarrow> (string, addr) fmap \<Rightarrow> Target list \<Rightarrow> Binding list" where
  "bindings profs leases ts = List.map_filter (bind profs leases) ts"

abbreviation canonical :: "Binding \<Rightarrow> addr" where "canonical b \<equiv> CanonicalIP (B_Target b)"
abbreviation profile_id :: "Binding \<Rightarrow> string" where "profile_id b \<equiv> ProfileID (B_Target b)"

lemma foldl_upd_lookup:
  "fmlookup (foldl (\<lambda>m p. fmupd (f p) (g p) m) m xs) k
     = (case find (\<lambda>p. f p = k) (rev xs) of None \<Rightarrow> fmlookup m k | Some p \<Rightarrow> Some (g p))"
  by (induction xs arbitrary: m) (auto simp: find_append split: option.splits)

lemma add_bindings:
  fixes profs :: "DatapathProfile list"
  defines "self \<equiv> foldl (\<lambda>m p. fmupd (DP_ID p) p m) fmempty profs"
  shows "fmlookup (byEffective (foldl (add_binding self leases) e ts)) a
      = (case find (\<lambda>b. Effective b = a) (rev (bindings profs leases ts)) of None \<Rightarrow> fmlookup (byEffective e) a | Some b \<Rightarrow> Some b)
    \<and> fmlookup (byInbound (foldl (add_binding self leases) e ts)) k
      = (case find (\<lambda>b. inboundKey (profile_id b) (canonical b) = k) (rev (bindings profs leases ts)) of
           None \<Rightarrow> fmlookup (byInbound e) k | Some b \<Rightarrow> Some b)
    \<and> fmlookup (raw (foldl (add_binding self leases) e ts)) a
      = (case fmlookup (raw e) a of Some b \<Rightarrow> Some b | None \<Rightarrow> find (\<lambda>b. canonical b = a) (bindings profs leases ts))"
proof (induction ts arbitrary: e)
  case Nil
  show ?case by (simp add: bindings_def map_filter_simps split: option.split)
next
  case (Cons t ts)
  have self: "fmlookup self i = find (\<lambda>p. DP_ID p = i) (rev profs)" for i
    by (simp add: self_def foldl_upd_lookup split: option.split)
  show ?case
  proof (cases "bind profs leases t")
    case None
    then have "add_binding self leases e t = e"
      by (auto simp: bind_def add_binding_def self Let_def split: option.splits)
    moreover have "bindings profs leases (t # ts) = bindings profs leases ts"
      using None by (simp add: bindings_def map_filter_simps)
    ultimately show ?thesis using Cons.IH [of e] by (simp cong: option.case_cong)
  next
    case (Some b)
    have b: "bindings profs leases (t # ts) = b # bindings profs leases ts"
      using Some by (simp add: bindings_def map_filter_simps)
    have "add_binding self leases e t = e\<lparr>byEffective := fmupd (Effective b) b (byEffective e),
         byInbound := fmupd (inboundKey (profile_id b) (canonical b)) b (byInbound e),
         raw := (case fmlookup (raw e) (canonical b) of None \<Rightarrow> fmupd (canonical b) b (raw e) | Some _ \<Rightarrow> raw e)\<rparr>"
      using Some by (auto simp: bind_def add_binding_def self Let_def split: option.splits if_splits)
    then show ?thesis
      by (simp only: foldl_Cons b Cons.IH) (auto simp: find_append split: option.splits)
  qed
qed

lemma New_lookup:
  "fmlookup (byEffective (Engine_New n ts leases profs)) a = find (\<lambda>b. Effective b = a) (rev (bindings profs leases ts))"
  "fmlookup (byInbound (Engine_New n ts leases profs)) k
      = find (\<lambda>b. inboundKey (profile_id b) (canonical b) = k) (rev (bindings profs leases ts))"
  "fmlookup (raw (Engine_New n ts leases profs)) a = find (\<lambda>b. canonical b = a) (bindings profs leases ts)"
  by (simp_all add: Engine_New_def Let_def add_bindings split: option.split)

section \<open>One profile packet\<close>

text \<open>
  What the host may see of a packet that a profile delivers: the source address it is given, if
  any, and the packet written.
\<close>

definition flow_live :: "time \<Rightarrow> Engine \<Rightarrow> string \<Rightarrow> bool" where
  "flow_live now e k \<longleftrightarrow> k \<noteq> [] \<and> (case fmlookup (flows e) k of None \<Rightarrow> False | Some t \<Rightarrow> \<not> flow_expired now t)"

definition return_source :: "time \<Rightarrow> string \<Rightarrow> bytes \<Rightarrow> Engine \<Rightarrow> addr \<Rightarrow> addr option" where
  "return_source now pid p e src =
    (if 0 < fst (fragmentBits p) then
       (case fmlookup (fragments e) (fragmentKey pid p) of None \<Rightarrow> None
        | Some fs \<Rightarrow> if fragment_expired now fs then None
            else Some (if fr_raw fs then src else Effective (fr_binding fs)))
     else if flow_live now e (flowKey pid p True) then Some src
     else map_option Effective (fmlookup (byInbound e) (inboundKey pid src)))"

definition host_sees :: "time \<Rightarrow> string \<Rightarrow> bytes \<Rightarrow> Engine \<Rightarrow> packet_error + bytes list" where
  "host_sees now pid p e = (case ipv4 p of Inl _ \<Rightarrow> Inr []
     | Inr (src, dst, proto) \<Rightarrow>
         if dst \<noteq> mapget NoAddr (selfByProfile e) pid then Inr []
         else case return_source now pid p e src of None \<Rightarrow> Inr []
           | Some src' \<Rightarrow> (case rewrite p src' (nat_addr e) proto of
               Inl err \<Rightarrow> if err = IndexPanic then Inl err else Inr [] | Inr q \<Rightarrow> Inr [q]))"

lemma touchFlow_live: "fst (touchFlow t1 t2 k pr e) = flow_live t1 e k"
  by (auto simp: touchFlow_def flow_live_def split: option.split)

text \<open>All addresses the engine writes into packets are IPv4.\<close>

definition binding4 :: "Binding \<Rightarrow> bool" where
  "binding4 b \<longleftrightarrow> Is4 (Effective b) \<and> Is4 (Self b) \<and> Is4 (canonical b)"

definition v4_inv :: "Engine \<Rightarrow> bool" where
  "v4_inv e \<longleftrightarrow> Is4 (nat_addr e) \<and> (\<forall>a b. fmlookup (byEffective e) a = Some b \<longrightarrow> binding4 b)
     \<and> (\<forall>k b. fmlookup (byInbound e) k = Some b \<longrightarrow> binding4 b) \<and> (\<forall>a b. fmlookup (raw e) a = Some b \<longrightarrow> binding4 b)
     \<and> (\<forall>k fs. fmlookup (fragments e) k = Some fs \<longrightarrow> fr_raw fs \<or> binding4 (fr_binding fs))"

lemma v4_inv_cong:
  "nat_addr e' = nat_addr e \<Longrightarrow> byEffective e' = byEffective e \<Longrightarrow> byInbound e' = byInbound e \<Longrightarrow> raw e' = raw e
    \<Longrightarrow> fragments e' = fragments e \<Longrightarrow> v4_inv e' \<longleftrightarrow> v4_inv e"
  by (simp add: v4_inv_def)

lemma putFragment_v4: "v4_inv e \<Longrightarrow> fr_raw v \<or> binding4 (fr_binding v) \<Longrightarrow> v4_inv (putFragment t k v e)"
  unfolding v4_inv_def by (auto simp: putFragment_def Let_def split: option.splits if_splits)

lemma getFragment_v4: "v4_inv e \<Longrightarrow> v4_inv (snd (getFragment t1 t2 k e))"
  unfolding v4_inv_def by (auto simp: getFragment_def split: option.splits if_splits)

text \<open>The engine after a profile packet, by the operations it went through.\<close>

definition profile_engine :: "Engine \<Rightarrow> Engine \<Rightarrow> bool" where
  "profile_engine e e' \<longleftrightarrow> byEffective e' = byEffective e \<and> byInbound e' = byInbound e \<and> raw e' = raw e
     \<and> selfByProfile e' = selfByProfile e \<and> nat_addr e' = nat_addr e \<and> loops e' = loops e \<and> drops e' = drops e
     \<and> profilePackets e' = profilePackets e + 1 \<and> started e' = started e
     \<and> (engine_inv e \<longrightarrow> engine_inv e') \<and> (v4_inv e \<longrightarrow> v4_inv e')"

lemma host_write_sees:
  assumes "nat_addr e' = nat_addr e"
  shows "host_write wr p src proto (s\<lparr>eng := e'\<rparr>) = (case rewrite p src (nat_addr e) proto of
       Inl err \<Rightarrow> if err = IndexPanic then Panic else Continue (s\<lparr>eng := e'\<rparr>)
     | Inr q \<Rightarrow> Continue (s\<lparr>eng := e', host_out := host_out s @ (if wr then [q] else [])\<rparr>))"
  using assms by (auto simp: host_write_def split: sum.split)

lemma profile_engine_ops:
  fixes e :: Engine
  defines "c \<equiv> e\<lparr>profilePackets := profilePackets e + 1\<rparr>"
  shows "profile_engine e c" "profile_engine e (snd (getFragment t1 t2 k c))"
    "profile_engine e (snd (touchFlow t1 t2 k pr c))"
    "v4_inv e \<longrightarrow> fr_raw v \<or> binding4 (fr_binding v) \<Longrightarrow> profile_engine e (putFragment t3 k' v (snd (touchFlow t1 t2 k pr c)))"
proof -
  have c: "v4_inv c = v4_inv e" "v4_inv (snd (touchFlow t1 t2 k pr c)) = v4_inv e"
    by (rule v4_inv_cong; simp add: c_def)+
  show "profile_engine e c" "profile_engine e (snd (getFragment t1 t2 k c))" "profile_engine e (snd (touchFlow t1 t2 k pr c))"
    using c by (simp_all add: profile_engine_def c_def getFragment_inv touchFlow_inv getFragment_v4)
  show "profile_engine e (putFragment t3 k' v (snd (touchFlow t1 t2 k pr c)))"
    if "v4_inv e \<longrightarrow> fr_raw v \<or> binding4 (fr_binding v)"
    using that c by (simp add: profile_engine_def c_def touchFlow_inv putFragment_inv putFragment_v4)
qed

lemma return_source_counted [simp]:
  "return_source now pid p (e\<lparr>profilePackets := x\<rparr>) src = return_source now pid p e src"
  by (simp add: return_source_def flow_live_def cong: option.case_cong)

text \<open>The step, read off the specification.\<close>

definition sees_outcome :: "Net \<Rightarrow> bool \<Rightarrow> packet_error + bytes list \<Rightarrow> Net outcome \<Rightarrow> bool" where
  "sees_outcome s wr h out \<longleftrightarrow> (case h of Inl _ \<Rightarrow> out = Panic
     | Inr qs \<Rightarrow> \<exists>e'. profile_engine (eng s) e' \<and> out = Continue (s\<lparr>eng := e', host_out := host_out s @ (if wr then qs else [])\<rparr>))"

lemma sees_outcome_write:
  assumes "profile_engine (eng s) e'"
  shows "sees_outcome s wr (case rewrite p src (nat_addr (eng s)) proto of
       Inl err \<Rightarrow> if err = IndexPanic then Inl err else Inr [] | Inr q \<Rightarrow> Inr [q]) (host_write wr p src proto (s\<lparr>eng := e'\<rparr>))"
proof -
  have n: "nat_addr e' = nat_addr (eng s)" using assms by (simp add: profile_engine_def)
  show ?thesis
    unfolding host_write_sees [OF n] sees_outcome_def using assms by (auto split: sum.split)
qed

lemma sees_outcome_drop: "profile_engine (eng s) e' \<Longrightarrow> sees_outcome s wr (Inr []) (Continue (s\<lparr>eng := e'\<rparr>))"
  by (auto simp: sees_outcome_def)

lemma profilePacket_outcome: "sees_outcome s wr (host_sees (clk 0) pid p (eng s)) (profilePacket clk wr pid p s)"
proof -
  let ?c = "(eng s)\<lparr>profilePackets := profilePackets (eng s) + 1\<rparr>"
  note ops = profile_engine_ops [where e = "eng s"]
  show ?thesis
  proof (cases "\<exists>src dst proto. ipv4 p = Inr (src, dst, proto) \<and> dst = mapget NoAddr (selfByProfile (eng s)) pid")
    case False
    then have "profilePacket clk wr pid p s = Continue (s\<lparr>eng := ?c\<rparr>)" "host_sees (clk 0) pid p (eng s) = Inr []"
      by (auto simp: profilePacket_def host_sees_def Let_def split: sum.splits)
    then show ?thesis using sees_outcome_drop ops(1) by simp
  next
    case True
    then obtain src proto where p: "ipv4 p = Inr (src, mapget NoAddr (selfByProfile (eng s)) pid, proto)" by blast
    obtain offset mf where fb: "fragmentBits p = (offset, mf)" by fastforce
    have sees: "host_sees (clk 0) pid p (eng s) = (case return_source (clk 0) pid p (eng s) src of None \<Rightarrow> Inr []
      | Some src' \<Rightarrow> (case rewrite p src' (nat_addr (eng s)) proto of
               Inl err \<Rightarrow> if err = IndexPanic then Inl err else Inr [] | Inr q \<Rightarrow> Inr [q]))"
      by (simp add: host_sees_def p)
    show ?thesis
    proof (cases "0 < offset")
      case True
      obtain r e' where g: "getFragment (clk 0) (clk 1) (fragmentKey pid p) ?c = (r, e')" by fastforce
      then have pe: "profile_engine (eng s) e'" using ops(2) by (metis snd_conv)
      have rs: "return_source (clk 0) pid p (eng s) src = map_option (\<lambda>fs. if fr_raw fs then src else Effective (fr_binding fs)) r"
        using True g by (auto simp: return_source_def fb getFragment_def split: option.splits if_splits)
      show ?thesis
        using True sees_outcome_drop [OF pe] sees_outcome_write [OF pe]
        by (cases r) (simp_all add: profilePacket_def Let_def p fb g sees rs del: One_nat_def)
    next
      case False
      obtain hit e' where t: "touchFlow (clk 0) (clk 1) (flowKey pid p True) proto ?c = (hit, e')" by fastforce
      then have e': "e' = snd (touchFlow (clk 0) (clk 1) (flowKey pid p True) proto ?c)" by simp
      have hit: "hit = flow_live (clk 0) (eng s) (flowKey pid p True)"
        using touchFlow_live [of "clk 0" "clk 1" "flowKey pid p True" proto ?c] t by (simp add: flow_live_def)
      have bi: "byInbound e' = byInbound (eng s)" by (simp add: e')
      have pe: "v4_inv (eng s) \<longrightarrow> fr_raw v \<or> binding4 (fr_binding v) \<Longrightarrow>
          profile_engine (eng s) (if mf then putFragment (clk 3) (fragmentKey pid p) v e' else e')"
        "profile_engine (eng s) e'" for v
        using ops(3,4) by (simp_all add: e')
      have b4: "v4_inv (eng s) \<longrightarrow> binding4 b" if "fmlookup (byInbound (eng s)) (inboundKey pid src) = Some b" for b
        using that by (auto simp: v4_inv_def)
      show ?thesis
        using False sees_outcome_drop [OF pe(2)] sees_outcome_write [OF pe(1)]
        by (cases hit; cases "fmlookup (byInbound (eng s)) (inboundKey pid src)")
          (simp_all add: b4 profilePacket_def Let_def p fb t sees return_source_def bi flip: hit del: One_nat_def)
    qed
  qed
qed

lemma profileStep_packet:
  assumes "profileStep clk sel wr t pid s = Continue s'"
  obtains p d e' qs where "Receive sel (tuns s t) = Some (Inr p, d)" "host_sees (clk 0) pid p (eng s) = Inr qs"
    "profile_engine (eng s) e'"
    "s' = s\<lparr>eng := e', tuns := (tuns s)(t := d), host_out := host_out s @ (if wr then qs else [])\<rparr>"
proof -
  obtain p d where r: "Receive sel (tuns s t) = Some (Inr p, d)"
    and pp: "profilePacket clk wr pid p (s\<lparr>tuns := (tuns s)(t := d)\<rparr>) = Continue s'"
    using assms by (auto simp: profileStep_def split: option.splits prod.splits sum.splits)
  have "sees_outcome (s\<lparr>tuns := (tuns s)(t := d)\<rparr>) wr (host_sees (clk 0) pid p (eng s)) (Continue s')"
    using profilePacket_outcome [of "s\<lparr>tuns := (tuns s)(t := d)\<rparr>" wr clk pid p] pp by simp
  then show ?thesis using that r by (auto simp: sees_outcome_def split: sum.splits)
qed

section \<open>Reachable states\<close>

text \<open>
  The engine with its environment: the two loops, configuration updates with IPv4 inputs, and any
  operation of the tsnet ends of the TUN devices, or the appearance of the device of a new profile. A
  profile loop runs only if it was started.
\<close>

definition inputs4 :: "Target list \<Rightarrow> (string, addr) fmap \<Rightarrow> DatapathProfile list \<Rightarrow> bool" where
  "inputs4 ts ls ps \<longleftrightarrow> (\<forall>t \<in> set ts. Is4 (CanonicalIP t)) \<and> (\<forall>t \<in> set ts. \<forall>a. fmlookup ls (target_Key t) = Some a \<longrightarrow> Is4 a)
     \<and> (\<forall>p \<in> set ps. Is4 (SelfIPv4 p))"

inductive net_step :: "Net \<Rightarrow> Net \<Rightarrow> bool" where
  host: "hostStep clk sel rd s = Continue s' \<Longrightarrow> net_step s s'"
| profile: "(t, pid) \<in> set (loops (eng s)) \<Longrightarrow> profileStep clk sel wr t pid s = Continue s' \<Longrightarrow> net_step s s'"
| update: "inputs4 ts ls ps \<Longrightarrow> net_step s (s\<lparr>eng := Update ts ls ps (eng s)\<rparr>)"
| run: "net_step s (s\<lparr>eng := Engine_Run (eng s)\<rparr>)"
| tun: "dev_step (tuns s t) d \<Longrightarrow> net_step s (s\<lparr>tuns := (tuns s)(t := d)\<rparr>)"
| attach: "dev_inv d \<Longrightarrow> net_step s (s\<lparr>tuns := (tuns s)(t := d)\<rparr>)"

inductive net_reachable :: "Net \<Rightarrow> bool" where
  init: "Is4 n \<Longrightarrow> inputs4 ts ls ps \<Longrightarrow> (\<And>t. dev_inv (tn t)) \<Longrightarrow>
    net_reachable \<lparr>eng = Engine_New n ts ls ps, tuns = tn, host_out = []\<rparr>"
| step: "net_reachable s \<Longrightarrow> net_step s s' \<Longrightarrow> net_reachable s'"

definition net_inv :: "Net \<Rightarrow> bool" where
  "net_inv s \<longleftrightarrow> engine_inv (eng s) \<and> v4_inv (eng s) \<and> (\<forall>t. dev_inv (tuns s t))"

lemma bind_Some:
  "bind ps ls t = Some b \<Longrightarrow> B_Target b = t \<and> fmlookup ls (target_Key t) = Some (Effective b)
     \<and> (\<exists>p \<in> set ps. DP_ID p = ProfileID t \<and> Self b = SelfIPv4 p \<and> B_Tun b = DP_Tun p)"
  by (fastforce simp: bind_def Let_def mapget_def IsValid_def split: option.splits if_splits dest: find_Some_mem)

lemma bindings_mem: "b \<in> set (bindings ps ls ts) \<longleftrightarrow> (\<exists>t \<in> set ts. bind ps ls t = Some b)"
  unfolding bindings_def by (induction ts) (auto simp: map_filter_simps split: option.splits)

lemma bindings4: "inputs4 ts ls ps \<Longrightarrow> b \<in> set (bindings ps ls ts) \<Longrightarrow> binding4 b"
  by (auto simp: bindings_mem inputs4_def binding4_def dest!: bind_Some)

lemma Engine_New_v4:
  assumes "Is4 n" "inputs4 ts ls ps"
  shows "v4_inv (Engine_New n ts ls ps)"
proof -
  have "find P (rev (bindings ps ls ts)) = Some b \<Longrightarrow> binding4 b" "find P (bindings ps ls ts) = Some b \<Longrightarrow> binding4 b" for P b
    using bindings4 [OF assms(2), of b] by (auto dest: find_Some_mem)
  then show ?thesis using assms(1) by (simp add: v4_inv_def New_lookup)
qed

lemma Update_v4:
  assumes "v4_inv e" "inputs4 ts ls ps"
  shows "v4_inv (Update ts ls ps e)"
proof -
  have "v4_inv (Engine_New (nat_addr e) ts ls ps)" using assms by (intro Engine_New_v4) (simp_all add: v4_inv_def)
  moreover have "fr_raw fs \<or> binding4 (fr_binding fs)" if "fmlookup (fragments (purgeProfiles rm e)) k = Some fs" for rm k fs
    using that assms(1) by (auto simp: v4_inv_def purgeProfiles_def Let_def split: if_splits option.splits)
  moreover have "fragments (purgeProfiles rm (e\<lparr>byEffective := a, byInbound := b, raw := c, selfByProfile := d\<rparr>))
      = fragments (purgeProfiles rm e)" for rm a b c d
    by (simp add: purgeProfiles_def Let_def)
  ultimately show ?thesis using assms(1) by (simp add: v4_inv_def Update_def Let_def)
qed

lemma net_step_inv: "net_step s s' \<Longrightarrow> net_inv s \<Longrightarrow> net_inv s'"
proof (induction rule: net_step.induct)
  case (host clk sel rd s s')
  then obtain p where rd: "hostStep clk sel (Some p) s = Continue s'" by (cases rd) (auto simp: hostStep_def)
  have e: "engine_inv e \<and> v4_inv e" if "e = host_counted s \<or> (\<exists>now k pr. e = snd (addFlow now k pr (host_counted s)))" for e
  proof -
    have "v4_inv e = v4_inv (eng s)" by (rule v4_inv_cong) (use that in auto)
    then show ?thesis using that host.prems by (auto simp: net_inv_def intro!: addFlow_inv)
  qed
  have d: "v4_inv (dropf t1 t2 k e) = v4_inv e" "v4_inv (e\<lparr>drops := x\<rparr>) = v4_inv e" for t1 t2 k e x
    by (rule v4_inv_cong; simp)+
  from rd show ?case
  proof (cases rule: hostStep_cases)
    case (forwarded b dst proto q f)
    have "f = host_counted s \<or> (\<exists>now k pr. f = snd (addFlow now k pr (host_counted s)))"
      using forwarded(4) by (metis prod.inject snd_conv)
    then show ?thesis using e [of f] host.prems forwarded(5,6) by (auto simp: net_inv_def dev_inv_def)
  next
    case (dropped f key)
    then show ?thesis using e [OF dropped(2)] host.prems by (simp add: net_inv_def d dropf_inv)
  next
    case (refused f)
    then show ?thesis using e [OF refused(2)] host.prems by (simp add: net_inv_def d)
  qed
next
  case (profile t pid s clk sel wr s')
  from profile.hyps(2) obtain p d e' qs where r: "Receive sel (tuns s t) = Some (Inr p, d)" "profile_engine (eng s) e'"
    "s' = s\<lparr>eng := e', tuns := (tuns s)(t := d), host_out := host_out s @ (if wr then qs else [])\<rparr>"
    by (rule profileStep_packet)
  then have "dev_inv d" using profile.prems dev_step_inv [OF dev_step.receive] by (auto simp: net_inv_def)
  with r profile.prems show ?case by (auto simp: net_inv_def profile_engine_def)
next
  case (update ts ls ps s)
  then show ?case by (simp add: net_inv_def Update_inv Update_v4)
next
  case (run s)
  have "v4_inv (Engine_Run (eng s)) = v4_inv (eng s)" by (rule v4_inv_cong) (simp_all add: Engine_Run_def)
  with run show ?case by (simp add: net_inv_def Engine_Run_inv)
next
  case (attach d s t)
  then show ?case by (simp add: net_inv_def)
next
  case (tun s t d)
  then show ?case using dev_step_inv by (auto simp: net_inv_def)
qed

lemma net_reachable_inv: "net_reachable s \<Longrightarrow> net_inv s"
proof (induction rule: net_reachable.induct)
  case (init n ts ls ps tn)
  then show ?case by (simp add: net_inv_def Engine_New_inv Engine_New_v4)
qed (auto intro: net_step_inv)

text \<open>
  C4: in every reachable state the flow table holds at most 65536 entries, the fragment table at most
  8192, every TUN has at most one profile loop, and every TUN queue is within its depth, whatever
  packets, updates and TUN operations happened.
\<close>

theorem tables_bounded:
  assumes "net_reachable s"
  shows "Flows (Stats (eng s)) \<le> 65536 \<and> Fragments (Stats (eng s)) \<le> 8192 \<and> distinct (map fst (loops (eng s)))
    \<and> (\<forall>t. length (toEngine (tuns s t)) \<le> depth (tuns s t))"
  using net_reachable_inv [OF assms] by (auto simp: net_inv_def engine_inv_def dev_inv_def Stats_def)

section \<open>Isolation and delivery\<close>

text \<open>
  C1: profiles are isolated: an iteration of a profile's loop takes one packet from that profile's
  TUN and puts nothing into the queue of any TUN, so no packet goes from one profile to another; all
  it can do with the packet is to write one translated packet to the host, and only if the packet
  was addressed to the profile's own address.
\<close>

theorem profileStep_isolated:
  assumes "profileStep clk sel wr t pid s = Continue s'"
  shows "(\<forall>t'. toEngine (tuns s' t') = toEngine (tuns s t')) \<and> (\<forall>t'. t' \<noteq> t \<longrightarrow> tuns s' t' = tuns s t')
    \<and> (\<exists>p. fromEngine (tuns s t) = p # fromEngine (tuns s' t)
         \<and> (host_out s' = host_out s \<or> (\<exists>q src proto. host_out s' = host_out s @ [q]
              \<and> ipv4 p = Inr (src, mapget NoAddr (selfByProfile (eng s)) pid, proto))))"
proof -
  obtain p d e' qs where r: "Receive sel (tuns s t) = Some (Inr p, d)" "host_sees (clk 0) pid p (eng s) = Inr qs"
    "s' = s\<lparr>eng := e', tuns := (tuns s)(t := d), host_out := host_out s @ (if wr then qs else [])\<rparr>"
    using assms by (rule profileStep_packet)
  from r(1) have "fromEngine (tuns s t) = p # fromEngine d" "toEngine d = toEngine (tuns s t)"
    by (auto simp: Receive_def split: if_splits)
  moreover have "qs = [] \<or> (\<exists>q src proto. qs = [q] \<and> ipv4 p = Inr (src, mapget NoAddr (selfByProfile (eng s)) pid, proto))"
    using r(2) by (auto simp: host_sees_def split: sum.splits if_splits option.splits)
  ultimately show ?thesis using r(3) by auto
qed

text \<open>
  C19: a loop iteration implements the specification \<open>host_sees\<close>: it writes to the host exactly the
  packets the specification gives (none if the host TUN refuses the write), panics exactly when the
  specification says so, counts the packet, and leaves bindings, drop counter and loops alone.
\<close>

theorem profilePacket_refines:
  "case host_sees (clk 0) pid p (eng s) of
     Inl _ \<Rightarrow> profilePacket clk wr pid p s = Panic
   | Inr qs \<Rightarrow> \<exists>e'. profilePacket clk wr pid p s = Continue (s\<lparr>eng := e', host_out := host_out s @ (if wr then qs else [])\<rparr>)
       \<and> profilePackets e' = profilePackets (eng s) + 1 \<and> drops e' = drops (eng s) \<and> byEffective e' = byEffective (eng s)
       \<and> byInbound e' = byInbound (eng s) \<and> raw e' = raw (eng s) \<and> selfByProfile e' = selfByProfile (eng s) \<and> loops e' = loops (eng s)"
  using profilePacket_outcome [of s wr clk pid p] by (auto simp: sees_outcome_def profile_engine_def split: sum.splits)

lemma return_source4:
  assumes "v4_inv e" "ipv4 p = Inr (src, dst, proto)" "return_source now pid p e src = Some a"
  shows "Is4 a"
proof -
  have "Is4 src" using assms(2) by (auto simp: ipv4_Inr)
  then show ?thesis using assms(1,3) unfolding return_source_def v4_inv_def
    by (auto simp: binding4_def split: if_splits option.splits)
qed

lemma host_sees_packet:
  assumes "v4_inv e" "host_sees now pid p e = Inr [q]"
  obtains src proto a where "ipv4 p = Inr (src, mapget NoAddr (selfByProfile e) pid, proto)"
    "return_source now pid p e src = Some a" "ipv4 q = Inr (a, nat_addr e, proto)" "length q = length p"
    "sum16 (take (hdr_len q) q) = 0"
proof -
  obtain src proto a where p: "ipv4 p = Inr (src, mapget NoAddr (selfByProfile e) pid, proto)"
    and a: "return_source now pid p e src = Some a" and q: "rewrite p a (nat_addr e) proto = Inr q"
    using assms(2) by (auto simp: host_sees_def split: sum.splits if_splits option.splits)
  obtain x where x: "a = V4 x" using return_source4 [OF assms(1) p a] by (cases a) auto
  obtain n where n: "nat_addr e = V4 n" using assms(1) by (cases "nat_addr e") (auto simp: v4_inv_def)
  have h: "20 \<le> hdr_len p" "hdr_len p \<le> length p" using p by (auto simp: ipv4_Inr)
  note q' = q [unfolded x n]
  show ?thesis
    using that [OF p a] rewrite_header_facts [OF p q'] take_rewrite [OF p q'] rewrite_header_sum [OF h] by (simp add: x n)
qed

text \<open>
  C15: in a reachable state, a packet that a profile loop writes to the host is a valid IPv4 packet
  addressed to the NAT address, whose source is the address that the tables justify: the packet's own
  source for a live raw flow (or a fragment of one), else the effective address bound to that profile
  and source. Anything else is not written.
\<close>

theorem delivered_to_nat:
  assumes "net_reachable s" "profileStep clk sel wr t pid s = Continue s'" "host_out s' \<noteq> host_out s"
  shows "\<exists>p q src proto a. host_out s' = host_out s @ [q] \<and> fromEngine (tuns s t) = p # fromEngine (tuns s' t)
    \<and> ipv4 p = Inr (src, mapget NoAddr (selfByProfile (eng s)) pid, proto)
    \<and> return_source (clk 0) pid p (eng s) src = Some a
    \<and> ipv4 q = Inr (a, nat_addr (eng s), proto) \<and> sum16 (take (hdr_len q) q) = 0"
proof -
  have v4: "v4_inv (eng s)" using net_reachable_inv [OF assms(1)] by (simp add: net_inv_def)
  obtain p d e' qs where r: "Receive sel (tuns s t) = Some (Inr p, d)" "host_sees (clk 0) pid p (eng s) = Inr qs"
    "s' = s\<lparr>eng := e', tuns := (tuns s)(t := d), host_out := host_out s @ (if wr then qs else [])\<rparr>"
    using assms(2) by (rule profileStep_packet)
  have "qs \<noteq> []" and wr: "wr" using assms(3) r(3) by (auto split: if_splits)
  then obtain q where q: "qs = [q]" using r(2) by (auto simp: host_sees_def split: sum.splits if_splits option.splits)
  from v4 r(2) [unfolded q] obtain src proto a where
    f: "ipv4 p = Inr (src, mapget NoAddr (selfByProfile (eng s)) pid, proto)" "return_source (clk 0) pid p (eng s) src = Some a"
      "ipv4 q = Inr (a, nat_addr (eng s), proto)" "sum16 (take (hdr_len q) q) = 0"
    by (rule host_sees_packet)
  have "fromEngine (tuns s t) = p # fromEngine d" using r(1) by (auto simp: Receive_def split: if_splits)
  moreover have "host_out s' = host_out s @ [q]" "fromEngine (tuns s' t) = fromEngine d" using r(3) q wr by simp_all
  ultimately show ?thesis using f by metis
qed

section \<open>End to end\<close>

text \<open>
  Packets in the meantime: any interleaving of host packets, packets of profiles and operations of the tsnet ends, with
  clock readings that satisfy \<open>ok\<close>. The bindings change only in an update.
\<close>

inductive traffic :: "(time \<Rightarrow> bool) \<Rightarrow> Net \<Rightarrow> Net \<Rightarrow> bool" for ok where
  host: "(\<And>i. ok (clk i)) \<Longrightarrow> hostStep clk sel rd s = Continue s' \<Longrightarrow> traffic ok s s'"
| profile: "(\<And>i. ok (clk i)) \<Longrightarrow> profileStep clk sel wr t pid s = Continue s' \<Longrightarrow> traffic ok s s'"
| tun: "dev_step (tuns s t) d \<Longrightarrow> traffic ok s (s\<lparr>tuns := (tuns s)(t := d)\<rparr>)"

definition same_tables :: "Engine \<Rightarrow> Engine \<Rightarrow> bool" where
  "same_tables e e' \<longleftrightarrow> byEffective e' = byEffective e \<and> byInbound e' = byInbound e \<and> raw e' = raw e
     \<and> selfByProfile e' = selfByProfile e \<and> nat_addr e' = nat_addr e"

text \<open>What a host packet does to the flow table.\<close>

lemma hostStep_engine:
  assumes "hostStep clk sel (Some p) s = Continue s'"
  shows "same_tables (eng s) (eng s') \<and> (flows (eng s') = flows (eng s)
    \<or> (\<exists>pid src dst proto. ipv4 p = Inr (src, dst, proto) \<and> flows (eng s') = flows (snd (addFlow (clk 0) (flowKey pid p False) proto (eng s)))))"
proof -
  have c: "flows (snd (addFlow now k pr (host_counted s))) = flows (snd (addFlow now k pr (eng s)))" for now k pr
    by (simp add: addFlow_def Let_def)
  have tab: "same_tables (eng s) e" if "e = host_counted s \<or> (\<exists>now k pr. e = snd (addFlow now k pr (host_counted s)))" for e
    using that by (auto simp: same_tables_def)
  have "same_tables (eng s) (eng s')"
    using assms
  proof (cases rule: hostStep_cases)
    case (dropped e key)
    then show ?thesis using tab [OF dropped(2)] by (simp add: same_tables_def)
  next
    case (refused e)
    then show ?thesis using tab [OF refused(2)] by (simp add: same_tables_def)
  next
    case (forwarded b dst proto q e)
    have "e = host_counted s \<or> (\<exists>now k pr. e = snd (addFlow now k pr (host_counted s)))" using forwarded(4) by (metis prod.inject snd_conv)
    from tab [OF this] show ?thesis using forwarded(6) by simp
  qed
  moreover have "flows (eng s') = flows (eng s)
    \<or> (\<exists>pid src dst proto. ipv4 p = Inr (src, dst, proto) \<and> flows (eng s') = flows (snd (addFlow (clk 0) (flowKey pid p False) proto (host_counted s))))"
  proof (cases "\<exists>dst proto b. ipv4 p = Inr (nat_addr (eng s), dst, proto) \<and> lookup_binding (eng s) dst = Some b")
    case False
    then have "flows (eng s') = flows (eng s)"
      using assms by (auto simp: hostStep_def host_drop_def Let_def dropf_def warnf_def split: sum.splits if_splits option.splits)
    then show ?thesis by blast
  next
    case True
    then obtain dst proto b where p: "ipv4 p = Inr (nat_addr (eng s), dst, proto)" "lookup_binding (eng s) dst = Some b" by blast
    obtain ok e where ok: "admitted clk p dst proto b (host_counted s) = (ok, e)" by fastforce
    then have "flows e = flows (eng s) \<or> flows e = flows (snd (addFlow (clk 0) (flowKey (profile_id b) p False) proto (host_counted s)))"
      by (auto split: if_splits)
    moreover have "flows (eng s') = flows e"
      using assms ok by (auto simp: hostStep_def Let_def p host_drop_def dropf_def warnf_def split: sum.splits if_splits prod.splits option.splits)
    ultimately show ?thesis using p(1) by auto
  qed
  ultimately show ?thesis by (simp add: c)
qed

text \<open>What a profile packet does to the flow table.\<close>

lemma profilePacket_flows:
  assumes "profilePacket clk wr pid p s = Continue s'"
  shows "flows (eng s') = flows (eng s)
    \<or> (\<exists>src dst proto. ipv4 p = Inr (src, dst, proto) \<and> flows (eng s') = flows (snd (touchFlow (clk 0) (clk 1) (flowKey pid p True) proto (eng s))))"
proof -
  let ?c = "(eng s)\<lparr>profilePackets := profilePackets (eng s) + 1\<rparr>"
  have w: "flows (eng s2) = flows (eng s1)" if "host_write wr p src proto s1 = Continue s2" for src proto s1 s2
    using that by (auto simp: host_write_def split: sum.splits if_splits)
  have g: "flows e' = flows e" if "getFragment t1 t2 k e = (r, e')" for t1 t2 k e r e'
    using getFragment_frame(13) [of t1 t2 k e] that by simp
  have c: "flows (snd (touchFlow t1 t2 k pr ?c)) = flows (snd (touchFlow t1 t2 k pr (eng s)))" for t1 t2 k pr
    by (simp add: touchFlow_def split: option.split)
  show ?thesis
  proof (cases "\<exists>src dst proto. ipv4 p = Inr (src, dst, proto) \<and> dst = mapget NoAddr (selfByProfile (eng s)) pid")
    case False
    then show ?thesis using assms by (auto simp: profilePacket_def Let_def split: sum.splits)
  next
    case True
    then obtain src proto where p: "ipv4 p = Inr (src, mapget NoAddr (selfByProfile (eng s)) pid, proto)" by blast
    obtain offset mf where fb: "fragmentBits p = (offset, mf)" by fastforce
    show ?thesis
    proof (cases "0 < offset")
      case True
      obtain r e' where r: "getFragment (clk 0) (clk 1) (fragmentKey pid p) ?c = (r, e')" by fastforce
      have "flows (eng s') = flows e'"
        using assms True by (auto simp: profilePacket_def Let_def p fb r simp del: One_nat_def dest: w split: option.splits)
      then show ?thesis using g [OF r] by simp
    next
      case False
      obtain hit e' where h: "touchFlow (clk 0) (clk 1) (flowKey pid p True) proto ?c = (hit, e')" by fastforce
      then have "flows e' = flows (snd (touchFlow (clk 0) (clk 1) (flowKey pid p True) proto (eng s)))" using c by (metis snd_conv)
      moreover have "flows (eng s') = flows e'"
        using assms False by (auto simp: profilePacket_def Let_def p fb h simp del: One_nat_def dest!: w split: option.splits bool.splits if_splits)
      ultimately show ?thesis using p by auto
    qed
  qed
qed

lemma traffic_tables: "traffic ok s s' \<Longrightarrow> same_tables (eng s) (eng s')"
proof (induction rule: traffic.induct)
  case (host clk sel rd s s')
  then show ?case using hostStep_engine by (cases rd) (auto simp: hostStep_def)
next
  case (profile clk sel wr t pid s s')
  from profile(2) show ?case by (rule profileStep_packet) (auto simp: profile_engine_def same_tables_def)
qed (simp add: same_tables_def)

lemma traffics_tables: "(traffic ok)\<^sup>*\<^sup>* s s' \<Longrightarrow> same_tables (eng s) (eng s')"
proof (induction rule: rtranclp_induct)
  case (step y z)
  then show ?case using traffic_tables [OF step(2)] by (simp add: same_tables_def)
qed (simp add: same_tables_def)

text \<open>A flow that was recorded at time \<open>lo\<close> stays in the table as long as its timeout has not passed.\<close>

definition flow_since :: "time \<Rightarrow> string \<Rightarrow> byte \<Rightarrow> (string, flowState) fmap \<Rightarrow> bool" where
  "flow_since lo k proto fl \<longleftrightarrow> (\<exists>v. fmlookup fl k = Some v \<and> proto_of v = proto \<and> lo \<le> seen v)"

lemma flowKey_proto:
  assumes "flowKey pid p inb = flowKey pid' r inb'" "flowKey pid p inb \<noteq> []" "ipv4 p = Inr (src, dst, proto)" "ipv4 r = Inr (src', dst', proto')"
  shows "proto' = proto"
proof -
  have "flow_tuple p inb = flow_tuple r inb'" "flow_tuple p inb \<noteq> None"
    using flowKey_injective [OF assms(1,2)] assms(2) by (auto simp: flowKey_Nil_iff)
  then show ?thesis using assms(3,4) by (auto simp: flow_tuple_def Let_def split: if_splits)
qed

lemma traffic_flow:
  assumes "traffic (\<lambda>t. lo \<le> t \<and> t \<le> hi) s s'" "hi - lo \<le> flowTimeout proto" "flow_since lo k proto (flows (eng s))"
    and k: "k = flowKey pid p False" "k \<noteq> []" "ipv4 p = Inr (src, dst, proto)"
  shows "flow_since lo k proto (flows (eng s'))"
  using assms(1)
proof cases
  case (host clk sel rd)
  then obtain r where r: "hostStep clk sel (Some r) s = Continue s'" by (cases rd) (auto simp: hostStep_def)
  from hostStep_engine [OF r] consider "flows (eng s') = flows (eng s)"
    | pid' src' dst' proto' where "ipv4 r = Inr (src', dst', proto')" "flows (eng s') = flows (snd (addFlow (clk 0) (flowKey pid' r False) proto' (eng s)))"
    by blast
  then show ?thesis
  proof cases
    case 1
    then show ?thesis using assms(3) by simp
  next
    case (2 pid' src' dst' proto')
    have same: "flowKey pid' r False = k \<Longrightarrow> proto' = proto" using flowKey_proto [of pid p False pid' r False] k 2(1) by auto
    have t: "lo \<le> clk 0" "clk 0 \<le> hi" using host by auto
    then have "\<not> flow_expired (clk 0) v" if "proto_of v = proto" "lo \<le> seen v" for v
      using that assms(2) by (simp add: flow_expired_def)
    then show ?thesis using assms(3) t same unfolding 2(2)
      by (auto simp: flow_since_def addFlow_def Let_def)
  qed
next
  case (profile clk sel wr t pid')
  then obtain r d where r: "profilePacket clk wr pid' r (s\<lparr>tuns := (tuns s)(t := d)\<rparr>) = Continue s'"
    by (auto simp: profileStep_def split: option.splits prod.splits sum.splits)
  from profilePacket_flows [OF r] consider "flows (eng s') = flows (eng s)"
    | src' dst' proto' where "ipv4 r = Inr (src', dst', proto')" "flows (eng s') = flows (snd (touchFlow (clk 0) (clk 1) (flowKey pid' r True) proto' (eng s)))"
    by auto
  then show ?thesis
  proof cases
    case 1
    then show ?thesis using assms(3) by simp
  next
    case (2 src' dst' proto')
    have same: "flowKey pid' r True = k \<Longrightarrow> proto' = proto" using flowKey_proto [of pid p False pid' r True] k 2(1) by auto
    have t: "lo \<le> clk 0" "clk 0 \<le> hi" "lo \<le> clk 1" using profile by auto
    then have "\<not> flow_expired (clk 0) v" if "proto_of v = proto" "lo \<le> seen v" for v
      using that assms(2) by (simp add: flow_expired_def)
    then show ?thesis using assms(3) t same unfolding 2(2)
      by (auto simp: flow_since_def touchFlow_def split: option.splits)
  qed
qed (use assms(3) in simp)

lemma traffics_flow:
  assumes "(traffic (\<lambda>t. lo \<le> t \<and> t \<le> hi))\<^sup>*\<^sup>* s s'" "hi - lo \<le> flowTimeout proto" "flow_since lo k proto (flows (eng s))"
    "k = flowKey pid p False" "k \<noteq> []" "ipv4 p = Inr (src, dst, proto)"
  shows "flow_since lo k proto (flows (eng s'))"
  using assms(1,3) by (induction rule: rtranclp_induct) (use traffic_flow assms(2,4-6) in blast)+

text \<open>The bindings carry the address of their profile.\<close>

definition self_inv :: "Engine \<Rightarrow> bool" where
  "self_inv e \<longleftrightarrow> (\<forall>b a. fmlookup (byEffective e) a = Some b \<or> fmlookup (raw e) a = Some b \<longrightarrow> fmlookup (selfByProfile e) (profile_id b) = Some (Self b))"

lemma bindings_self:
  "b \<in> set (bindings ps ls ts) \<Longrightarrow> fmlookup (selfByProfile (Engine_New n ts ls ps)) (profile_id b) = Some (Self b)"
  by (auto simp: bindings_mem bind_def Let_def foldl_upd_lookup split: option.splits if_splits)

lemma Engine_New_self: "self_inv (Engine_New n ts ls ps)"
proof -
  have "b \<in> set (bindings ps ls ts)" if "fmlookup (byEffective (Engine_New n ts ls ps)) a = Some b \<or> fmlookup (raw (Engine_New n ts ls ps)) a = Some b" for a b
    using that by (auto simp: New_lookup dest: find_Some_mem)
  then show ?thesis using bindings_self unfolding self_inv_def by blast
qed

lemma net_reachable_self: "net_reachable s \<Longrightarrow> self_inv (eng s)"
proof (induction rule: net_reachable.induct)
  case (step s s')
  have cong: "self_inv e'" if "same_tables (eng s) e'" for e' using that step.IH by (simp add: same_tables_def self_inv_def)
  from step.hyps(2) show ?case
  proof cases
    case (update ts ls ps)
    then show ?thesis using Engine_New_self [of "nat_addr (eng s)" ts ls ps] by (simp add: Update_def Let_def self_inv_def)
  next
    case (host clk sel rd)
    then show ?thesis by (intro cong traffic_tables [of "\<lambda>_. True"]) (auto intro: traffic.host)
  next
    case (profile t pid clk sel wr)
    then show ?thesis by (intro cong traffic_tables [of "\<lambda>_. True"]) (auto intro: traffic.profile)
  qed (auto intro!: cong simp: Engine_Run_def same_tables_def)
qed (simp add: Engine_New_self)

text \<open>A packet that a profile delivers to its own address, and that the tables give a source, reaches the host.\<close>

lemma profileStep_delivers:
  assumes "Receive sel (tuns s t) = Some (Inr r, d)" "ipv4 r = Inr (src, mapget NoAddr (selfByProfile (eng s)) pid, proto)"
    "return_source (clk 0) pid r (eng s) src = Some a" "rewrite r a (nat_addr (eng s)) proto = Inr q"
  shows "\<exists>s'. profileStep clk sel True t pid s = Continue s' \<and> host_out s' = host_out s @ [q]"
proof -
  have "host_sees (clk 0) pid r (eng s) = Inr [q]" using assms(2-4) by (simp add: host_sees_def)
  then show ?thesis using profilePacket_outcome [of "s\<lparr>tuns := (tuns s)(t := d)\<rparr>" True clk pid r] assms(1)
    by (auto simp: profileStep_def sees_outcome_def)
qed

text \<open>
  C17: the raw path works end to end. The host sends a packet (not a fragment) to a canonical address
  and the engine forwards it. Whatever packets pass in the meantime, a reply from that address to the profile's own
  address with swapped ports that the profile's loop receives within the protocol's timeout, and that is long
  enough to be translated, is written to the host (if the host TUN takes it), with the address the host
  contacted as its source. No update of the bindings happens in between.
\<close>

theorem raw_reply_returns:
  assumes "net_reachable s" "hostStep clk sel (Some p) s = Continue s1" "tuns s1 \<noteq> tuns s"
    "ipv4 p = Inr (src, dst, proto)" "lookup_binding (eng s) dst = Some b" "dst \<noteq> Effective b" "fst (fragmentBits p) = 0"
    "(traffic (\<lambda>t. clk 0 \<le> t \<and> t \<le> clk' 0))\<^sup>*\<^sup>* s1 s2" "clk' 0 - clk 0 \<le> flowTimeout proto"
    "Receive sel' (tuns s2 (B_Tun b)) = Some (Inr r, d)" "ipv4 r = Inr (dst, Self b, proto)" "fst (fragmentBits r) = 0"
    "proto = 6 \<or> proto = 17 \<Longrightarrow> hdr_len p + 4 \<le> length p \<and> hdr_len r + 4 \<le> length r
       \<and> be16 r (hdr_len r) = be16 p (hdr_len p + 2) \<and> be16 r (hdr_len r + 2) = be16 p (hdr_len p)"
    "proto = 1 \<Longrightarrow> hdr_len p + 6 \<le> length p \<and> hdr_len r + 6 \<le> length r \<and> be16 r (hdr_len r + 4) = be16 p (hdr_len p + 4)"
    "proto = 6 \<or> proto = 17 \<or> proto = 1" "rewrite r dst (nat_addr (eng s)) proto = Inr q"
  shows "ipv4 q = Inr (dst, nat_addr (eng s), proto)
    \<and> (\<exists>s3. profileStep clk' sel' True (B_Tun b) (profile_id b) s2 = Continue s3 \<and> host_out s3 = host_out s2 @ [q])"
proof -
  let ?k = "flowKey (profile_id b) p False"
  have k: "flowKey (profile_id b) r True = ?k" "?k \<noteq> []"
    using flowKey_swapped [OF assms(4,11,13,14,15)] by auto
  from assms(2) have "fmlookup (flows (eng s1)) ?k = Some \<lparr>seen = clk 0, proto_of = proto\<rparr>"
  proof (cases rule: hostStep_cases)
    case (forwarded b' dst' proto' q e)
    then have "addFlow (clk 0) ?k proto (host_counted s) = (True, e)" using assms(4-7) by simp
    then show ?thesis using forwarded(6) by (auto simp: addFlow_def Let_def split: if_splits)
  qed (use assms(3) in auto)
  then have "flow_since (clk 0) ?k proto (flows (eng s1))" by (simp add: flow_since_def)
  from traffics_flow [OF assms(8,9) this refl k(2) assms(4)]
  have "flow_live (clk' 0) (eng s2) ?k" using k(2) assms(9) by (auto simp: flow_since_def flow_live_def flow_expired_def)
  then have ret: "return_source (clk' 0) (profile_id b) r (eng s2) dst = Some dst" using k(1) assms(12) by (simp add: return_source_def)
  have tab: "same_tables (eng s) (eng s2)"
    using hostStep_engine [OF assms(2)] traffics_tables [OF assms(8)] by (simp add: same_tables_def)
  have "fmlookup (selfByProfile (eng s)) (profile_id b) = Some (Self b)"
    using net_reachable_self [OF assms(1)] assms(5) by (auto simp: self_inv_def lookup_binding_def split: option.splits)
  then have self: "mapget NoAddr (selfByProfile (eng s2)) (profile_id b) = Self b" "nat_addr (eng s2) = nat_addr (eng s)"
    using tab by (simp_all add: same_tables_def mapget_def)
  obtain x where x: "dst = V4 x" using assms(4) by (auto simp: ipv4_Inr)
  obtain y where y: "nat_addr (eng s) = V4 y"
    using net_reachable_inv [OF assms(1)] by (cases "nat_addr (eng s)") (auto simp: net_inv_def v4_inv_def)
  have "ipv4 q = Inr (dst, nat_addr (eng s), proto)" using rewrite_header_facts(4) [OF assms(11)] assms(16) by (simp add: x y)
  then show ?thesis using profileStep_delivers [where clk = clk', OF assms(10) _ ret] assms(11,16) self by simp
qed

lemma distinct_map_unique: "distinct (map f xs) \<Longrightarrow> x \<in> set xs \<Longrightarrow> y \<in> set xs \<Longrightarrow> f x = f y \<Longrightarrow> x = y"
  by (metis distinct_map inj_onD)

lemma inboundKey_inject:
  assumes "Is4 a" "Is4 a'"
  shows "inboundKey pid a = inboundKey pid' a' \<longleftrightarrow> pid = pid' \<and> a = a'"
proof
  obtain m m' where a: "a = V4 m" "a' = V4 m'" using assms by (cases a; cases a') auto
  assume "inboundKey pid a = inboundKey pid' a'"
  then have "Split (CHR ''/'') (pid @ ''/'' @ string4 m) = Split (CHR ''/'') (pid' @ ''/'' @ string4 m')"
    by (simp add: inboundKey_def a)
  then have "Split (CHR ''/'') pid @ [string4 m] = Split (CHR ''/'') pid' @ [string4 m']" by (simp add: str_simps)
  then show "pid = pid' \<and> a = a'" using addr_String4_inject [of m m'] by (simp add: a Split_inject)
qed simp

text \<open>
  C18: the effective path works end to end, in a live engine. The bindings were built by the last start or
  update, their leases are distinct and no profile has two targets with one canonical address; any packets may
  have passed since. Then a host packet to the effective address of a bound target that can be translated is queued,
  translated to the target's canonical address, on the TUN of its profile (if that is open and has
  room), and records no flow. A packet (not a later fragment) from the canonical address to the profile's own address that the
  profile's loop receives is written to the host, with the effective address as its source, except when a
  live raw flow of the host has the same ports: then it carries the canonical address.
\<close>

theorem effective_round_trip:
  assumes "inputs4 ts ls ps" "b \<in> set (bindings ps ls ts)"
    "distinct (map Effective (bindings ps ls ts))" "distinct (map (\<lambda>b. (profile_id b, canonical b)) (bindings ps ls ts))"
    "eng s0 = Engine_New n ts ls ps \<or> eng s0 = Update ts ls ps e" "(traffic (\<lambda>_. True))\<^sup>*\<^sup>* s0 s"
  shows "(\<forall>clk sel p proto q. ipv4 p = Inr (nat_addr (eng s), Effective b, proto) \<and> rewrite p (Self b) (canonical b) proto = Inr q
        \<and> \<not> closed (tuns s (B_Tun b)) \<and> length (toEngine (tuns s (B_Tun b))) < depth (tuns s (B_Tun b)) \<longrightarrow>
      (\<exists>s'. hostStep clk sel (Some p) s = Continue s' \<and> flows (eng s') = flows (eng s)
        \<and> tuns s' = (tuns s)(B_Tun b := (tuns s (B_Tun b))\<lparr>toEngine := toEngine (tuns s (B_Tun b)) @ [q]\<rparr>)))
    \<and> (\<forall>clk sel r d proto q a. Receive sel (tuns s (B_Tun b)) = Some (Inr r, d) \<and> ipv4 r = Inr (canonical b, Self b, proto)
        \<and> fst (fragmentBits r) = 0 \<and> a = (if flow_live (clk 0) (eng s) (flowKey (profile_id b) r True) then canonical b else Effective b)
        \<and> rewrite r a (nat_addr (eng s)) proto = Inr q \<longrightarrow>
      (\<exists>s'. profileStep clk sel True (B_Tun b) (profile_id b) s = Continue s' \<and> host_out s' = host_out s @ [q]))"
proof -
  let ?e = "Engine_New (nat_addr (eng s)) ts ls ps"
  have look: "byEffective (eng s) = byEffective (Engine_New m ts ls ps)" "byInbound (eng s) = byInbound (Engine_New m ts ls ps)"
    "selfByProfile (eng s) = selfByProfile ?e" for m
  proof -
    have m: "byEffective (Engine_New m ts ls ps) = byEffective (Engine_New m' ts ls ps)"
      "byInbound (Engine_New m ts ls ps) = byInbound (Engine_New m' ts ls ps)" for m m'
      by (rule fmap_ext; simp add: New_lookup)+
    show "byEffective (eng s) = byEffective (Engine_New m ts ls ps)" "byInbound (eng s) = byInbound (Engine_New m ts ls ps)"
      "selfByProfile (eng s) = selfByProfile ?e"
      using traffics_tables [OF assms(6)] assms(5) m by (auto simp: same_tables_def Update_def Let_def)
  qed
  have "find (\<lambda>x. Effective x = Effective b) (rev (bindings ps ls ts)) = Some b"
    using assms(2,3) by (intro find_unique) (auto dest: distinct_map_unique)
  then have lb: "lookup_binding (eng s) (Effective b) = Some b" by (simp add: lookup_binding_def look(1) [of n] New_lookup)
  have "x = b" if "x \<in> set (bindings ps ls ts)" "inboundKey (profile_id x) (canonical x) = inboundKey (profile_id b) (canonical b)" for x
    using that assms bindings4 [OF assms(1)] distinct_map_unique [OF assms(4) that(1) assms(2)]
    by (auto simp: inboundKey_inject binding4_def)
  then have ib: "fmlookup (byInbound (eng s)) (inboundKey (profile_id b) (canonical b)) = Some b"
    unfolding look(2) [of n] New_lookup using assms(2) by (intro find_unique) auto
  have self: "mapget NoAddr (selfByProfile (eng s)) (profile_id b) = Self b"
    using bindings_self [OF assms(2)] by (simp add: look(3) mapget_def)
  show ?thesis
  proof (intro conjI allI impI)
    fix clk :: "nat \<Rightarrow> time" and sel p proto q
    assume "ipv4 p = Inr (nat_addr (eng s), Effective b, proto) \<and> rewrite p (Self b) (canonical b) proto = Inr q
        \<and> \<not> closed (tuns s (B_Tun b)) \<and> length (toEngine (tuns s (B_Tun b))) < depth (tuns s (B_Tun b))"
    then show "\<exists>s'. hostStep clk sel (Some p) s = Continue s' \<and> flows (eng s') = flows (eng s)
        \<and> tuns s' = (tuns s)(B_Tun b := (tuns s (B_Tun b))\<lparr>toEngine := toEngine (tuns s (B_Tun b)) @ [q]\<rparr>)"
      by (simp add: hostStep_def Let_def lb TryInject_def)
  next
    fix clk :: "nat \<Rightarrow> time" and sel r d proto q a
    assume h: "Receive sel (tuns s (B_Tun b)) = Some (Inr r, d) \<and> ipv4 r = Inr (canonical b, Self b, proto)
        \<and> fst (fragmentBits r) = 0 \<and> a = (if flow_live (clk 0) (eng s) (flowKey (profile_id b) r True) then canonical b else Effective b)
        \<and> rewrite r a (nat_addr (eng s)) proto = Inr q"
    then have "return_source (clk 0) (profile_id b) r (eng s) (canonical b) = Some a" by (simp add: return_source_def ib)
    with h self show "\<exists>s'. profileStep clk sel True (B_Tun b) (profile_id b) s = Continue s' \<and> host_out s' = host_out s @ [q]"
      by (intro profileStep_delivers) auto
  qed
qed

section \<open>Withdrawn profiles\<close>

lemma Update_flows:
  defines "rm e ps \<equiv> fmdom (selfByProfile e) |-| fset_of_list (map DP_ID ps)"
  shows "flows (Update ts ls ps e) = map_delete_if (\<lambda>k _. purged (rm e ps) k) (flows e)"
    "fragments (Update ts ls ps e) = map_delete_if (\<lambda>k _. purged (rm e ps) k) (fragments e)"
proof -
  have "fmdom (foldl (\<lambda>m p. fmupd (DP_ID p) (SelfIPv4 p) m) m ps) = fmdom m |\<union>| fset_of_list (map DP_ID ps)" for m
    by (induction ps arbitrary: m) auto
  then have d: "fmdom (foldl (\<lambda>m p. fmupd (DP_ID p) (SelfIPv4 p) m) fmempty ps) = fset_of_list (map DP_ID ps)"
    by simp
  have "flows (purgeProfiles r x) = map_delete_if (\<lambda>k _. purged r k) (flows x)"
    "fragments (purgeProfiles r x) = map_delete_if (\<lambda>k _. purged r k) (fragments x)" for r x
    by (auto simp: purgeProfiles_def Let_def purged_def intro!: fmap_ext split: option.split)
  then show "flows (Update ts ls ps e) = map_delete_if (\<lambda>k _. purged (rm e ps) k) (flows e)"
    "fragments (Update ts ls ps e) = map_delete_if (\<lambda>k _. purged (rm e ps) k) (fragments e)"
    by (simp_all add: Update_def Let_def d rm_def)
qed

text \<open>
  C27: an update purges exactly the state of the withdrawn profiles: afterwards no flow of a profile
  that was bound before and is gone now is left, and the flows of all other profiles are untouched
  (profile IDs without a slash); the same for fragments.
\<close>

theorem Update_purges_exactly:
  assumes "CHR ''/'' \<notin> set pid" "\<forall>id. id |\<in>| fmdom (selfByProfile e) \<longrightarrow> CHR ''/'' \<notin> set id"
  shows "fmlookup (flows (Update ts ls ps e)) (pid @ ''/'' @ rest) =
      (if pid |\<in>| fmdom (selfByProfile e) \<and> pid \<notin> DP_ID ` set ps then None else fmlookup (flows e) (pid @ ''/'' @ rest))
    \<and> fmlookup (fragments (Update ts ls ps e)) (pid @ ''/'' @ rest) =
      (if pid |\<in>| fmdom (selfByProfile e) \<and> pid \<notin> DP_ID ` set ps then None else fmlookup (fragments e) (pid @ ''/'' @ rest))"
proof -
  have "purged (fmdom (selfByProfile e) |-| fset_of_list (map DP_ID ps)) (pid @ ''/'' @ rest)
      \<longleftrightarrow> pid |\<in>| fmdom (selfByProfile e) \<and> pid \<notin> DP_ID ` set ps"
    unfolding purged_def using assms by (auto simp: key_has_prefix fset_of_list_elem simp del: append.simps)
  then show ?thesis by (simp add: Update_flows split: option.split)
qed

section \<open>Panics\<close>

text \<open>
  C29: in a reachable state a host packet stops the process exactly when it is an unfragmented TCP
  packet from the NAT address to a bound destination, admitted by the flow table, that carries at
  least 8 but fewer than 18 bytes after the IP header.
\<close>

theorem hostStep_panics_iff:
  assumes "net_reachable s"
  shows "hostStep clk sel (Some p) s = Panic \<longleftrightarrow> (\<exists>dst b. ipv4 p = Inr (nat_addr (eng s), dst, 6)
    \<and> lookup_binding (eng s) dst = Some b \<and> fragmentBits p = (0, False)
    \<and> (dst = Effective b \<or> fst (addFlow (clk 0) (flowKey (profile_id b) p False) 6 (host_counted s)))
    \<and> hdr_len p + 8 \<le> length p \<and> length p < hdr_len p + 18)"
proof (cases "\<exists>dst proto b. ipv4 p = Inr (nat_addr (eng s), dst, proto) \<and> lookup_binding (eng s) dst = Some b")
  case False
  then show ?thesis by (auto simp: hostStep_def Let_def host_drop_def split: sum.splits option.splits)
next
  case True
  then obtain dst proto b where p: "ipv4 p = Inr (nat_addr (eng s), dst, proto)" and b: "lookup_binding (eng s) dst = Some b"
    by blast
  have "v4_inv (eng s)" using net_reachable_inv [OF assms] by (simp add: net_inv_def)
  with b have "binding4 b" by (auto simp: lookup_binding_def v4_inv_def split: option.splits)
  then obtain x y where xy: "Self b = V4 x" "canonical b = V4 y"
    by (cases "Self b"; cases "canonical b") (auto simp: binding4_def)
  have err: "rewrite p (V4 x) (V4 y) proto = Inl IndexPanic \<longleftrightarrow> fragmentBits p = (0, False) \<and> proto = 6
      \<and> hdr_len p + 8 \<le> length p \<and> length p < hdr_len p + 18"
    using rewrite_Inl_iff [OF p, of x y IndexPanic] by (auto simp: prod_eq_iff)
  have "hostStep clk sel (Some p) s = Panic \<longleftrightarrow> fst (admitted clk p dst proto b (host_counted s))
      \<and> rewrite p (V4 x) (V4 y) proto = Inl IndexPanic"
    by (auto simp: hostStep_def Let_def p b xy host_drop_def split: sum.splits prod.splits option.splits)
  then show ?thesis unfolding err using p b by auto
qed

section \<open>Examples\<close>

text \<open>One profile with one node; its canonical address is the destination of \<open>udp_example\<close>.\<close>

definition ex_target :: Target where
  "ex_target = \<lparr>ProfileID = ''work'', ProfileName = ''Work'', Order = 0, Kind = ''node'', ID = ''n1'', FQDN = ''host.'',
     Online = True, CanonicalIP = V4 1681915913\<rparr>"

definition ex_profile :: DatapathProfile where "ex_profile = \<lparr>DP_ID = ''work'', SelfIPv4 = V4 1, DP_Tun = 7\<rparr>"

definition ex_leases :: "(string, addr) fmap" where "ex_leases = fmap_of_list [(''work/node/n1/100.64.0.9'', V4 5)]"

definition ex_binding :: Binding where
  "ex_binding = \<lparr>B_Target = ex_target, Effective = V4 5, Self = V4 1, B_Tun = 7\<rparr>"

definition ex_net :: Net where
  "ex_net = \<lparr>eng = Engine_New (V4 2852021249) [ex_target] ex_leases [ex_profile],
     tuns = (\<lambda>_. (Device_New ''tun'' 1280 4)\<lparr>fromEngine := [udp_reply]\<rparr>), host_out = []\<rparr>"

lemma ex_key: "target_Key ex_target = ''work/node/n1/100.64.0.9''" by code_simp

lemma ex_bindings: "bindings [ex_profile] ex_leases [ex_target] = [ex_binding]"
  by (simp add: bindings_def map_filter_simps bind_def ex_key ex_leases_def mapget_def IsValid_def Let_def)
    (simp add: ex_profile_def ex_target_def ex_binding_def)

lemma ex_inputs: "inputs4 [ex_target] ex_leases [ex_profile]"
  by (simp add: inputs4_def ex_key ex_leases_def) (simp add: ex_profile_def ex_target_def)

lemma ex_engine:
  "nat_addr (eng ex_net) = V4 2852021249" "lookup_binding (eng ex_net) (V4 1681915913) = Some ex_binding"
  "flows (eng ex_net) = fmempty" "mapget NoAddr (selfByProfile (eng ex_net)) ''work'' = V4 1"
  "fmdom (selfByProfile (eng ex_net)) = {|''work''|}"
  "fmlookup (byInbound (eng ex_net)) (inboundKey ''work'' (V4 1681915913)) = Some ex_binding"
  by (simp_all add: ex_net_def lookup_binding_def New_lookup ex_bindings)
    (simp_all add: ex_binding_def ex_target_def mapget_def ex_profile_def)

lemma ex_reachable: "net_reachable ex_net"
  unfolding ex_net_def
  by (rule net_reachable.init) (simp_all add: ex_inputs dev_inv_def Device_New_def Let_def)

lemma ex_admitted: "fst (addFlow 0 k pr (host_counted ex_net)) \<longleftrightarrow> k \<noteq> []"
  by (simp add: addFlow_def Let_def ex_engine(3) map_delete_if_def)

lemma ex_fields:
  "Self ex_binding = V4 1" "canonical ex_binding = V4 1681915913" "profile_id ex_binding = ''work''"
  "Effective ex_binding = V4 5" "B_Tun ex_binding = 7"
  by (simp_all add: ex_binding_def ex_target_def)

lemma ex_tun: "tuns ex_net t = (Device_New ''tun'' 1280 4)\<lparr>fromEngine := [udp_reply]\<rparr>"
  by (simp add: ex_net_def)

lemma ex_flowKey: "flowKey ''work'' udp_example False \<noteq> []"
  by code_simp

lemma ex_rewrite: "\<exists>q. rewrite udp_example (V4 1) (V4 1681915913) 17 = Inr q"
proof (cases "rewrite udp_example (V4 1) (V4 1681915913) 17")
  case (Inl err)
  then show ?thesis
    unfolding rewrite_Inl_iff [OF ipv4_examples(1)] example_facts by simp
qed blast

lemma ex_host_step:
  "\<exists>s'. hostStep (\<lambda>_. 0) True (Some udp_example) ex_net = Continue s' \<and> tuns s' \<noteq> tuns ex_net"
proof -
  obtain q where q: "rewrite udp_example (V4 1) (V4 1681915913) 17 = Inr q" using ex_rewrite by blast
  obtain e where e: "addFlow 0 (flowKey ''work'' udp_example False) 17 (host_counted ex_net) = (True, e)"
    using ex_admitted [of "flowKey ''work'' udp_example False" 17] ex_flowKey
    by (cases "addFlow 0 (flowKey ''work'' udp_example False) 17 (host_counted ex_net)") auto
  show ?thesis
    by (simp add: hostStep_def Let_def ipv4_examples ex_engine ex_fields example_facts e q TryInject_def fun_eq_iff)
      (simp add: ex_tun Device_New_def)
qed

definition tcp_truncated :: bytes where "tcp_truncated = udp_example[9 := 6]"

lemma tcp_truncated_facts:
  "ipv4 tcp_truncated = Inr (V4 2852021249, V4 1681915913, 6)" "fragmentBits tcp_truncated = (0, False)"
  "hdr_len tcp_truncated = 20" "length tcp_truncated = 28" "flowKey ''work'' tcp_truncated False \<noteq> []"
  by code_simp+

lemma ex_profile_step:
  "\<exists>s'. profileStep (\<lambda>_. 0) True True 7 ''work'' ex_net = Continue s' \<and> host_out s' \<noteq> host_out ex_net"
proof -
  have live: "\<not> flow_live 0 (eng ex_net) k" for k by (simp add: flow_live_def ex_engine)
  have fb: "fragmentBits udp_reply = (0, False)" by code_simp
  have "\<exists>q. rewrite udp_reply (V4 5) (V4 2852021249) 17 = Inr q"
  proof (cases "rewrite udp_reply (V4 5) (V4 2852021249) 17")
    case (Inl err)
    then show ?thesis unfolding rewrite_Inl_iff [OF ipv4_examples(2)] example_facts fb by simp
  qed blast
  then obtain q where q: "rewrite udp_reply (V4 5) (V4 2852021249) 17 = Inr q" by blast
  have sees: "host_sees 0 ''work'' udp_reply (eng ex_net) = Inr [q]"
    by (simp add: host_sees_def ipv4_examples ex_engine return_source_def fb live ex_fields q)
  obtain d where "Receive True (tuns ex_net 7) = Some (Inr udp_reply, d)" by (simp add: Receive_def ex_tun)
  then show ?thesis
    using profilePacket_outcome [of "ex_net\<lparr>tuns := (tuns ex_net)(7 := d)\<rparr>" True "\<lambda>_. 0" "''work''" udp_reply] sees
    by (auto simp: profileStep_def sees_outcome_def)
qed

theorem hostStep_accounts_witness:
  "\<exists>s'. hostStep (\<lambda>_. 0) True (Some udp_example) ex_net = Continue s' \<and> hostPackets (eng s') = hostPackets (eng ex_net) + 1
     \<and> drops (eng s') = drops (eng ex_net)"
proof -
  obtain s' where s': "hostStep (\<lambda>_. 0) True (Some udp_example) ex_net = Continue s'" "tuns s' \<noteq> tuns ex_net"
    using ex_host_step by blast
  then show ?thesis using hostStep_accounts [OF s'(1)] by blast
qed

theorem hostStep_fails_closed_witness:
  "\<exists>s'. hostStep (\<lambda>_. 0) True (Some udp_reply) ex_net = Continue s' \<and> tuns s' = tuns ex_net \<and> host_out s' = host_out ex_net
     \<and> drops (eng s') = drops (eng ex_net) + 1 \<and> flows (eng s') = flows (eng ex_net) \<and> fragments (eng s') = fragments (eng ex_net)"
  by (rule hostStep_fails_closed) (simp add: ipv4_examples ex_engine)

theorem tables_bounded_witness: "Flows (Stats (eng ex_net)) \<le> 65536"
  using tables_bounded [OF ex_reachable] by blast

theorem profileStep_isolated_witness:
  "\<exists>s'. profileStep (\<lambda>_. 0) True True 7 ''work'' ex_net = Continue s' \<and> (\<forall>t. toEngine (tuns s' t) = toEngine (tuns ex_net t))"
proof -
  obtain s' where s': "profileStep (\<lambda>_. 0) True True 7 ''work'' ex_net = Continue s'" using ex_profile_step by blast
  with profileStep_isolated [OF s'] show ?thesis by blast
qed

theorem delivered_to_nat_witness:
  "\<exists>s' q a. profileStep (\<lambda>_. 0) True True 7 ''work'' ex_net = Continue s' \<and> host_out s' = host_out ex_net @ [q]
     \<and> (\<exists>proto. ipv4 q = Inr (a, nat_addr (eng ex_net), proto))"
proof -
  obtain s' where s': "profileStep (\<lambda>_. 0) True True 7 ''work'' ex_net = Continue s'" "host_out s' \<noteq> host_out ex_net"
    using ex_profile_step by blast
  from delivered_to_nat [OF ex_reachable s'] s'(1) show ?thesis by blast
qed

lemma ex_reply_rewrites: "Is4 a \<Longrightarrow> \<exists>q. rewrite udp_reply a (V4 2852021249) 17 = Inr q"
proof (cases "rewrite udp_reply a (V4 2852021249) 17")
  case (Inl err)
  assume "Is4 a"
  then obtain x where x: "a = V4 x" by (cases a) auto
  have fb: "fragmentBits udp_reply = (0, False)" by code_simp
  from Inl show ?thesis unfolding x rewrite_Inl_iff [OF ipv4_examples(2)] example_facts fb by simp
qed blast

theorem raw_reply_returns_witness:
  "\<exists>s1 s3 q. hostStep (\<lambda>_. 0) True (Some udp_example) ex_net = Continue s1
     \<and> profileStep (\<lambda>_. 60 * Second) True True 7 ''work'' s1 = Continue s3 \<and> host_out s3 = host_out s1 @ [q]
     \<and> ipv4 q = Inr (V4 1681915913, V4 2852021249, 17)"
proof -
  obtain s1 where s1: "hostStep (\<lambda>_. 0) True (Some udp_example) ex_net = Continue s1" "tuns s1 \<noteq> tuns ex_net"
    using ex_host_step by blast
  obtain q where q: "rewrite udp_reply (V4 1681915913) (V4 2852021249) 17 = Inr q" using ex_reply_rewrites [of "V4 1681915913"] by auto
  have fb: "fst (fragmentBits udp_reply) = 0" by code_simp
  have r: "Receive True (tuns s1 7) = Some (Inr udp_reply, (tuns s1 7)\<lparr>fromEngine := []\<rparr>)"
  proof -
    have "fromEngine (tuns s1 7) = [udp_reply] \<and> \<not> closed (tuns s1 7)"
      using s1(1) by (cases rule: hostStep_cases) (auto simp: ex_tun Device_New_def)
    then show ?thesis by (simp add: Receive_def)
  qed
  have "ipv4 q = Inr (V4 1681915913, nat_addr (eng ex_net), 17)
    \<and> (\<exists>s3. profileStep (\<lambda>_. 60 * Second) True True (B_Tun ex_binding) (profile_id ex_binding) s1 = Continue s3 \<and> host_out s3 = host_out s1 @ [q])"
    by (rule raw_reply_returns [OF ex_reachable s1 ipv4_examples(1) ex_engine(2), where r = udp_reply and d = "(tuns s1 7)\<lparr>fromEngine := []\<rparr>"])
      (simp_all add: ex_fields ex_engine example_facts flowTimeout_def ipv4_examples r fb q)
  with s1 show ?thesis by (auto simp: ex_fields ex_engine)
qed

theorem effective_round_trip_witness:
  "\<exists>s' q. profileStep (\<lambda>_. 0) True True 7 ''work'' ex_net = Continue s' \<and> host_out s' = host_out ex_net @ [q]
     \<and> rewrite udp_reply (V4 5) (V4 2852021249) 17 = Inr q"
proof -
  obtain q where q: "rewrite udp_reply (V4 5) (V4 2852021249) 17 = Inr q" using ex_reply_rewrites [of "V4 5"] by auto
  have fb: "fst (fragmentBits udp_reply) = 0" by code_simp
  have live: "\<not> flow_live 0 (eng ex_net) k" for k by (simp add: flow_live_def ex_engine)
  have r: "Receive True (tuns ex_net (B_Tun ex_binding)) = Some (Inr udp_reply, (tuns ex_net 7)\<lparr>fromEngine := []\<rparr>)"
    by (simp add: Receive_def ex_tun Device_New_def Let_def)
  have e: "eng ex_net = Engine_New (V4 2852021249) [ex_target] ex_leases [ex_profile]" by (simp add: ex_net_def)
  note rt = effective_round_trip [OF ex_inputs _ _ _ disjI1 [OF e] rtranclp.rtrancl_refl, of ex_binding, unfolded ex_bindings]
  have "\<exists>s'. profileStep (\<lambda>_. 0) True True (B_Tun ex_binding) (profile_id ex_binding) ex_net = Continue s' \<and> host_out s' = host_out ex_net @ [q]"
    by (rule rt [THEN conjunct2, rule_format, where r = udp_reply and d = "(tuns ex_net 7)\<lparr>fromEngine := []\<rparr>" and proto = 17 and a = "V4 5"])
      (use r q fb live in \<open>simp_all add: ex_fields ex_engine ipv4_examples\<close>)
  with q show ?thesis by (auto simp: ex_fields)
qed

theorem Update_purges_exactly_witness:
  "fmlookup (flows (Update [] fmempty [] (eng ex_net))) (''work'' @ ''/'' @ ''17'') = None"
  using Update_purges_exactly [of "''work''" "eng ex_net" "[]" fmempty "[]" "''17''"] by (simp add: ex_engine)

theorem hostStep_panics_iff_witness:
  "hostStep (\<lambda>_. 0) True (Some tcp_truncated) ex_net = Panic"
  using hostStep_panics_iff [OF ex_reachable, of "\<lambda>_. 0" True tcp_truncated]
  by (simp add: tcp_truncated_facts ex_engine ex_fields ex_admitted)

end
