(* ===== verification/Config.thy ===== *)
theory Config
  imports Netip
begin

text \<open>
  \<^verbatim>\<open>internal/config/config.go\<close>: the configuration, its validation, and its atomic replacement on disk.

  YAML is a third-party package: its decoder and encoder are arguments. \<^verbatim>\<open>url.Parse\<close>, \<^verbatim>\<open>filepath.Join\<close>
  and the three regular expressions are modelled as far as the package uses them. The file system is
  a map from paths to contents; each system call of \<open>WriteAtomic\<close> can fail (\<open>fault\<close>), and the result
  records every intermediate file system, which is what a crash at that point leaves behind.
\<close>

section \<open>Data\<close>

definition Version_number :: int where "Version_number = 1"

definition DefaultPath :: string where "DefaultPath = ''/etc/tailscale-multitail/config.yaml''"

definition DefaultStateRoot :: string where "DefaultStateRoot = ''/var/lib/tailscale-multitail''"

record Profile =
  Prof_ID :: string
  Prof_Name :: string
  Hostname :: string
  ControlURL :: string
  AdvertiseTags :: "string list"

record Config =
  Version :: int
  Interface :: string
  RoutingTable :: int
  Cfg_MTU :: int
  EffectiveIPv4CIDR :: string
  Profiles :: "Profile list"

datatype config_error =
    UnsupportedVersion int | InvalidInterface string | BadRoutingTable | BadMTU | NotIPv4CIDR | PoolTooSmall
  | MissingField nat | InvalidName nat string | DuplicateName string | DuplicateID string
  | BadControlURL string | BadTag string string
  | InvalidYAML | MarshalFailed | IOError

section \<open>Regular expressions\<close>

definition is_alpha :: "char \<Rightarrow> bool" where
  "is_alpha c \<longleftrightarrow> CHR ''A'' \<le> c \<and> c \<le> CHR ''Z'' \<or> CHR ''a'' \<le> c \<and> c \<le> CHR ''z''"

definition is_alnum :: "char \<Rightarrow> bool" where "is_alnum c \<longleftrightarrow> is_alpha c \<or> is_digit c"

definition nameRE :: "string \<Rightarrow> bool" where
  "nameRE s \<longleftrightarrow> s \<noteq> [] \<and> is_alpha (hd s) \<and> list_all (\<lambda>c. is_alnum c \<or> c = CHR ''_'') (tl s)"

definition interfaceRE :: "string \<Rightarrow> bool" where
  "interfaceRE s \<longleftrightarrow> 1 \<le> length s \<and> length s \<le> 15 \<and> list_all (\<lambda>c. is_alnum c \<or> c \<in> set ''_.-'') s"

definition tagRE :: "string \<Rightarrow> bool" where
  "tagRE s \<longleftrightarrow> HasPrefix s ''tag:'' \<and> (let r = drop 4 s in
     r \<noteq> [] \<and> is_alnum (hd r) \<and> list_all (\<lambda>c. is_alnum c \<or> c \<in> set ''_-'') (tl r))"

section \<open>url.Parse\<close>

text \<open>The parts of a parsed URL that \<open>Validate\<close> reads; \<open>None\<close> is a parse error.\<close>

record URL =
  Scheme :: string
  Host :: string
  User :: bool

fun getScheme_loop :: "string \<Rightarrow> string \<Rightarrow> (string \<times> string) option" where
  "getScheme_loop acc [] = Some ([], rev acc)"
| "getScheme_loop acc (c # cs) =
     (if is_alpha c then getScheme_loop (c # acc) cs
      else if is_digit c \<or> c \<in> set ''+-.'' then
        (if acc = [] then Some ([], c # cs) else getScheme_loop (c # acc) cs)
      else if c = CHR '':'' then (if acc = [] then None else Some (rev acc, cs))
      else Some ([], rev acc @ c # cs))"

definition is_hexdigit :: "char \<Rightarrow> bool" where
  "is_hexdigit c \<longleftrightarrow> is_digit c \<or> CHR ''a'' \<le> c \<and> c \<le> CHR ''f'' \<or> CHR ''A'' \<le> c \<and> c \<le> CHR ''F''"

definition host_char_ok :: "char \<Rightarrow> bool" where
  "host_char_ok c \<longleftrightarrow> is_alnum c \<or> c \<in> set ''!$&()*+,;=:[]<>-_.~'' \<or> c = CHR 0x27 \<or> c = CHR 0x22"

datatype encoding = EncodePath | EncodeUser | EncodeHost | EncodeZone | EncodeFragment

definition hex_val :: "char \<Rightarrow> nat" where
  "hex_val c = (if is_digit c then digit_val c else of_char (lower_char c) - 87)"

definition escape_ok :: "encoding \<Rightarrow> char \<Rightarrow> char \<Rightarrow> bool" where
  "escape_ok mode a b \<longleftrightarrow> is_hexdigit a \<and> is_hexdigit b \<and>
     (let v = char_of (16 * hex_val a + hex_val b); percent = (a = CHR ''2'' \<and> b = CHR ''5'') in
      case mode of EncodeHost \<Rightarrow> 8 \<le> hex_val a \<or> percent
        | EncodeZone \<Rightarrow> percent \<or> v = CHR '' '' \<or> host_char_ok v | _ \<Rightarrow> True)"

fun unescape :: "encoding \<Rightarrow> string \<Rightarrow> string option" where
  "unescape mode [] = Some []"
| "unescape mode (c # cs) =
     (if c = CHR ''%'' then
        (case cs of a # b # r \<Rightarrow>
           if escape_ok mode a b then map_option ((#) (char_of (16 * hex_val a + hex_val b))) (unescape mode r) else None
         | _ \<Rightarrow> None)
      else if (mode = EncodeHost \<or> mode = EncodeZone) \<and> (of_char c :: nat) < 128 \<and> \<not> host_char_ok c then None
      else map_option ((#) c) (unescape mode cs))"

definition validOptionalPort :: "string \<Rightarrow> bool" where
  "validOptionalPort p \<longleftrightarrow> p = [] \<or> hd p = CHR '':'' \<and> list_all is_digit (tl p)"

text \<open>The string before and after the last \<open>c\<close>, and before and after the first occurrence of \<open>w\<close>.\<close>

definition cut_last :: "char \<Rightarrow> string \<Rightarrow> (string \<times> string) option" where
  "cut_last c s = (if c \<in> set s then
     let r = rev s in Some (rev (tl (dropWhile (\<lambda>x. x \<noteq> c) r)), rev (takeWhile (\<lambda>x. x \<noteq> c) r)) else None)"

fun cut_at :: "string \<Rightarrow> string \<Rightarrow> (string \<times> string) option" where
  "cut_at w [] = (if w = [] then Some ([], []) else None)"
| "cut_at w (c # cs) = (if HasPrefix (c # cs) w then Some ([], c # cs)
     else map_option (\<lambda>(a, b). (c # a, b)) (cut_at w cs))"

definition parseHost :: "string \<Rightarrow> string option" where
  "parseHost h =
     (if HasPrefix h ''['' then
        (case cut_last (CHR '']'') (tl h) of None \<Rightarrow> None
         | Some (hostname, port) \<Rightarrow>
             if CHR ''['' \<in> set (tl h) \<or> \<not> validOptionalPort port then None
             else case (case cut_at ''%25'' hostname of
                 Some (a, z) \<Rightarrow> (case (unescape EncodeHost a, unescape EncodeZone z) of
                     (Some a', Some z') \<Rightarrow> Some (a' @ z') | _ \<Rightarrow> None)
               | None \<Rightarrow> unescape EncodeHost hostname) of
               None \<Rightarrow> None
             | Some n \<Rightarrow> (case (ParseAddr n, unescape EncodeHost port) of
                   (Some a, Some pt) \<Rightarrow> if Is4 a then None else Some (''['' @ n @ '']'' @ pt) | _ \<Rightarrow> None))
      else if CHR ''['' \<in> set h \<or> 1 < count_list h (CHR '':'') then None
      else case cut_last (CHR '':'') h of
          Some (_, port) \<Rightarrow> if list_all is_digit port then unescape EncodeHost h else None
        | None \<Rightarrow> unescape EncodeHost h)"

definition validUserinfo :: "string \<Rightarrow> bool" where
  "validUserinfo s \<longleftrightarrow> list_all (\<lambda>c. is_alnum c \<or> c \<in> set ''-._:~!$&()*+,;=%@'' \<or> c = CHR 0x27) s"

definition parseAuthority :: "string \<Rightarrow> (bool \<times> string) option" where
  "parseAuthority a = (case cut_last (CHR ''@'') a of
       None \<Rightarrow> map_option (\<lambda>h. (False, h)) (parseHost a)
     | Some (u, h) \<Rightarrow> if validUserinfo u \<and> unescape EncodeUser u \<noteq> None
         then map_option (\<lambda>h. (True, h)) (parseHost h) else None)"

definition until :: "char \<Rightarrow> string \<Rightarrow> string" where "until c s = takeWhile (\<lambda>x. x \<noteq> c) s"
definition onward :: "char \<Rightarrow> string \<Rightarrow> string" where "onward c s = dropWhile (\<lambda>x. x \<noteq> c) s"

definition url_Parse :: "string \<Rightarrow> URL option" where
  "url_Parse raw =
    (let u = until (CHR ''#'') raw; frag = tl (onward (CHR ''#'') raw) in
     if unescape EncodeFragment frag = None \<or> list_ex (\<lambda>c. (of_char c :: nat) < 32 \<or> (of_char c :: nat) = 127) u then None
     else if u = ''*'' then Some \<lparr>Scheme = [], Host = [], User = False\<rparr>
     else case getScheme_loop [] u of None \<Rightarrow> None
     | Some (scheme, rest0) \<Rightarrow>
       let scheme = ToLower scheme; rest = until (CHR ''?'') rest0 in
       if \<not> HasPrefix rest ''/'' then
         (if scheme \<noteq> [] then Some \<lparr>Scheme = scheme, Host = [], User = False\<rparr>
          else if CHR '':'' \<in> set (until (CHR ''/'') rest) \<or> unescape EncodePath rest = None then None
          else Some \<lparr>Scheme = [], Host = [], User = False\<rparr>)
       else if (scheme \<noteq> [] \<or> \<not> HasPrefix rest ''///'') \<and> HasPrefix rest ''//'' then
         (case parseAuthority (until (CHR ''/'') (drop 2 rest)) of None \<Rightarrow> None
          | Some (user, host) \<Rightarrow> if unescape EncodePath (onward (CHR ''/'') (drop 2 rest)) = None then None
              else Some \<lparr>Scheme = scheme, Host = host, User = user\<rparr>)
       else if unescape EncodePath rest = None then None
       else Some \<lparr>Scheme = scheme, Host = [], User = False\<rparr>)"

section \<open>Operations\<close>

definition Default :: Config where
  "Default = \<lparr>Version = Version_number, Interface = ''multitail0'', RoutingTable = 552, Cfg_MTU = 1280,
     EffectiveIPv4CIDR = ''10.192.0.0/16'', Profiles = []\<rparr>"

text \<open>\<^verbatim>\<open>filepath.Clean\<close> on the elements of a path, and \<^verbatim>\<open>filepath.Join\<close> of two of them.\<close>

fun clean_elems :: "bool \<Rightarrow> string list \<Rightarrow> string list \<Rightarrow> string list" where
  "clean_elems rooted out [] = rev out"
| "clean_elems rooted out (x # xs) =
     (if x = [] \<or> x = ''.'' then clean_elems rooted out xs
      else if x = ''..'' then
        (if out \<noteq> [] \<and> hd out \<noteq> ''..'' then clean_elems rooted (tl out) xs
         else if rooted then clean_elems rooted out xs else clean_elems rooted (x # out) xs)
      else clean_elems rooted (x # out) xs)"

definition Clean :: "string \<Rightarrow> string" where
  "Clean p = (let rooted = HasPrefix p ''/''; es = clean_elems rooted [] (Split (CHR ''/'') p);
       r = (if rooted then ''/'' else []) @ Join (CHR ''/'') es
     in if r = [] then ''.'' else r)"

definition Path_Join :: "string \<Rightarrow> string \<Rightarrow> string" where
  "Path_Join a b = (if a = [] then (if b = [] then [] else Clean b) else Clean (a @ ''/'' @ b))"

definition StateDir :: "Profile \<Rightarrow> string \<Rightarrow> string" where
  "StateDir p root = Path_Join (if root = [] then DefaultStateRoot else root) (Prof_ID p)"

definition control_url_ok :: "string \<Rightarrow> bool" where
  "control_url_ok s \<longleftrightarrow> s = [] \<or> (case url_Parse s of None \<Rightarrow> False
     | Some u \<Rightarrow> Scheme u = ''https'' \<and> Host u \<noteq> [] \<and> \<not> User u)"

text \<open>The loop over the profiles, with the names and IDs seen so far.\<close>

fun validate_profiles :: "nat \<Rightarrow> string fset \<Rightarrow> string fset \<Rightarrow> Profile list \<Rightarrow> config_error option" where
  "validate_profiles i names ids [] = None"
| "validate_profiles i names ids (x # xs) =
     (if Prof_ID x = [] \<or> Prof_Name x = [] \<or> Hostname x = [] then Some (MissingField i)
      else if \<not> nameRE (Prof_Name x) then Some (InvalidName i (Prof_Name x))
      else if ToUpper (Prof_Name x) |\<in>| names then Some (DuplicateName (Prof_Name x))
      else if Prof_ID x |\<in>| ids then Some (DuplicateID (Prof_ID x))
      else if \<not> control_url_ok (ControlURL x) then Some (BadControlURL (Prof_Name x))
      else case find (\<lambda>t. \<not> tagRE t) (AdvertiseTags x) of
          Some t \<Rightarrow> Some (BadTag (Prof_Name x) t)
        | None \<Rightarrow> validate_profiles (Suc i) (finsert (ToUpper (Prof_Name x)) names) (finsert (Prof_ID x) ids) xs)"

definition Validate :: "Config \<Rightarrow> config_error option" where
  "Validate c =
    (if Version c \<noteq> Version_number then Some (UnsupportedVersion (Version c))
     else if \<not> interfaceRE (Interface c) then Some (InvalidInterface (Interface c))
     else if RoutingTable c < 1 \<or> RoutingTable c > 2147483647 \<or> RoutingTable c = 52 then Some BadRoutingTable
     else if Cfg_MTU c < 576 \<or> Cfg_MTU c > 9000 then Some BadMTU
     else case ParsePrefix (EffectiveIPv4CIDR c) of None \<Rightarrow> Some NotIPv4CIDR
     | Some p \<Rightarrow> if \<not> Is4 (PAddr p) then Some NotIPv4CIDR
         else if 30 < PBits p then Some PoolTooSmall
         else validate_profiles 0 {||} {||} (Profiles c))"

definition Parse :: "(bytes \<Rightarrow> Config option) \<Rightarrow> bytes \<Rightarrow> config_error + Config" where
  "Parse decode b = (case decode b of None \<Rightarrow> Inl InvalidYAML
     | Some c \<Rightarrow> (case Validate c of Some e \<Rightarrow> Inl e | None \<Rightarrow> Inr c))"

type_synonym files = "(string, bytes) fmap"

definition Load :: "(bytes \<Rightarrow> Config option) \<Rightarrow> files \<Rightarrow> string \<Rightarrow> config_error + Config" where
  "Load decode fs path = (case fmlookup fs path of None \<Rightarrow> Inl IOError | Some b \<Rightarrow> Parse decode b)"

definition Marshal :: "(Config \<Rightarrow> bytes option) \<Rightarrow> Config \<Rightarrow> bytes option" where
  "Marshal encode c = encode (c\<lparr>Profiles := Profiles c\<rparr>)"

text \<open>
  The system calls of \<open>WriteAtomic\<close> are numbered in program order: \<open>fault i\<close> says that call \<open>i\<close> fails.
  \<open>tmp\<close> is the fresh name \<^verbatim>\<open>os.CreateTemp\<close> picks, \<open>part\<close> how much a failing write stores. The
  second result lists the file systems in the order they arise; the last one is the final one.
\<close>

definition WriteAtomic :: "(Config \<Rightarrow> bytes option) \<Rightarrow> (nat \<Rightarrow> bool) \<Rightarrow> string \<Rightarrow> nat \<Rightarrow> string \<Rightarrow> Config \<Rightarrow> files
    \<Rightarrow> config_error option \<times> files list" where
  "WriteAtomic encode fault tmp part path c fs =
    (if fault 0 \<or> fault 1 then (Some IOError, [fs])
     else let fs1 = (if path @ ''.lock'' |\<in>| fmdom fs then fs else fmupd (path @ ''.lock'') [] fs) in
     if fault 2 then (Some IOError, [fs, fs1])
     else case Validate c of Some e \<Rightarrow> (Some e, [fs, fs1])
     | None \<Rightarrow> (case Marshal encode c of None \<Rightarrow> (Some MarshalFailed, [fs, fs1])
       | Some b \<Rightarrow>
         if fault 3 \<or> fault 4 then (Some IOError, [fs, fs1])
         else let fs2 = fmupd tmp [] fs1;
                  fs3 = (if fault 5 then fs2 else fmupd tmp (if fault 6 then take part b else b) fs2);
                  remove = (\<lambda>x. if fault 10 then x else fmdrop tmp x) in
         if fault 5 \<or> fault 6 \<or> fault 7 \<or> fault 8 \<or> fault 9 then (Some IOError, [fs, fs1, fs2, fs3, remove fs3])
         else let fs4 = fmupd path b (fmdrop tmp fs3) in (None, [fs, fs1, fs2, fs3, fs4, remove fs4])))"

definition SortedProfileNames :: "Config \<Rightarrow> string list" where
  "SortedProfileNames c = sort (map Prof_Name (Profiles c))"

section \<open>Validation\<close>

definition valid_profile :: "Profile \<Rightarrow> bool" where
  "valid_profile x \<longleftrightarrow> Prof_ID x \<noteq> [] \<and> nameRE (Prof_Name x) \<and> Hostname x \<noteq> [] \<and> control_url_ok (ControlURL x)
     \<and> (\<forall>t \<in> set (AdvertiseTags x). tagRE t)"

definition valid_config :: "Config \<Rightarrow> bool" where
  "valid_config c \<longleftrightarrow> Version c = 1 \<and> interfaceRE (Interface c)
     \<and> RoutingTable c \<in> {1..2147483647} - {52} \<and> Cfg_MTU c \<in> {576..9000}
     \<and> (\<exists>n b. ParsePrefix (EffectiveIPv4CIDR c) = Some (Prefix (V4 n) b) \<and> b \<le> 30)
     \<and> (\<forall>x \<in> set (Profiles c). valid_profile x)
     \<and> distinct (map (\<lambda>x. ToUpper (Prof_Name x)) (Profiles c)) \<and> distinct (map Prof_ID (Profiles c))"

lemma nameRE_Nil [simp]: "\<not> nameRE []"
  by (simp add: nameRE_def)

lemma validate_profiles_None:
  "validate_profiles i names ids xs = None \<longleftrightarrow> (\<forall>x \<in> set xs. valid_profile x)
     \<and> distinct (map (\<lambda>x. ToUpper (Prof_Name x)) xs) \<and> distinct (map Prof_ID xs)
     \<and> (\<forall>x \<in> set xs. ToUpper (Prof_Name x) |\<notin>| names \<and> Prof_ID x |\<notin>| ids)"
proof (induction xs arbitrary: i names ids)
  case (Cons x xs)
  have tags: "find (\<lambda>t. \<not> tagRE t) (AdvertiseTags x) = None \<longleftrightarrow> (\<forall>t \<in> set (AdvertiseTags x). tagRE t)"
    by (auto simp: find_None_iff)
  have "validate_profiles i names ids (x # xs) = None \<longleftrightarrow> valid_profile x \<and> ToUpper (Prof_Name x) |\<notin>| names
      \<and> Prof_ID x |\<notin>| ids
      \<and> validate_profiles (Suc i) (finsert (ToUpper (Prof_Name x)) names) (finsert (Prof_ID x) ids) xs = None"
    by (simp add: valid_profile_def flip: tags split: option.split)
  note step = this
  have img: "g x \<notin> g ` set xs \<longleftrightarrow> (\<forall>y \<in> set xs. g y \<noteq> g x)" for g :: "Profile \<Rightarrow> string"
    by (metis image_iff)
  show ?case unfolding step Cons.IH by (simp add: img img [of "\<lambda>x. ToUpper (Prof_Name x)"] ball_conj_distrib) blast
qed simp

lemma Validate_None_iff: "Validate c = None \<longleftrightarrow> valid_config c"
proof -
  have "(\<exists>n b. po = Some (Prefix (V4 n) b) \<and> b \<le> 30) \<longleftrightarrow> (\<exists>p. po = Some p \<and> Is4 (PAddr p) \<and> PBits p \<le> 30)" for po
    by (metis Is4.elims(2) Is4.simps(1) prefix.collapse prefix.sel)
  then show ?thesis
    unfolding valid_config_def
    by (auto simp: Validate_def Version_number_def validate_profiles_None not_le split: option.splits if_splits)
qed

text \<open>
  C30: \<open>Validate\<close> accepts exactly the configurations that meet the documented format: version 1, a legal
  interface name, a routing table other than 52, an MTU from 576 to 9000, an IPv4 pool of at least
  four addresses, and profiles with ID, name, host name, legal URL and tags, whose IDs are distinct
  and whose names are distinct even when case is ignored.
\<close>

theorem Validate_exact: "Validate c = None \<longleftrightarrow> valid_config c"
  by (rule Validate_None_iff)

section \<open>Atomic replacement\<close>

text \<open>The configuration file itself after a write: unchanged on an error, the new encoding otherwise.\<close>

lemma WriteAtomic_path:
  assumes "tmp |\<notin>| fmdom fs" "tmp \<noteq> path" "tmp \<noteq> path @ ''.lock''" "WriteAtomic encode fault tmp part path c fs = (r, states)"
  shows "(r = None \<longrightarrow> valid_config c \<and> fmlookup (last states) path = encode c) \<and> (r \<noteq> None \<longrightarrow> fmlookup (last states) path = fmlookup fs path)"
proof -
  have "path \<noteq> path @ ''.lock''" by simp
  then show ?thesis
    using assms(2-4) unfolding WriteAtomic_def Let_def Marshal_def Validate_None_iff [symmetric]
    by (auto split: if_splits option.splits)
qed

text \<open>
  C31: replacing the configuration is atomic and keeps everything else: in every file system that
  arises, also one left by a crash, the file holds its old content or the complete new one; it ends
  with the new content exactly when no error is reported, and then the configuration was valid; files
  other than the lock file and the temporary file are never touched, and the temporary file is removed.
\<close>

theorem WriteAtomic_atomic:
  assumes "tmp |\<notin>| fmdom fs" "tmp \<noteq> path" "tmp \<noteq> path @ ''.lock''"
    "WriteAtomic encode fault tmp part path c fs = (r, states)"
  shows "states \<noteq> [] \<and> (\<forall>s \<in> set states. fmlookup s path = fmlookup fs path
       \<or> valid_config c \<and> (\<exists>b. encode c = Some b \<and> fmlookup s path = Some b))
    \<and> (\<forall>s \<in> set states. \<forall>x. x \<notin> {path, tmp, path @ ''.lock''} \<longrightarrow> fmlookup s x = fmlookup fs x)
    \<and> (r = None \<longrightarrow> valid_config c \<and> fmlookup (last states) path = encode c)
    \<and> (r \<noteq> None \<longrightarrow> fmlookup (last states) path = fmlookup fs path)
    \<and> (\<not> fault 10 \<longrightarrow> fmlookup (last states) tmp = None)"
proof -
  have "path \<noteq> path @ ''.lock''" by simp
  moreover have "fmlookup fs tmp = None" using assms(1) by (simp add: fmdom_notD)
  ultimately show ?thesis
    using assms(2-4) unfolding WriteAtomic_def Let_def Marshal_def Validate_None_iff [symmetric]
    by (auto split: if_splits option.splits)
qed

text \<open>
  What was written is what is loaded: if the decoder inverts the encoder on the configuration, then
  after a successful \<open>WriteAtomic\<close> loading the path returns the configuration.
\<close>

lemma WriteAtomic_Load:
  assumes "\<And>b. encode c = Some b \<Longrightarrow> decode b = Some c"
    "tmp |\<notin>| fmdom fs" "tmp \<noteq> path" "tmp \<noteq> path @ ''.lock''"
    "WriteAtomic encode fault tmp part path c fs = (None, states)"
  shows "Load decode (last states) path = Inr c"
proof -
  obtain b where "encode c = Some b" "fmlookup (last states) path = Some b" "Validate c = None"
    using assms(2-5) unfolding WriteAtomic_def Let_def Marshal_def by (auto split: if_splits option.splits)
  then show ?thesis using assms(1) by (simp add: Load_def Parse_def)
qed

section \<open>State directories\<close>

definition plain_elem :: "string \<Rightarrow> bool" where
  "plain_elem s \<longleftrightarrow> s \<noteq> [] \<and> s \<noteq> ''.'' \<and> s \<noteq> ''..'' \<and> CHR ''/'' \<notin> set s"

lemma clean_elems_snoc: "plain_elem x \<Longrightarrow> clean_elems rooted out (es @ [x]) = clean_elems rooted out es @ [x]"
  by (induction rooted out es rule: clean_elems.induct) (auto simp: plain_elem_def)

lemma clean_elems_slash_free:
  "\<forall>x \<in> set out \<union> set es. CHR ''/'' \<notin> set x \<Longrightarrow> x \<in> set (clean_elems rooted out es) \<Longrightarrow> CHR ''/'' \<notin> set x"
  by (induction rooted out es rule: clean_elems.induct) (auto split: if_splits dest: list.set_sel(2))

lemma Split_elems_slash_free: "x \<in> set (Split c s) \<Longrightarrow> c \<notin> set x"
  by (induction s arbitrary: x) (auto split: if_splits list.splits)

lemma Clean_below:
  assumes "root \<noteq> []" "plain_elem x"
  defines "es \<equiv> clean_elems (HasPrefix root ''/'') [] (Split (CHR ''/'') root)"
  shows "Clean (root @ ''/'' @ x) = (if HasPrefix root ''/'' then ''/'' else []) @ Join (CHR ''/'') (es @ [x])"
proof -
  have "HasPrefix (root @ ''/'' @ x) ''/'' = HasPrefix root ''/''" using assms(1) by (cases root) (auto simp: HasPrefix_iff)
  moreover have "Split (CHR ''/'') (root @ ''/'' @ x) = Split (CHR ''/'') root @ [x]"
    using assms(2) by (simp add: str_simps plain_elem_def)
  moreover have "Join (CHR ''/'') (es @ [x]) \<noteq> []"
    using assms(2) by (cases es) (auto simp: plain_elem_def Join_Cons)
  ultimately show ?thesis using clean_elems_snoc [OF assms(2)] by (simp add: Clean_def Let_def es_def)
qed

text \<open>
  Profiles do not share state: two profiles whose IDs are plain path elements have the same state
  directory only if their IDs are equal, whatever the root is, and the directory is one element below
  the cleaned root.
\<close>

lemma StateDir_injective:
  assumes "plain_elem (Prof_ID p)" "plain_elem (Prof_ID q)"
  shows "StateDir p root = StateDir q root \<longleftrightarrow> Prof_ID p = Prof_ID q"
proof
  define r where "r = (if root = [] then DefaultStateRoot else root)"
  have r: "r \<noteq> []" by (simp add: r_def DefaultStateRoot_def)
  let ?es = "clean_elems (HasPrefix r ''/'') [] (Split (CHR ''/'') r)"
  assume "StateDir p root = StateDir q root"
  then have j: "Join (CHR ''/'') (?es @ [Prof_ID p]) = Join (CHR ''/'') (?es @ [Prof_ID q])"
    using Clean_below [OF r assms(1)] Clean_below [OF r assms(2)] r by (simp add: StateDir_def Path_Join_def flip: r_def)
  have sf: "\<forall>w \<in> set [] \<union> set (Split (CHR ''/'') r). CHR ''/'' \<notin> set w" by (auto dest: Split_elems_slash_free)
  have "Split (CHR ''/'') (Join (CHR ''/'') (?es @ [x])) = ?es @ [x]" if "plain_elem x" for x
    by (rule Split_Join) (use that clean_elems_slash_free [OF sf] in \<open>auto simp: plain_elem_def\<close>)
  from this [OF assms(1)] this [OF assms(2)] have "?es @ [Prof_ID p] = ?es @ [Prof_ID q]"
    unfolding j by (rule trans [OF sym])
  then show "Prof_ID p = Prof_ID q" by simp
qed (simp add: StateDir_def)

section \<open>Examples\<close>

definition ex_profile_cfg :: Profile where
  "ex_profile_cfg = \<lparr>Prof_ID = ''p1'', Prof_Name = ''Work'', Hostname = ''laptop'', ControlURL = [], AdvertiseTags = []\<rparr>"

lemma Default_valid: "valid_config Default"
proof -
  have "ParsePrefix ''10.192.0.0/16'' = Some (Prefix (V4 180355072) 16)" by code_simp
  then show ?thesis by (simp add: valid_config_def Default_def Version_number_def) code_simp
qed

text \<open>A control URL is accepted with a port, and refused with another scheme, without a host, or with user information.\<close>

lemma control_url_examples:
  "control_url_ok ''https://control.example:8443/x'' \<and> \<not> control_url_ok ''http://control.example''
   \<and> \<not> control_url_ok ''https:///x'' \<and> \<not> control_url_ok ''https://user@control.example''"
  by code_simp

text \<open>An ID such as \<^verbatim>\<open>..\<close> passes validation and leaves the state root.\<close>

lemma StateDir_escapes:
  "valid_profile (ex_profile_cfg\<lparr>Prof_ID := ''..''\<rparr>)
   \<and> StateDir (ex_profile_cfg\<lparr>Prof_ID := ''..''\<rparr>) DefaultStateRoot = ''/var/lib''"
  by code_simp

theorem WriteAtomic_atomic_witness:
  "fmlookup (last (snd (WriteAtomic (\<lambda>_. Some [1, 2]) (\<lambda>_. False) ''.config-1'' 0 ''c'' Default fmempty))) ''c'' = Some [1, 2]"
proof -
  let ?w = "WriteAtomic (\<lambda>_. Some [1, 2]) (\<lambda>_. False) ''.config-1'' 0 ''c'' Default fmempty"
  obtain r states where w: "?w = (r, states)" by fastforce
  have "r = None"
    using w Default_valid by (auto simp: WriteAtomic_def Let_def Marshal_def simp flip: Validate_None_iff)
  moreover have "r = None \<longrightarrow> fmlookup (last states) ''c'' = Some [1, 2]"
    using WriteAtomic_atomic [of "''.config-1''" fmempty "''c''", OF _ _ _ w] by simp
  ultimately show ?thesis using w by simp
qed

end
