(* ===== verification/Dnsmux.thy ===== *)
theory Dnsmux
  imports Inventory
begin

text \<open>
  \<^verbatim>\<open>internal/dnsmux/server.go\<close>: the DNS server that answers with effective addresses.

  The DNS message library is third-party code: the functions of it that the server calls are the
  fields of \<open>dns_lib\<close>, an argument of the handler; a message is the record of the fields the server
  reads or writes. The upstream resolver (\<open>Query\<close>) is a function of the server, as in the code.
  A loop over a Go map takes the iteration order as an argument: a list of the keys.

  The locale \<open>reverse_names\<close> states what the server relies on in \<^verbatim>\<open>dns.ReverseAddr\<close>; the model's own
  reverse-name function for IPv4 (the inverse of what \<open>profileForPTR\<close> parses) meets it.
\<close>

section \<open>Data\<close>

record rr_header =
  Name :: string
  Rrtype :: u16
  RClass :: u16
  Ttl :: u32

datatype rr = A rr_header bytes | PTR rr_header string | OtherRR rr_header bytes

record question =
  Q_Name :: string
  Qtype :: u16

record Msg =
  Id :: u16
  Authoritative :: bool
  Rcode :: nat
  Question :: "question list"
  Answer :: "rr list"
  Ns :: "rr list"
  Extra :: "rr list"

record dns_lib =
  SetReply :: "Msg \<Rightarrow> Msg"
  IsEdns0 :: "Msg \<Rightarrow> bool"
  SetEdns0 :: "Msg \<Rightarrow> Msg"
  Unpack :: "bytes \<Rightarrow> Msg option"
  ReverseAddr :: "string \<Rightarrow> string"

abbreviation TypeA :: u16 where "TypeA \<equiv> 1"
abbreviation TypePTR :: u16 where "TypePTR \<equiv> 12"
abbreviation TypeAAAA :: u16 where "TypeAAAA \<equiv> 28"
abbreviation ClassINET :: u16 where "ClassINET \<equiv> 1"
abbreviation RcodeFormatError :: nat where "RcodeFormatError \<equiv> 1"
abbreviation RcodeNameError :: nat where "RcodeNameError \<equiv> 3"
abbreviation RcodeNotImplemented :: nat where "RcodeNotImplemented \<equiv> 4"

definition TTL :: u32 where "TTL = 30"

type_synonym query_fun = "string \<Rightarrow> string \<Rightarrow> string \<Rightarrow> bytes option"

record Server =
  targets :: "Target list"
  effective :: "(string, addr) fmap"
  reverse :: "(addr, string) fmap"
  suffix :: "(string, string) fmap"
  query :: "query_fun option"
  udp :: bool
  tcp :: bool

section \<open>Operations\<close>

definition norm :: "string \<Rightarrow> string" where
  "norm n = TrimSuffix (ToLower n) ''.'' @ ''.''"

definition effective_of :: "(string, addr) fmap \<Rightarrow> Target \<Rightarrow> addr" where
  "effective_of eff t = mapget NoAddr eff (target_Key t)"

text \<open>The body of the loop of \<open>New\<close>.\<close>

definition index_target :: "Server \<Rightarrow> Target \<Rightarrow> Server" where
  "index_target s t = (if FQDN t = [] then s
     else let f = norm (FQDN t); ip = effective_of (effective s) t; parts = SplitN2 (CHR ''.'') f;
              s = (if IsValid ip then s\<lparr>reverse := fmupd ip f (reverse s)\<rparr> else s)
          in if length parts = 2 then s\<lparr>suffix := fmupd (parts ! 1) (ProfileID t) (suffix s)\<rparr> else s)"

definition Dns_New :: "Target list \<Rightarrow> (string, addr) fmap \<Rightarrow> query_fun option \<Rightarrow> Server" where
  "Dns_New ts eff q = foldl index_target
     \<lparr>targets = ts, effective = eff, reverse = fmempty, suffix = fmempty, query = q, udp = False, tcp = False\<rparr> ts"

definition Dns_Update :: "Target list \<Rightarrow> (string, addr) fmap \<Rightarrow> Server \<Rightarrow> Server" where
  "Dns_Update ts eff s = (let n = Dns_New ts eff (query s) in
     s\<lparr>targets := targets n, effective := effective n, reverse := reverse n, suffix := suffix n\<rparr>)"

text \<open>
  Opening and closing the two sockets; the arguments say which system calls succeed. The result of
  \<open>Start\<close> is the error, the sockets left open by the call, and the server.
\<close>

definition Start :: "bool \<Rightarrow> bool \<Rightarrow> Server \<Rightarrow> bool \<times> bool \<times> Server" where
  "Start udp_ok tcp_ok s = (if \<not> udp_ok then (False, False, s)
     else if \<not> tcp_ok then (False, False, s)
     else (True, True, s\<lparr>udp := True, tcp := True\<rparr>))"

definition Dns_Close :: "bool \<Rightarrow> bool \<Rightarrow> Server \<Rightarrow> bool" where
  "Dns_Close udp_ok tcp_ok s = ((udp s \<longrightarrow> udp_ok) \<and> (tcp s \<longrightarrow> tcp_ok))"

definition target_matches :: "string \<Rightarrow> Target \<Rightarrow> bool" where
  "target_matches name t \<longleftrightarrow> norm (FQDN t) = name \<or>
     CHR ''.'' \<notin> set (TrimSuffix name ''.'') \<and> FQDN t \<noteq> []
       \<and> hd (Split (CHR ''.'') (norm (FQDN t))) = TrimSuffix name ''.''"

fun localA_loop :: "Target list \<Rightarrow> Server \<Rightarrow> Msg \<Rightarrow> question \<Rightarrow> string \<Rightarrow> bool \<times> Msg" where
  "localA_loop [] s m q name = (False, m)"
| "localA_loop (t # ts) s m q name =
     (if target_matches name t \<and> IsValid (effective_of (effective s) t)
      then (True, m\<lparr>Authoritative := True, Answer := Answer m @ [A \<lparr>Name = Q_Name q, Rrtype = TypeA,
              RClass = ClassINET, Ttl = TTL\<rparr> (AsSlice (effective_of (effective s) t))]\<rparr>)
      else localA_loop ts s m q name)"

definition localA :: "Server \<Rightarrow> Msg \<Rightarrow> question \<Rightarrow> string \<Rightarrow> bool \<times> Msg" where
  "localA s m q name = localA_loop (targets s) s m q name"

fun ptr :: "dns_lib \<Rightarrow> addr list \<Rightarrow> Server \<Rightarrow> Msg \<Rightarrow> question \<Rightarrow> string \<Rightarrow> bool \<times> Msg" where
  "ptr lib [] s m q name = (False, m)"
| "ptr lib (ip # ips) s m q name =
     (case fmlookup (reverse s) ip of None \<Rightarrow> ptr lib ips s m q name
      | Some f \<Rightarrow> if norm (ReverseAddr lib (addr_String ip)) = name
          then (True, m\<lparr>Authoritative := True, Answer := Answer m @ [PTR \<lparr>Name = Q_Name q, Rrtype = TypePTR,
                  RClass = ClassINET, Ttl = TTL\<rparr> f]\<rparr>)
          else ptr lib ips s m q name)"

definition profileForPTR :: "Server \<Rightarrow> string \<Rightarrow> string" where
  "profileForPTR s n = (let labels = Split (CHR ''.'') (TrimSuffix n ''.'') in
     if length labels \<noteq> 6 \<or> labels ! 4 \<noteq> ''in-addr'' \<or> labels ! 5 \<noteq> ''arpa'' then []
     else case ParseAddr (Join (CHR ''.'') [labels ! 3, labels ! 2, labels ! 1, labels ! 0]) of
         None \<Rightarrow> []
       | Some ip \<Rightarrow> (case find (\<lambda>t. CanonicalIP t = ip) (targets s) of None \<Rightarrow> [] | Some t \<Rightarrow> ProfileID t))"

fun profileFor :: "string list \<Rightarrow> Server \<Rightarrow> string \<Rightarrow> string" where
  "profileFor [] s n = []"
| "profileFor (x # xs) s n = (case fmlookup (suffix s) x of None \<Rightarrow> profileFor xs s n
     | Some p \<Rightarrow> if HasSuffix n x then p else profileFor xs s n)"

definition min32 :: "u32 \<Rightarrow> u32 \<Rightarrow> u32" where "min32 a b = (if a < b then a else b)"

text \<open>The inner loop over the targets for one A record whose original address is \<open>ip\<close>.\<close>

definition rewrite_target :: "Server \<Rightarrow> addr \<Rightarrow> rr_header \<times> bytes \<Rightarrow> Target \<Rightarrow> rr_header \<times> bytes" where
  "rewrite_target s ip hb t = (let e = effective_of (effective s) t in
     if CanonicalIP t = ip \<and> IsValid e then (fst hb\<lparr>Ttl := min32 (Ttl (fst hb)) TTL\<rparr>, AsSlice e) else hb)"

fun rewrite_rr :: "Server \<Rightarrow> rr \<Rightarrow> rr" where
  "rewrite_rr s (A h b) = (case AddrFromSlice b of None \<Rightarrow> A h b
     | Some ip \<Rightarrow> (case foldl (rewrite_target s ip) (h, b) (targets s) of (h', b') \<Rightarrow> A h' b'))"
| "rewrite_rr s r = r"

definition dns_rewrite :: "Server \<Rightarrow> Msg \<Rightarrow> Msg" where
  "dns_rewrite s m = m\<lparr>Answer := map (rewrite_rr s) (Answer m), Ns := map (rewrite_rr s) (Ns m), Extra := map (rewrite_rr s) (Extra m)\<rparr>"

definition forward :: "dns_lib \<Rightarrow> Server \<Rightarrow> string \<Rightarrow> string \<Rightarrow> string \<Rightarrow> Msg option" where
  "forward lib s pid name qt = (if pid = [] then None
     else case query s of None \<Rightarrow> None | Some f \<Rightarrow> (case f pid name qt of None \<Rightarrow> None | Some b \<Rightarrow> Unpack lib b))"

definition ServeDNS :: "dns_lib \<Rightarrow> addr list \<Rightarrow> string list \<Rightarrow> Server \<Rightarrow> Msg \<Rightarrow> Msg" where
  "ServeDNS lib rorder sorder s r =
    (let m = SetReply lib r; m = (if IsEdns0 lib r then SetEdns0 lib m else m) in
     if length (Question r) \<noteq> 1 then m\<lparr>Rcode := RcodeFormatError\<rparr>
     else let q = hd (Question r); name = norm (Q_Name q) in
     if Qtype q = TypeAAAA then m\<lparr>Authoritative := True\<rparr>
     else if Qtype q = TypePTR then
       (case ptr lib rorder s m q name of (True, m) \<Rightarrow> m
        | (False, m) \<Rightarrow> (case forward lib s (profileForPTR s name) (Q_Name q) ''PTR'' of
            Some up \<Rightarrow> up\<lparr>Id := Id r\<rparr> | None \<Rightarrow> m\<lparr>Rcode := RcodeNameError\<rparr>))
     else if Qtype q \<noteq> TypeA then m\<lparr>Rcode := RcodeNotImplemented\<rparr>
     else (case localA s m q name of (True, m) \<Rightarrow> m
        | (False, m) \<Rightarrow> (case forward lib s (profileFor sorder s name) (Q_Name q) ''A'' of
            Some up \<Rightarrow> (dns_rewrite s up)\<lparr>Id := Id r\<rparr> | None \<Rightarrow> m\<lparr>Rcode := RcodeNameError\<rparr>)))"

section \<open>Names\<close>

lemma norm_ends: "\<exists>x. norm n = x @ ''.'' \<and> ToLower x = x"
proof -
  have "ToLower (TrimSuffix (ToLower n) ''.'') = TrimSuffix (ToLower n) ''.''"
    by (simp add: TrimSuffix_def ToLower_take)
  then show ?thesis by (auto simp: norm_def)
qed

lemma norm_idem [simp]: "norm (norm n) = norm n"
proof -
  obtain x where x: "norm n = x @ ''.''" "ToLower x = x" using norm_ends by blast
  have "norm (x @ ''.'') = x @ ''.''" using x(2) by (simp add: norm_def ToLower_def lower_char_def)
  then show ?thesis by (simp add: x(1))
qed

section \<open>Address records\<close>

abbreviation leased :: "Server \<Rightarrow> Target \<Rightarrow> bool" where "leased s t \<equiv> IsValid (effective_of (effective s) t)"

lemma localA_find:
  "localA_loop ts s m q name = (case find (\<lambda>t. target_matches name t \<and> leased s t) ts of
       None \<Rightarrow> (False, m)
     | Some t \<Rightarrow> (True, m\<lparr>Authoritative := True, Answer := Answer m @ [A \<lparr>Name = Q_Name q, Rrtype = TypeA,
              RClass = ClassINET, Ttl = TTL\<rparr> (AsSlice (effective_of (effective s) t))]\<rparr>))"
  by (induction ts) simp_all

lemma index_target_frame:
  "targets (foldl index_target s ts) = targets s \<and> effective (foldl index_target s ts) = effective s
    \<and> query (foldl index_target s ts) = query s"
  by (induction ts arbitrary: s) (simp_all add: index_target_def Let_def)

lemma Dns_New_frame [simp]:
  "targets (Dns_New ts eff q) = ts" "effective (Dns_New ts eff q) = eff" "query (Dns_New ts eff q) = q"
  by (simp_all add: Dns_New_def index_target_frame)

text \<open>The reply every branch starts from.\<close>

definition base_reply :: "dns_lib \<Rightarrow> Msg \<Rightarrow> Msg" where
  "base_reply lib r = (if IsEdns0 lib r then SetEdns0 lib (SetReply lib r) else SetReply lib r)"

lemma ServeDNS_A:
  assumes "Question r = [q]" "Qtype q = TypeA"
  shows "ServeDNS lib ro so s r = (case localA s (base_reply lib r) q (norm (Q_Name q)) of (True, m) \<Rightarrow> m
        | (False, m) \<Rightarrow> (case forward lib s (profileFor so s (norm (Q_Name q))) (Q_Name q) ''A'' of
            Some up \<Rightarrow> (dns_rewrite s up)\<lparr>Id := Id r\<rparr> | None \<Rightarrow> m\<lparr>Rcode := RcodeNameError\<rparr>))"
  using assms by (simp add: ServeDNS_def Let_def base_reply_def)

text \<open>
  C23: MagicDNS names resolve to effective addresses: an A query for the name of a leased target, in any
  case and with or without the final dot, or for its first label alone, is answered authoritatively
  with that target's effective address (as long as the leased targets that match the name share it),
  whatever the upstream resolver and the map iteration orders are.
\<close>

theorem A_query_effective:
  assumes "Question r = [q]" "Qtype q = TypeA" "t \<in> set ts" "effective_of eff t = V4 e"
    "norm (Q_Name q) = norm (FQDN t) \<or> FQDN t \<noteq> [] \<and> norm (Q_Name q) = hd (Split (CHR ''.'') (norm (FQDN t))) @ ''.''"
    "\<forall>t' \<in> set ts. target_matches (norm (Q_Name q)) t' \<longrightarrow> IsValid (effective_of eff t') \<longrightarrow> effective_of eff t' = V4 e"
  shows "ServeDNS lib ro so (Dns_New ts eff qf) r = (base_reply lib r)\<lparr>Authoritative := True,
     Answer := Answer (base_reply lib r) @ [A \<lparr>Name = Q_Name q, Rrtype = TypeA, RClass = ClassINET, Ttl = 30\<rparr> (AsSlice (V4 e))]\<rparr>"
proof -
  let ?name = "norm (Q_Name q)"
  have dot: "CHR ''.'' \<notin> set (hd (Split (CHR ''.'') s))" for s
    by (induction s) (auto split: list.splits)
  then have "target_matches ?name t" using assms(5) by (auto simp: target_matches_def)
  then obtain t' where "find (\<lambda>t. target_matches ?name t \<and> IsValid (effective_of eff t)) ts = Some t'" "effective_of eff t' = V4 e"
    using find_same [of t ts "\<lambda>t. target_matches ?name t \<and> IsValid (effective_of eff t)" "effective_of eff", OF assms(3)] assms(4,6)
    unfolding IsValid_def by fastforce
  then show ?thesis
    by (simp add: ServeDNS_A [OF assms(1,2)] localA_def localA_find TTL_def del: AsSlice.simps)
qed

section \<open>Forwarded answers\<close>

lemma rewrite_fold:
  "foldl (rewrite_target s ip) (h, b) ts = (case find (\<lambda>t. CanonicalIP t = ip \<and> leased s t) (rev ts) of
       None \<Rightarrow> (h, b) | Some t \<Rightarrow> (h\<lparr>Ttl := min32 (Ttl h) TTL\<rparr>, AsSlice (effective_of (effective s) t)))"
proof (induction ts rule: rev_induct)
  case (snoc t ts)
  have "min32 (min32 x TTL) TTL = min32 x TTL" for x by (simp add: min32_def)
  then show ?case using snoc by (auto simp: rewrite_target_def Let_def split: option.splits)
qed simp

text \<open>
  C22: a forwarded answer never shows a canonical address that has an effective one: in every section
  of a rewritten message each A record either carries the effective address of a leased target, with a
  lifetime of at most 30 seconds, or is the upstream record, whose address no leased target has; other
  records and the message's flags are unchanged.
\<close>

theorem dns_rewrite_hides_canonical:
  assumes "r \<in> set (Answer (dns_rewrite s m)) \<union> set (Ns (dns_rewrite s m)) \<union> set (Extra (dns_rewrite s m))"
  shows "(\<exists>h b t. r = A h b \<and> t \<in> set (targets s) \<and> leased s t \<and> b = AsSlice (effective_of (effective s) t) \<and> Ttl h \<le> 30)
    \<or> r \<in> set (Answer m) \<union> set (Ns m) \<union> set (Extra m)
      \<and> (\<forall>h b a t. r = A h b \<longrightarrow> AddrFromSlice b = Some a \<longrightarrow> t \<in> set (targets s) \<longrightarrow> leased s t \<longrightarrow> CanonicalIP t \<noteq> a)"
proof -
  obtain r0 where r0: "r0 \<in> set (Answer m) \<union> set (Ns m) \<union> set (Extra m)" "r = rewrite_rr s r0"
    using assms by (auto simp: dns_rewrite_def)
  show ?thesis
  proof (cases "\<exists>h b ip t. r0 = A h b \<and> AddrFromSlice b = Some ip \<and> find (\<lambda>t. CanonicalIP t = ip \<and> leased s t) (rev (targets s)) = Some t")
    case True
    then obtain h b ip t where r0': "r0 = A h b" "AddrFromSlice b = Some ip" "find (\<lambda>t. CanonicalIP t = ip \<and> leased s t) (rev (targets s)) = Some t"
      by blast
    then have "t \<in> set (targets s)" "leased s t" by (auto dest!: find_Some_mem)
    moreover have "min32 (Ttl h) TTL \<le> 30" by (auto simp: min32_def TTL_def)
    ultimately show ?thesis using r0(2) r0' by (auto simp: rewrite_fold)
  next
    case False
    then have "r = r0"
      using r0(2) by (cases r0) (auto simp: rewrite_fold split: option.splits)
    moreover have "CanonicalIP t \<noteq> a" if "r = A h b" "AddrFromSlice b = Some a" "t \<in> set (targets s)" "leased s t" for h b a t
      using False that \<open>r = r0\<close> by (auto simp: find_None_iff)
    ultimately show ?thesis using r0(1) by blast
  qed
qed

section \<open>Reverse lookup\<close>

text \<open>
  What the server needs of the reverse-name function: names of different IPv4 addresses differ, also
  after normalisation.
\<close>

locale reverse_names =
  fixes rname :: "string \<Rightarrow> string"
  assumes rname_inject: "norm (rname (addr_String (V4 a))) = norm (rname (addr_String (V4 b))) \<Longrightarrow> a = b"
begin

text \<open>At most one entry of the reverse map answers a name, so the iteration order does not matter.\<close>

lemma ptr_unique:
  assumes "ReverseAddr lib = rname" "fmlookup (reverse s) (V4 e) = Some f" "V4 e \<in> set order"
    "\<And>a g. fmlookup (reverse s) a = Some g \<Longrightarrow> Is4 a" "name = norm (rname (addr_String (V4 e)))"
  shows "ptr lib order s m q name = (True, m\<lparr>Authoritative := True, Answer := Answer m @ [PTR \<lparr>Name = Q_Name q,
     Rrtype = TypePTR, RClass = ClassINET, Ttl = TTL\<rparr> f]\<rparr>)"
  using assms(3)
proof (induction order)
  case (Cons ip order)
  show ?case
  proof (cases "fmlookup (reverse s) ip")
    case None
    then show ?thesis using Cons assms(2) by auto
  next
    case (Some g)
    then obtain a where ip: "ip = V4 a" using assms(4) [OF Some] by (cases ip) auto
    show ?thesis
    proof (cases "a = e")
      case True
      then show ?thesis using assms(1,2,5) by (simp add: ip)
    next
      case False
      then have "norm (rname (addr_String ip)) \<noteq> name" using rname_inject [of a e] by (auto simp: ip assms(5))
      then show ?thesis using Cons Some False assms(1) by (auto simp: ip)
    qed
  qed
qed simp

end

text \<open>The reverse name of a dotted-decimal address, as \<open>profileForPTR\<close> reads it.\<close>

definition in_addr_arpa :: "string \<Rightarrow> string" where
  "in_addr_arpa s = Join (CHR ''.'') (rev (Split (CHR ''.'') s)) @ ''.in-addr.arpa.''"

lemma lower_digit: "is_digit c \<Longrightarrow> lower_char c = c"
  by (auto simp: is_digit_def lower_char_def Let_def less_eq_char_def)

lemma ToLower_dec [simp]: "ToLower (dec n) = dec n"
  using dec_digits [of n] by (simp add: ToLower_def lower_digit map_idI)

lemma norm_in_addr:
  assumes "IPv4BytesFromNum n = (a, b, c, d)"
  shows "norm (in_addr_arpa (addr_String (V4 n)))
    = dec (unat d) @ ''.'' @ dec (unat c) @ ''.'' @ dec (unat b) @ ''.'' @ dec (unat a) @ ''.in-addr.arpa.''"
proof -
  have "in_addr_arpa (addr_String (V4 n))
      = dec (unat d) @ ''.'' @ dec (unat c) @ ''.'' @ dec (unat b) @ ''.'' @ dec (unat a) @ ''.in-addr.arpa.''"
    using assms by (simp add: in_addr_arpa_def Split_string4)
  moreover have "norm (x @ ''.in-addr.arpa.'') = ToLower x @ ''.in-addr.arpa.''" for x
    using TrimSuffix_append [of "ToLower x @ ''.in-addr.arpa''" "''.''"] by (simp add: norm_def ToLower_def lower_char_def)
  moreover have "ToLower ''.'' = ''.''" by (simp add: ToLower_def lower_char_def)
  ultimately show ?thesis
    using \<open>\<And>x. norm (x @ ''.in-addr.arpa.'') = ToLower x @ ''.in-addr.arpa.''\<close>
      [of "dec (unat d) @ ''.'' @ dec (unat c) @ ''.'' @ dec (unat b) @ ''.'' @ dec (unat a)"]
    by (simp only: append_assoc ToLower_append ToLower_dec)
qed

interpretation in_addr: reverse_names in_addr_arpa
proof
  fix m n assume eq: "norm (in_addr_arpa (addr_String (V4 m))) = norm (in_addr_arpa (addr_String (V4 n)))"
  obtain a b c d where m: "IPv4BytesFromNum m = (a, b, c, d)" by (cases "IPv4BytesFromNum m")
  obtain a' b' c' d' where n: "IPv4BytesFromNum n = (a', b', c', d')" by (cases "IPv4BytesFromNum n")
  from eq have "Split (CHR ''.'') (dec (unat d) @ ''.'' @ dec (unat c) @ ''.'' @ dec (unat b) @ ''.'' @ dec (unat a) @ ''.in-addr.arpa.'')
    = Split (CHR ''.'') (dec (unat d') @ ''.'' @ dec (unat c') @ ''.'' @ dec (unat b') @ ''.'' @ dec (unat a') @ ''.in-addr.arpa.'')"
    by (simp only: norm_in_addr [OF m] norm_in_addr [OF n])
  then have "(a, b, c, d) = (a', b', c', d')" by (simp add: str_simps word_unat_eq_iff)
  then show "m = n" using m n by (metis IPv4NumFromBytes_BytesFromNum)
qed

lemma reverse_lookup:
  "fmlookup (reverse (foldl index_target s ts)) a =
    (case find (\<lambda>t. FQDN t \<noteq> [] \<and> IsValid (effective_of (effective s) t) \<and> effective_of (effective s) t = a) (rev ts) of
       None \<Rightarrow> fmlookup (reverse s) a | Some t \<Rightarrow> Some (norm (FQDN t)))"
proof (induction ts arbitrary: s)
  case (Cons t ts)
  have "effective (index_target s t) = effective s" by (simp add: index_target_def Let_def)
  moreover have "fmlookup (reverse (index_target s t)) a
      = (if FQDN t \<noteq> [] \<and> IsValid (effective_of (effective s) t) \<and> effective_of (effective s) t = a then Some (norm (FQDN t))
         else fmlookup (reverse s) a)"
    by (auto simp: index_target_def Let_def)
  ultimately show ?case using Cons.IH [of "index_target s t"] by (auto simp: find_append split: option.split)
qed simp

text \<open>
  Effective addresses have reverse names: when leases are IPv4 and targets that share one share
  their name, the PTR query for the reverse name of a target's effective address is answered
  authoritatively with the target's normalised name, in whatever order the server walks its map.
\<close>

lemma PTR_query_name:
  assumes "Question r = [q]" "Qtype q = TypePTR" "Q_Name q = ReverseAddr lib (addr_String (V4 e))"
    "ReverseAddr lib = in_addr_arpa" "t \<in> set ts" "FQDN t \<noteq> []" "effective_of eff t = V4 e"
    "\<forall>t' \<in> set ts. IsValid (effective_of eff t') \<longrightarrow> Is4 (effective_of eff t')"
    "\<forall>t' \<in> set ts. FQDN t' \<noteq> [] \<longrightarrow> effective_of eff t' = V4 e \<longrightarrow> norm (FQDN t') = norm (FQDN t)"
    "set order = fset (fmdom (reverse (Dns_New ts eff qf)))"
  shows "ServeDNS lib order so (Dns_New ts eff qf) r = (base_reply lib r)\<lparr>Authoritative := True,
     Answer := Answer (base_reply lib r) @ [PTR \<lparr>Name = Q_Name q, Rrtype = TypePTR, RClass = ClassINET, Ttl = 30\<rparr> (norm (FQDN t))]\<rparr>"
proof -
  let ?s = "Dns_New ts eff qf"
  have look: "fmlookup (reverse ?s) a =
    map_option (\<lambda>t. norm (FQDN t)) (find (\<lambda>t. FQDN t \<noteq> [] \<and> IsValid (effective_of eff t) \<and> effective_of eff t = a) (rev ts))" for a
    by (simp add: Dns_New_def reverse_lookup split: option.split)
  have "\<exists>t'. find (\<lambda>t. FQDN t \<noteq> [] \<and> IsValid (effective_of eff t) \<and> effective_of eff t = V4 e) (rev ts) = Some t'
      \<and> t' \<in> set (rev ts) \<and> norm (FQDN t') = norm (FQDN t)"
  proof (rule find_same)
    show "FQDN t \<noteq> [] \<and> IsValid (effective_of eff t) \<and> effective_of eff t = V4 e" using assms(6,7) by (simp add: IsValid_def)
    show "t \<in> set (rev ts)" using assms(5) by simp
  qed (use assms(9) in simp)
  then obtain t' where "find (\<lambda>t. FQDN t \<noteq> [] \<and> IsValid (effective_of eff t) \<and> effective_of eff t = V4 e) (rev ts) = Some t'"
    "norm (FQDN t') = norm (FQDN t)" by blast
  then have f: "fmlookup (reverse ?s) (V4 e) = Some (norm (FQDN t))" by (simp add: look)
  then have o: "V4 e \<in> set order" using assms(10) by (auto intro: fmdomI)
  have is4: "Is4 a" if "fmlookup (reverse ?s) a = Some g" for a g
    using that assms(8) by (auto simp: look dest!: find_Some_mem)
  have "ptr lib order ?s (base_reply lib r) q (norm (Q_Name q)) = (True, (base_reply lib r)\<lparr>Authoritative := True,
     Answer := Answer (base_reply lib r) @ [PTR \<lparr>Name = Q_Name q, Rrtype = TypePTR, RClass = ClassINET, Ttl = TTL\<rparr> (norm (FQDN t))]\<rparr>)"
    by (rule in_addr.ptr_unique [OF assms(4) f o is4]) (simp_all add: assms(3,4) del: addr_String.simps)
  then show ?thesis using assms(1,2) by (simp add: ServeDNS_def Let_def TTL_def flip: base_reply_def)
qed

section \<open>Examples\<close>

definition dns_target :: Target where
  "dns_target = \<lparr>ProfileID = ''work'', ProfileName = ''Work'', Order = 0, Kind = ''node'', ID = ''n1'', FQDN = ''Host.Tail.ts.net.'',
     Online = True, CanonicalIP = V4 1681915913\<rparr>"

definition dns_leases :: "(string, addr) fmap" where
  "dns_leases = fmap_of_list [(''work/node/n1/100.64.0.9'', V4 180355075)]"

definition plain_lib :: dns_lib where
  "plain_lib = \<lparr>SetReply = (\<lambda>r. r\<lparr>Rcode := 0, Answer := [], Ns := [], Extra := []\<rparr>), IsEdns0 = (\<lambda>_. False), SetEdns0 = (\<lambda>m. m),
     Unpack = (\<lambda>_. None), ReverseAddr = in_addr_arpa\<rparr>"

definition ask :: "string \<Rightarrow> u16 \<Rightarrow> Msg" where
  "ask n ty = \<lparr>Id = 7, Authoritative = False, Rcode = 0, Question = [\<lparr>Q_Name = n, Qtype = ty\<rparr>], Answer = [], Ns = [], Extra = []\<rparr>"

lemma dns_example_lease: "effective_of dns_leases dns_target = V4 180355075"
proof -
  have "target_Key dns_target = ''work/node/n1/100.64.0.9''" by code_simp
  then show ?thesis by (simp add: effective_of_def mapget_def dns_leases_def)
qed

theorem A_query_effective_witness:
  "Answer (ServeDNS plain_lib [] [] (Dns_New [dns_target] dns_leases None) (ask ''HOST'' TypeA))
     = [A \<lparr>Name = ''HOST'', Rrtype = TypeA, RClass = ClassINET, Ttl = 30\<rparr> (AsSlice (V4 180355075))]"
proof -
  have label: "FQDN dns_target \<noteq> [] \<and> norm ''HOST'' = hd (Split (CHR ''.'') (norm (FQDN dns_target))) @ ''.''" by code_simp
  have "ServeDNS plain_lib [] [] (Dns_New [dns_target] dns_leases None) (ask ''HOST'' TypeA)
    = (base_reply plain_lib (ask ''HOST'' TypeA))\<lparr>Authoritative := True, Answer := Answer (base_reply plain_lib (ask ''HOST'' TypeA))
        @ [A \<lparr>Name = Q_Name \<lparr>Q_Name = ''HOST'', Qtype = TypeA\<rparr>, Rrtype = TypeA, RClass = ClassINET, Ttl = 30\<rparr> (AsSlice (V4 180355075))]\<rparr>"
    by (rule A_query_effective [where t = dns_target]) (use label in \<open>simp_all add: ask_def dns_example_lease\<close>)
  then show ?thesis by (simp add: base_reply_def plain_lib_def ask_def del: AsSlice.simps)
qed

theorem dns_rewrite_hides_canonical_witness:
  "\<exists>h b. A h b \<in> set (Answer (dns_rewrite (Dns_New [dns_target] dns_leases None)
     ((ask ''h'' TypeA)\<lparr>Answer := [A \<lparr>Name = ''h'', Rrtype = TypeA, RClass = ClassINET, Ttl = 600\<rparr> (AsSlice (V4 1681915913))]\<rparr>))) \<and> Ttl h \<le> 30"
proof -
  let ?s = "Dns_New [dns_target] dns_leases None"
  let ?m = "(ask ''h'' TypeA)\<lparr>Answer := [A \<lparr>Name = ''h'', Rrtype = TypeA, RClass = ClassINET, Ttl = 600\<rparr> (AsSlice (V4 1681915913))]\<rparr>"
  have c: "CanonicalIP dns_target = V4 1681915913" by (simp add: dns_target_def)
  have "rewrite_rr ?s (A x (AsSlice (V4 1681915913))) = A (x\<lparr>Ttl := min32 (Ttl x) TTL\<rparr>) (AsSlice (V4 180355075))" for x
    by (simp add: rewrite_target_def c dns_example_lease IsValid_def Let_def del: AsSlice.simps AddrFromSlice.simps)
  then obtain h b where r: "Answer (dns_rewrite ?s ?m) = [A h b]" "Ns (dns_rewrite ?s ?m) = []" "Extra (dns_rewrite ?s ?m) = []" "b = AsSlice (V4 180355075)"
    by (simp add: dns_rewrite_def ask_def del: AsSlice.simps rewrite_rr.simps)
  have "b \<noteq> AsSlice (V4 1681915913)" 
  proof
    assume "b = AsSlice (V4 1681915913)"
    then have "AddrFromSlice (AsSlice (V4 180355075)) = AddrFromSlice (AsSlice (V4 1681915913))" using r(4) by metis
    then show False unfolding AddrFromSlice_AsSlice4 by simp
  qed
  then show ?thesis
    using dns_rewrite_hides_canonical [of "A h b" ?s ?m] r by (auto simp: ask_def simp del: AsSlice.simps)
qed

end
