(* ===== verification/Control.thy ===== *)
theory Control
  imports Prelude
begin

text \<open>
  \<^verbatim>\<open>internal/control/server_linux.go\<close>: the root-owned Unix socket that accepts management requests.

  A connection is a record of what the kernel and the peer supply: the peer credentials, the content
  of the peer's \<^verbatim>\<open>/proc\<close> status file, the bytes it sends and which socket calls succeed. JSON decoding
  is an argument (bytes to request); the handler is a function on a state of its own, so that the
  requests that reach it are visible. The accept loop with its 64 slots is a step relation.
\<close>

section \<open>Data\<close>

record Request =
  Op :: string
  Req_Profile :: string
  AuthKey :: string
  ConfigYAML :: string

record 'r Response =
  OK :: bool
  Error :: string
  Result :: "'r option"
  Restart :: bool

record Caller =
  UID :: u32
  GID :: u32
  PID :: "32 word"
  Root :: bool

record Ucred =
  cred_uid :: u32
  cred_gid :: u32
  cred_pid :: "32 word"

record Conn =
  syscall_conn :: bool
  peercred :: "Ucred option"
  proc_status :: "string option"
  deadline_ok :: "nat \<Rightarrow> bool"
  incoming :: bytes

section \<open>Operations\<close>

definition validRequest :: "Request \<Rightarrow> bool" where
  "validRequest r =
    (if length (Op r) = 0 \<or> 32 < length (Op r) \<or> 256 < length (Req_Profile r) then False
     else if 16384 < length (AuthKey r) \<or> 1048576 < length (ConfigYAML r) then False
     else if AuthKey r \<noteq> [] \<and> Op r \<noteq> ''login'' then False
     else if ConfigYAML r \<noteq> [] \<and> Op r \<noteq> ''config_write'' then False
     else True)"

text \<open>\<^verbatim>\<open>strings.Fields\<close> on ASCII white space, and \<^verbatim>\<open>strconv.ParseUint(g, 10, 32)\<close>.\<close>

definition is_space :: "char \<Rightarrow> bool" where
  "is_space c \<longleftrightarrow> c = CHR '' '' \<or> 9 \<le> (of_char c :: nat) \<and> (of_char c :: nat) \<le> 13"

fun Fields_loop :: "string \<Rightarrow> string \<Rightarrow> string list" where
  "Fields_loop acc [] = (if acc = [] then [] else [rev acc])"
| "Fields_loop acc (c # cs) =
     (if is_space c then (if acc = [] then Fields_loop [] cs else rev acc # Fields_loop [] cs)
      else Fields_loop (c # acc) cs)"

definition Fields :: "string \<Rightarrow> string list" where "Fields s = Fields_loop [] s"

definition ParseUint32 :: "string \<Rightarrow> nat option" where
  "ParseUint32 s = (if s = [] \<or> \<not> list_all is_digit s then None
     else if undec s < 2 ^ 32 then Some (undec s) else None)"

definition in_groups :: "u32 \<Rightarrow> string \<Rightarrow> bool" where
  "in_groups gid status = list_ex (\<lambda>line. HasPrefix line ''Groups:''
     \<and> list_ex (\<lambda>g. case ParseUint32 g of None \<Rightarrow> False | Some n \<Rightarrow> word_of_nat n = gid) (Fields (drop 7 line)))
     (Split (CHR 0x0A) status)"

definition authorized :: "Conn \<Rightarrow> u32 \<Rightarrow> Caller option" where
  "authorized c gid = (if \<not> syscall_conn c then None
     else case peercred c of None \<Rightarrow> None
     | Some cr \<Rightarrow>
       let caller = \<lparr>UID = cred_uid cr, GID = cred_gid cr, PID = cred_pid cr, Root = (cred_uid cr = 0)\<rparr> in
       if Root caller \<or> cred_gid cr = gid then Some caller
       else case proc_status c of None \<Rightarrow> None
         | Some b \<Rightarrow> if in_groups gid b then Some caller else None)"

text \<open>
  \<open>handle\<close> returns the response written to the peer, if any, and the handler's state. \<open>deadline_ok i\<close>
  says whether the \<open>i\<close>-th deadline call succeeds.
\<close>

definition handle :: "(bytes \<Rightarrow> Request option) \<Rightarrow> (Caller \<Rightarrow> Request \<Rightarrow> 's \<Rightarrow> 'r Response \<times> 's) \<Rightarrow> u32 \<Rightarrow> Conn \<Rightarrow> 's
    \<Rightarrow> 'r Response option \<times> 's" where
  "handle decode handler gid c s = (case authorized c gid of None \<Rightarrow> (None, s)
   | Some caller \<Rightarrow>
     if \<not> deadline_ok c 0 then (None, s)
     else case decode (take 1048576 (incoming c)) of None \<Rightarrow> (None, s)
     | Some r \<Rightarrow>
       if \<not> validRequest r then (None, s)
       else if \<not> deadline_ok c 1 then (None, s)
       else case handler caller r s of (out, s') \<Rightarrow>
         if \<not> deadline_ok c 2 then (None, s') else (Some out, s'))"

text \<open>
  \<open>Listen\<close>: the calls, in order, are making the directory, removing a stale socket, listening, setting
  the mode and setting the owner; \<open>fault i\<close> says that call \<open>i\<close> fails. The result is the mode and the group of
  the socket that is left listening, or \<open>None\<close> when the call fails and nothing listens.
\<close>

record SocketServer =
  sock_mode :: nat
  sock_gid :: u32
  sem :: nat

definition Listen :: "(nat \<Rightarrow> bool) \<Rightarrow> u32 \<Rightarrow> SocketServer option" where
  "Listen fault gid = (if fault 0 then None else if fault 1 then None else if fault 2 then None
     else if fault 3 then None else if fault 4 then None
     else Some \<lparr>sock_mode = 432, sock_gid = gid, sem = 0\<rparr>)"

text \<open>
  One turn of the accept loop on a new connection (whether it is served), and the end of a served one.
\<close>

definition accept :: "SocketServer \<Rightarrow> bool \<times> SocketServer" where
  "accept s = (if sem s < 64 then (True, s\<lparr>sem := sem s + 1\<rparr>) else (False, s))"

definition release :: "SocketServer \<Rightarrow> SocketServer" where
  "release s = s\<lparr>sem := sem s - 1\<rparr>"

text \<open>
  Closing stops the accept loop and waits for the served connections: the call returns (the error of
  closing the listener) only when none is left, and blocks (\<open>None\<close>) before.
\<close>

definition Control_Close :: "bool \<Rightarrow> SocketServer \<Rightarrow> bool option" where
  "Control_Close close_ok s = (if sem s = 0 then Some close_ok else None)"

datatype client_error = DialError | EncodeError | DecodeError | Remote string

text \<open>\<open>answer\<close> is the decoded reply that the peer sends to a request.\<close>

definition ClientRequest :: "bool \<Rightarrow> bool \<Rightarrow> (Request \<Rightarrow> 'r Response option) \<Rightarrow> Request \<Rightarrow> client_error + 'r Response" where
  "ClientRequest dial_ok encode_ok answer req =
    (if \<not> dial_ok then Inl DialError else if \<not> encode_ok then Inl EncodeError
     else case answer req of None \<Rightarrow> Inl DecodeError
       | Some r \<Rightarrow> if \<not> OK r then Inl (Remote (Error r)) else Inr r)"

definition Client :: "bool \<Rightarrow> bool \<Rightarrow> (Request \<Rightarrow> 'r Response option) \<Rightarrow> string \<Rightarrow> client_error + 'r Response" where
  "Client dial_ok encode_ok answer op = ClientRequest dial_ok encode_ok answer \<lparr>Op = op, Req_Profile = [], AuthKey = [], ConfigYAML = []\<rparr>"

section \<open>Who reaches the handler\<close>

text \<open>A peer the daemon trusts: root, the management group as primary group, or as a supplementary one.\<close>

definition trusted :: "u32 \<Rightarrow> Conn \<Rightarrow> bool" where
  "trusted gid c \<longleftrightarrow> (\<exists>cr. peercred c = Some cr \<and> (cred_uid cr = 0 \<or> cred_gid cr = gid
     \<or> (\<exists>b line g. proc_status c = Some b \<and> line \<in> set (Split (CHR 0x0A) b) \<and> HasPrefix line ''Groups:''
          \<and> g \<in> set (Fields (drop 7 line)) \<and> ParseUint32 g = Some (unat gid))))"

lemma in_groups_iff:
  "in_groups gid b \<longleftrightarrow> (\<exists>line g. line \<in> set (Split (CHR 0x0A) b) \<and> HasPrefix line ''Groups:''
      \<and> g \<in> set (Fields (drop 7 line)) \<and> ParseUint32 g = Some (unat gid))"
proof -
  have "word_of_nat n = gid \<longleftrightarrow> n = unat gid" if "n < 2 ^ 32" for n
    using that by (simp add: word_unat_eq_iff unsigned_of_nat take_bit_nat_eq_self)
  moreover have "unat gid < 2 ^ 32" using unat_u32_lt [of gid] by simp
  ultimately have "(case ParseUint32 g of None \<Rightarrow> False | Some n \<Rightarrow> word_of_nat n = gid) \<longleftrightarrow> ParseUint32 g = Some (unat gid)" for g
    by (auto simp: ParseUint32_def)
  then show ?thesis by (auto simp: in_groups_def list_ex_iff)
qed

lemma trusted_iff:
  "trusted gid c \<longleftrightarrow> (\<exists>cr. peercred c = Some cr \<and> (cred_uid cr = 0 \<or> cred_gid cr = gid
     \<or> (\<exists>b. proc_status c = Some b \<and> in_groups gid b)))"
  unfolding trusted_def in_groups_iff by blast

lemma authorized_trusted:
  "authorized c gid = Some caller \<Longrightarrow> trusted gid c \<and> (\<exists>cr. peercred c = Some cr \<and> UID caller = cred_uid cr
     \<and> GID caller = cred_gid cr \<and> (Root caller \<longleftrightarrow> cred_uid cr = 0))"
  by (auto simp: authorized_def trusted_iff Let_def split: if_splits option.splits)

text \<open>
  C21: the control socket is a gate: unless the peer is root or in the management group by the kernel's
  account, and its request is well formed (bounded fields, an auth key only for login, a
  configuration only for \<^verbatim>\<open>config_write\<close>), the handler is not run and nothing is answered; when it is
  run, the caller it sees has the peer's credentials, and is marked root exactly for user 0.
\<close>

theorem control_gate:
  assumes "handle decode handler gid c s = (out, s')" "out \<noteq> None \<or> s' \<noteq> s"
  shows "trusted gid c \<and> (\<exists>r caller cr res. decode (take 1048576 (incoming c)) = Some r \<and> validRequest r
    \<and> peercred c = Some cr \<and> UID caller = cred_uid cr \<and> GID caller = cred_gid cr \<and> (Root caller \<longleftrightarrow> cred_uid cr = 0)
    \<and> handler caller r s = (res, s') \<and> (out = None \<or> out = Some res)
    \<and> (AuthKey r \<noteq> [] \<longrightarrow> Op r = ''login'') \<and> (ConfigYAML r \<noteq> [] \<longrightarrow> Op r = ''config_write''))"
proof -
  obtain caller r where c: "authorized c gid = Some caller" "decode (take 1048576 (incoming c)) = Some r" "validRequest r"
    "s' = snd (handler caller r s)" "out = None \<or> out = Some (fst (handler caller r s))"
    using assms by (auto simp: handle_def split: option.splits if_splits prod.splits)
  moreover have "(AuthKey r \<noteq> [] \<longrightarrow> Op r = ''login'') \<and> (ConfigYAML r \<noteq> [] \<longrightarrow> Op r = ''config_write'')"
    using c(3) by (auto simp: validRequest_def split: if_splits)
  moreover have "handler caller r s = (fst (handler caller r s), s')" using c(4) by simp
  ultimately show ?thesis using authorized_trusted [OF c(1)] by blast
qed

text \<open>A trusted peer with a valid request is served when the socket calls succeed.\<close>

lemma trusted_served:
  assumes "trusted gid c" "syscall_conn c" "decode (take 1048576 (incoming c)) = Some r" "validRequest r" "\<And>i. deadline_ok c i"
  shows "\<exists>caller. handle decode handler gid c s = (Some (fst (handler caller r s)), snd (handler caller r s))"
proof -
  have "authorized c gid \<noteq> None"
    using assms(1,2) by (cases "peercred c"; cases "proc_status c") (auto simp: authorized_def trusted_iff Let_def)
  then obtain caller where "authorized c gid = Some caller" by blast
  then show ?thesis using assms(3-5) by (intro exI [of _ caller]) (auto simp: handle_def split: prod.splits)
qed

section \<open>Connections\<close>

text \<open>The server with the multiset of connections being served, as a count.\<close>

inductive served :: "SocketServer \<Rightarrow> nat \<Rightarrow> bool" where
  listen: "Listen fault gid = Some s \<Longrightarrow> served s 0"
| taken: "served s n \<Longrightarrow> accept s = (True, s') \<Longrightarrow> served s' (Suc n)"
| refused: "served s n \<Longrightarrow> accept s = (False, s') \<Longrightarrow> served s' n"
| finished: "served s (Suc n) \<Longrightarrow> served (release s) n"

lemma served_inv: "served s n \<Longrightarrow> sem s = n \<and> n \<le> 64 \<and> sock_mode s = 432"
  by (induction rule: served.induct) (auto simp: Listen_def accept_def release_def split: if_splits)

text \<open>
  The socket is group-only (mode 0660) from the moment \<open>Listen\<close> returns, at most 64 requests are
  served at a time, a connection is refused only when exactly 64 are, and a finished one makes room.
\<close>

lemma connections_bounded:
  assumes "served s n"
  shows "n \<le> 64 \<and> sock_mode s = 432 \<and> (fst (accept s) \<longleftrightarrow> n < 64) \<and> (0 < n \<longrightarrow> fst (accept (release s)))"
  using served_inv [OF assms] by (auto simp: accept_def release_def)

section \<open>Examples\<close>

definition root_conn :: Conn where
  "root_conn = \<lparr>syscall_conn = True, peercred = Some \<lparr>cred_uid = 0, cred_gid = 0, cred_pid = 1\<rparr>, proc_status = None,
     deadline_ok = (\<lambda>_. True), incoming = []\<rparr>"

definition status_request :: Request where
  "status_request = \<lparr>Op = ''status'', Req_Profile = [], AuthKey = [], ConfigYAML = []\<rparr>"

text \<open>A member of group 1001 through the supplementary groups of its status file.\<close>

lemma group_member: "in_groups 1001 (''Name:\<newline>Groups:\<newline>'' @ ''Groups: 4 1001 '')"
  by (simp add: in_groups_def Fields_def is_space_def ParseUint32_def is_digit_def HasPrefix_def undec_def digit_val_def) 

theorem control_gate_witness:
  "trusted 5 root_conn"
  using control_gate [of "\<lambda>_. Some status_request" "\<lambda>_ _ s. (\<lparr>OK = True, Error = [], Result = None, Restart = False\<rparr>, s :: nat)"
      5 root_conn 0 "Some \<lparr>OK = True, Error = [], Result = None, Restart = False\<rparr>" 0]
  by (simp add: handle_def authorized_def root_conn_def validRequest_def status_request_def)

end
