(* ===== verification/Store.thy ===== *)
theory Store
  imports Prelude
begin

text \<open>
  \<^verbatim>\<open>internal/state/store.go\<close>: the SQLite store of leases.

  The state root is a map from file names to files; a database file is its two tables or unreadable.
  The SQL statements of the code act on the tables as the SQL standard says; every call into the
  operating system or the database can fail (\<open>fault i\<close> for the \<open>i\<close>-th call, in program order). A store
  handle is the tables of the open database.

  The locale \<open>key_value\<close> is the contract of \<open>Put\<close> and \<open>Leases\<close> that the supervisor relies on.
\<close>

section \<open>Data\<close>

record DB =
  meta :: "(string, string) fmap"
  leases_tbl :: "(string, string) fmap"

datatype dbfile = Database DB | Unreadable bytes

type_synonym dir = "(string, dbfile) fmap"

datatype store_error = Failed | CorruptAndRecreationFailed

section \<open>Operations\<close>

definition db_name :: string where "db_name = ''runtime.db''"

definition empty_db :: DB where "empty_db = \<lparr>meta = fmempty, leases_tbl = fmempty\<rparr>"

text \<open>Opening the database file and creating the missing tables.\<close>

definition exec_schema :: "dir \<Rightarrow> DB option" where
  "exec_schema d = (case fmlookup d db_name of None \<Rightarrow> Some empty_db | Some (Database db) \<Rightarrow> Some db | Some (Unreadable _) \<Rightarrow> None)"

definition Open :: "(nat \<Rightarrow> bool) \<Rightarrow> string \<Rightarrow> dir \<Rightarrow> (store_error + DB \<times> bool) \<times> dir" where
  "Open fault cidr d = (if fault 0 \<or> fault 1 then (Inl Failed, d)
   else case exec_schema d of None \<Rightarrow> (Inl Failed, d)
   | Some db \<Rightarrow>
     if fault 2 then (Inl Failed, d)
     else let d1 = fmupd db_name (Database db) d in
     if fault 3 then (Inl Failed, d1)
     else let changed = (case fmlookup (meta db) ''cidr'' of None \<Rightarrow> False | Some old \<Rightarrow> old \<noteq> cidr) in
     if changed \<and> fault 4 then (Inl Failed, d1)
     else let db2 = (if changed then db\<lparr>leases_tbl := fmempty\<rparr> else db); d2 = fmupd db_name (Database db2) d1 in
     if fault 5 then (Inl Failed, d2)
     else let db3 = db2\<lparr>meta := fmupd ''cidr'' cidr (meta db2)\<rparr> in
       (Inr (db3, changed), fmupd db_name (Database db3) d2))"

text \<open>Moving one file out of the way; a file that is not there, or whose renaming fails, stays.\<close>

definition set_aside :: "(nat \<Rightarrow> bool) \<Rightarrow> string \<Rightarrow> nat \<Rightarrow> string \<Rightarrow> dir \<Rightarrow> dir" where
  "set_aside fault stamp i x d = (case fmlookup d x of None \<Rightarrow> d
     | Some f \<Rightarrow> if fault i then d else fmupd (x @ ''.corrupt-'' @ stamp) f (fmdrop x d))"

definition OpenRecovering :: "(nat \<Rightarrow> bool) \<Rightarrow> (nat \<Rightarrow> bool) \<Rightarrow> (nat \<Rightarrow> bool) \<Rightarrow> string \<Rightarrow> string \<Rightarrow> dir
    \<Rightarrow> (store_error + DB \<times> bool) \<times> dir" where
  "OpenRecovering fault1 faultr fault2 stamp cidr d = (case Open fault1 cidr d of
     (Inr r, d1) \<Rightarrow> (Inr r, d1)
   | (Inl _, d1) \<Rightarrow>
     let d2 = set_aside faultr stamp 0 ''runtime.db'' d1;
         d2 = set_aside faultr stamp 1 ''runtime.db-wal'' d2;
         d2 = set_aside faultr stamp 2 ''runtime.db-shm'' d2 in
     (case Open fault2 cidr d2 of
        (Inl _, d3) \<Rightarrow> (Inl CorruptAndRecreationFailed, d3)
      | (Inr (db, _), d3) \<Rightarrow> (Inr (db, True), d3)))"

definition Leases :: "bool \<Rightarrow> DB \<Rightarrow> store_error + (string, string) fmap" where
  "Leases ok db = (if ok then Inr (leases_tbl db) else Inl Failed)"

definition Put :: "bool \<Rightarrow> string \<Rightarrow> string \<Rightarrow> DB \<Rightarrow> store_error option \<times> DB" where
  "Put ok k ip db = (if ok then (None, db\<lparr>leases_tbl := fmupd k ip (leases_tbl db)\<rparr>) else (Some Failed, db))"

section \<open>The contract of the lease table\<close>

locale key_value =
  fixes put :: "bool \<Rightarrow> string \<Rightarrow> string \<Rightarrow> 's \<Rightarrow> 'e option \<times> 's"
    and all :: "bool \<Rightarrow> 's \<Rightarrow> 'e + (string, string) fmap"
  assumes put_all: "put True k v s = (None, s') \<Longrightarrow> all True s = Inr m \<Longrightarrow> all True s' = Inr (fmupd k v m)"
    and put_fails: "put False k v s = (r, s') \<Longrightarrow> r \<noteq> None \<and> s' = s"
    and put_ok: "fst (put True k v s) = None"
    and all_ok: "\<exists>m. all True s = Inr m"
begin

text \<open>Storing a list of pairs, one call after the other, as long as calls succeed.\<close>

fun put_list :: "(string \<times> string) list \<Rightarrow> 's \<Rightarrow> 's" where
  "put_list [] s = s"
| "put_list ((k, v) # kvs) s = put_list kvs (snd (put True k v s))"

lemma put_list_all:
  "all True s = Inr m \<Longrightarrow> all True (put_list kvs s) = Inr (foldl (\<lambda>m (k, v). fmupd k v m) m kvs)"
proof (induction kvs arbitrary: s m)
  case (Cons kv kvs)
  obtain k v where kv: "kv = (k, v)" by fastforce
  have "put True k v s = (None, snd (put True k v s))" using put_ok [of k v s] by (simp add: prod_eq_iff)
  from put_all [OF this Cons.prems] show ?case using Cons.IH by (simp add: kv)
qed simp

end

interpretation sql: key_value Put Leases
  by unfold_locales (auto simp: Put_def Leases_def)

section \<open>Opening\<close>

lemma exec_schema_Some: "exec_schema d = Some db \<longleftrightarrow> fmlookup d db_name = Some (Database db) \<or> fmlookup d db_name = None \<and> db = empty_db"
  by (auto simp: exec_schema_def split: option.splits dbfile.splits)

lemma Open_Inr:
  assumes "Open fault cidr d = (Inr (db, changed), d')"
  obtains db0 where "exec_schema d = Some db0" "changed \<longleftrightarrow> (\<exists>old. fmlookup (meta db0) ''cidr'' = Some old \<and> old \<noteq> cidr)"
    "leases_tbl db = (if changed then fmempty else leases_tbl db0)" "fmlookup (meta db) ''cidr'' = Some cidr"
    "d' = fmupd db_name (Database db) d"
  using assms by (auto simp: Open_def Let_def split: if_splits option.splits intro!: that fmap_ext)

text \<open>
  Opening the store yields the persisted leases of the same pool and only those: after a successful
  \<open>Open\<close> the file holds the tables of the handle, the pool's CIDR is recorded, and the leases are the
  stored ones, unless the recorded CIDR was another one; then, and only then, they are gone and the
  change is reported.
\<close>

lemma Open_keeps_leases:
  assumes "Open fault cidr d = (Inr (db, changed), d')"
  shows "fmlookup d' db_name = Some (Database db) \<and> fmlookup (meta db) ''cidr'' = Some cidr
    \<and> (\<forall>db0. fmlookup d db_name = Some (Database db0) \<longrightarrow>
         (changed \<longleftrightarrow> fmlookup (meta db0) ''cidr'' \<notin> {None, Some cidr})
         \<and> leases_tbl db = (if changed then fmempty else leases_tbl db0))
    \<and> (fmlookup d db_name = None \<longrightarrow> \<not> changed \<and> leases_tbl db = fmempty)
    \<and> (\<forall>x. x \<noteq> db_name \<longrightarrow> fmlookup d' x = fmlookup d x)"
  using assms
proof (rule Open_Inr)
  fix db0 assume a: "exec_schema d = Some db0" "changed \<longleftrightarrow> (\<exists>old. fmlookup (meta db0) ''cidr'' = Some old \<and> old \<noteq> cidr)"
    "leases_tbl db = (if changed then fmempty else leases_tbl db0)" "fmlookup (meta db) ''cidr'' = Some cidr"
    "d' = fmupd db_name (Database db) d"
  show ?thesis using a(1) [unfolded exec_schema_Some] a(2-5) by (auto simp: empty_db_def)
qed

section \<open>Recovery\<close>

lemma Open_Inl:
  assumes "Open fault cidr d = (Inl e, d')" "fmlookup d db_name = Some f"
  shows "\<exists>f'. fmlookup d' db_name = Some f' \<and> (f' = f \<or> (\<exists>db. f = Database db \<and> f' = Database (db\<lparr>leases_tbl := fmempty\<rparr>)
    \<and> fmlookup (meta db) ''cidr'' \<notin> {None, Some cidr}))"
  using assms unfolding Open_def Let_def
  by (cases f) (auto simp: exec_schema_def split: if_splits option.splits)

text \<open>A file still holds the data of another: the same bytes if unreadable, the same leases if a database.\<close>

fun holds :: "dbfile \<Rightarrow> dbfile \<Rightarrow> bool" where
  "holds (Unreadable b) f' \<longleftrightarrow> f' = Unreadable b"
| "holds (Database db) f' \<longleftrightarrow> (\<exists>db'. f' = Database db' \<and> leases_tbl db' = leases_tbl db)"

lemma holds_trans: "holds f g \<Longrightarrow> holds g h \<Longrightarrow> holds f h"
  by (cases f) auto

lemma holds_refl [simp]: "holds f f"
  by (cases f) auto

abbreviation same_pool :: "string \<Rightarrow> dbfile \<Rightarrow> bool" where
  "same_pool cidr f \<equiv> \<forall>db. f = Database db \<longrightarrow> fmlookup (meta db) ''cidr'' \<in> {None, Some cidr}"

lemma Open_holds:
  assumes "Open fault cidr d = (r, d')" "fmlookup d db_name = Some f" "same_pool cidr f"
  shows "\<exists>f'. fmlookup d' db_name = Some f' \<and> holds f f'" "x \<noteq> db_name \<Longrightarrow> fmlookup d' x = fmlookup d x"
  using assms unfolding Open_def Let_def
  by (cases f; auto simp: exec_schema_def split: if_splits option.splits)+

lemma Open_other: "Open fault cidr d = (r, d') \<Longrightarrow> x \<noteq> db_name \<Longrightarrow> fmlookup d' x = fmlookup d x"
  unfolding Open_def Let_def by (auto split: if_splits option.splits)

text \<open>
  C26: recovery loses nothing: whatever calls fail and when, after \<open>OpenRecovering\<close> the data of the
  database file that was there (all of it if it was unreadable, its leases if it was a readable
  database of the same pool) is in the database file or in the file it was set aside to; and if no
  call fails while recovering, the store opens, reporting that it was reset.
\<close>

theorem recovery_loses_nothing:
  assumes "fmlookup d db_name = Some f" "same_pool cidr f" "OpenRecovering fault1 faultr fault2 stamp cidr d = (r, d')"
  shows "(\<exists>x f'. x \<in> {db_name, db_name @ ''.corrupt-'' @ stamp} \<and> fmlookup d' x = Some f' \<and> holds f f')
    \<and> ((\<forall>i. \<not> faultr i \<and> \<not> fault2 i) \<longrightarrow> (\<exists>db changed. r = Inr (db, changed)))"
proof -
  obtain r1 d1 where o1: "Open fault1 cidr d = (r1, d1)" by fastforce
  from Open_holds(1) [OF o1 assms(1,2)] obtain f1 where f1: "fmlookup d1 db_name = Some f1" "holds f f1" by blast
  show ?thesis
  proof (cases r1)
    case (Inr x)
    with assms(3) o1 f1 show ?thesis by (auto simp: OpenRecovering_def)
  next
    case (Inl e)
    define d2 where "d2 = set_aside faultr stamp 2 ''runtime.db-shm''
      (set_aside faultr stamp 1 ''runtime.db-wal'' (set_aside faultr stamp 0 ''runtime.db'' d1))"
    obtain r3 d3 where o3: "Open fault2 cidr d2 = (r3, d3)" by fastforce
    have r: "d' = d3" "r = (case r3 of Inl _ \<Rightarrow> Inl CorruptAndRecreationFailed | Inr (db, _) \<Rightarrow> Inr (db, True))"
      using assms(3) o1 o3 Inl by (auto simp: OpenRecovering_def d2_def Let_def split: sum.splits)
    have d2: "if faultr 0 then fmlookup d2 db_name = Some f1
        else fmlookup d2 (db_name @ ''.corrupt-'' @ stamp) = Some f1 \<and> fmlookup d2 db_name = None"
      using f1(1) by (auto simp: d2_def set_aside_def db_name_def split: option.splits)
    have pool: "same_pool cidr f1"
      using o1 assms(1,2) f1(1) unfolding Open_def Let_def Inl
      by (cases f; auto simp: exec_schema_def split: if_splits option.splits)
    have kept: "\<exists>x f'. x \<in> {db_name, db_name @ ''.corrupt-'' @ stamp} \<and> fmlookup d3 x = Some f' \<and> holds f1 f'"
    proof (cases "faultr 0")
      case True
      with d2 Open_holds(1) [OF o3 _ pool] show ?thesis by auto
    next
      case False
      with d2 Open_other [OF o3, of "db_name @ ''.corrupt-'' @ stamp"] show ?thesis by auto
    qed
    have "\<exists>db changed. r3 = Inr (db, changed)" if "\<forall>i. \<not> faultr i \<and> \<not> fault2 i"
      using that d2 o3 by (auto simp: Open_def Let_def exec_schema_def split: if_splits option.splits)
    moreover have "r = Inr (db, True)" if "r3 = Inr (db, changed)" for db changed using that by (simp add: r(2))
    ultimately have "(\<forall>i. \<not> faultr i \<and> \<not> fault2 i) \<longrightarrow> (\<exists>db changed. r = Inr (db, changed))" by blast
    then show ?thesis using kept holds_trans [OF f1(2)] r(1) by blast
  qed
qed

section \<open>Examples\<close>

theorem recovery_loses_nothing_witness:
  "\<exists>r d' x f'. OpenRecovering (\<lambda>_. False) (\<lambda>_. False) (\<lambda>_. False) ''S'' ''10.0.0.0/8'' (fmupd db_name (Unreadable [1]) fmempty) = (r, d')
     \<and> x \<in> {db_name, db_name @ ''.corrupt-'' @ ''S''} \<and> fmlookup d' x = Some f' \<and> holds (Unreadable [1]) f'"
proof -
  obtain r d' where "OpenRecovering (\<lambda>_. False) (\<lambda>_. False) (\<lambda>_. False) ''S'' ''10.0.0.0/8'' (fmupd db_name (Unreadable [1]) fmempty) = (r, d')"
    by fastforce
  with recovery_loses_nothing [OF _ _ this, of "Unreadable [1]"] show ?thesis by fastforce
qed

end
