(* ===== verification/Supervisor.thy ===== *)
theory Supervisor
  imports Allocator Config Store Mux
begin

text \<open>
  \<^verbatim>\<open>internal/runtime/supervisor.go\<close>: the life cycle of the embedded profiles and the views the daemon
  derives from them.

  The embedded Tailscale node (tsnet, LocalAPI) is third-party code: what its calls return is an
  argument of each operation (\<open>refresh_in\<close>, \<open>start_env\<close>, \<dots>). A Go map that is iterated (peers, services,
  persisted leases) is given as a list in iteration order. The change channel of capacity one is the
  flag \<open>changes\<close>; goroutines are represented by the operations they run: each event a watcher
  handles is one operation on the supervisor.
\<close>

section \<open>Data\<close>

record PeerStatus =
  peer_id :: string
  peer_dns :: string
  peer_online :: bool
  peer_ips :: "addr list"

record IpnStatus =
  BackendState :: string
  TailscaleIPs :: "addr list"
  Peers :: "PeerStatus list"
  self_dns :: "string option"

record ProfileStatus =
  St_ID :: string
  St_Name :: string
  St_Hostname :: string
  State :: string
  IPs :: "addr list"
  DNSName :: string
  PeerCount :: nat
  St_Error :: string

record sprofile =
  p_cfg :: Profile
  p_tun :: tun_id
  p_open :: bool
  p_status :: ProfileStatus
  p_targets :: "Target list"

record Supervisor =
  s_cfg :: Config
  s_root :: string
  s_profiles :: "sprofile list"
  s_store :: DB
  s_store_open :: bool
  s_changes :: bool
  s_cancelled :: bool
  s_devices :: "(tun_id, Device) fmap"
  s_next :: tun_id
  s_watchers :: "string list"

datatype sup_error =
    BadConfig config_error | OpenState store_error | StateRoot
  | ProfileDir string | ProfileStart string | ProfileAuth string | ProfileStatusError string
  | UnknownProfile string | LocalAPI | ContextDone
  | LeaseError alloc_error | StoreError store_error
  | DuplicateSuffix string string string

text \<open>What LocalAPI returns to one \<open>refresh\<close>, and the outcomes of the calls of one \<open>startProfile\<close>.\<close>

record refresh_in =
  lc_ok :: bool
  lc_status :: "IpnStatus option"
  lc_services :: "(string \<times> addr list) list option"

record start_env =
  mkdir_ok :: bool
  chmod_ok :: bool
  start_ok :: bool
  getenv :: "string \<Rightarrow> string"
  up_ok :: bool
  first_refresh :: refresh_in

section \<open>Operations\<close>

subsection \<open>One profile\<close>

definition authKeyEnv :: "string \<Rightarrow> string" where
  "authKeyEnv name = ''TAILSCALE_AUTH_KEY_'' @ ToUpper name"

definition blank_target :: Target where
  "blank_target = \<lparr>ProfileID = [], ProfileName = [], Order = 0, Kind = [], ID = [], FQDN = [], Online = False, CanonicalIP = NoAddr\<rparr>"

definition node_targets :: "PeerStatus list \<Rightarrow> Target list" where
  "node_targets ps = concat (map (\<lambda>peer. map (\<lambda>ip. blank_target\<lparr>Kind := Node, ID := peer_id peer, FQDN := peer_dns peer,
     Online := peer_online peer, CanonicalIP := ip\<rparr>) (filter Is4 (peer_ips peer))) ps)"

definition service_targets :: "(string \<times> addr list) list \<Rightarrow> Target list" where
  "service_targets svs = concat (map (\<lambda>(name, addrs). map (\<lambda>ip. blank_target\<lparr>Kind := Service, ID := name, CanonicalIP := ip\<rparr>)
     (filter Is4 addrs)) svs)"

definition setStatusAndTargets :: "IpnStatus \<Rightarrow> (string \<times> addr list) list \<Rightarrow> string \<Rightarrow> sprofile \<Rightarrow> sprofile" where
  "setStatusAndTargets st services failure p =
    (let ps = \<lparr>St_ID = Prof_ID (p_cfg p), St_Name = Prof_Name (p_cfg p), St_Hostname = Hostname (p_cfg p), State = BackendState st,
               IPs = TailscaleIPs st, DNSName = (case self_dns st of None \<Rightarrow> [] | Some d \<Rightarrow> d), PeerCount = length (Peers st),
               St_Error = failure\<rparr>;
         ts = (if BackendState st = ''Running'' then node_targets (Peers st) else []) @ service_targets services;
         ts = (if BackendState st \<noteq> ''Running'' then [] else ts)
     in p\<lparr>p_status := ps, p_targets := ts\<rparr>)"

definition refresh :: "refresh_in \<Rightarrow> sprofile \<Rightarrow> sprofile option" where
  "refresh inp p = (if \<not> lc_ok inp then None
     else case lc_status inp of None \<Rightarrow> None
     | Some st \<Rightarrow> if BackendState st \<noteq> ''Running'' then Some (setStatusAndTargets st [] [] p)
         else case lc_services inp of None \<Rightarrow> None
           | Some services \<Rightarrow> Some (setStatusAndTargets st services [] p))"

definition degrade :: "string \<Rightarrow> sprofile \<Rightarrow> sprofile" where
  "degrade reason p = p\<lparr>p_status := (p_status p)\<lparr>State := ''Degraded'', St_Error := reason\<rparr>, p_targets := []\<rparr>"

subsection \<open>The supervisor\<close>

definition Sup_New :: "(nat \<Rightarrow> bool) \<Rightarrow> (nat \<Rightarrow> bool) \<Rightarrow> (nat \<Rightarrow> bool) \<Rightarrow> string \<Rightarrow> Config \<Rightarrow> string \<Rightarrow> dir \<Rightarrow> (sup_error + Supervisor) \<times> dir" where
  "Sup_New f1 fr f2 now c root d = (case Validate c of Some e \<Rightarrow> (Inl (BadConfig e), d)
   | None \<Rightarrow> (case OpenRecovering f1 fr f2 now (EffectiveIPv4CIDR c) d of
       (Inl e, d') \<Rightarrow> (Inl (OpenState e), d')
     | (Inr (db, _), d') \<Rightarrow> (Inr \<lparr>s_cfg = c, s_root = (if root = [] then DefaultStateRoot else root), s_profiles = [], s_store = db,
          s_store_open = True, s_changes = False, s_cancelled = False, s_devices = fmempty, s_next = 0, s_watchers = []\<rparr>, d')))"

definition notify :: "Supervisor \<Rightarrow> Supervisor" where
  "notify s = s\<lparr>s_changes := True\<rparr>"

text \<open>Receiving from the change channel.\<close>

definition take_change :: "Supervisor \<Rightarrow> (bool \<times> Supervisor)" where
  "take_change s = (s_changes s, s\<lparr>s_changes := False\<rparr>)"

definition startProfile :: "start_env \<Rightarrow> Profile \<Rightarrow> Supervisor \<Rightarrow> (sup_error + sprofile) \<times> Supervisor" where
  "startProfile env pc s =
    (if \<not> mkdir_ok env \<or> \<not> chmod_ok env then (Inl (ProfileDir (Prof_Name pc)), s)
     else let t = s_next s; dev = Device_New (''mt-'' @ Prof_Name pc) (Cfg_MTU (s_cfg s)) 256;
              p = \<lparr>p_cfg = pc, p_tun = t, p_open = True,
                   p_status = \<lparr>St_ID = Prof_ID pc, St_Name = Prof_Name pc, St_Hostname = Hostname pc, State = ''Starting'', IPs = [],
                     DNSName = [], PeerCount = 0, St_Error = []\<rparr>, p_targets = []\<rparr>;
              s = s\<lparr>s_next := t + 1, s_devices := fmupd t dev (s_devices s)\<rparr> in
     if \<not> start_ok env then (Inl (ProfileStart (Prof_Name pc)), s\<lparr>s_devices := fmupd t (Device_Close dev) (s_devices s)\<rparr>)
     else if getenv env (authKeyEnv (Prof_Name pc)) \<noteq> [] \<and> \<not> up_ok env then (Inl (ProfileAuth (Prof_Name pc)), s)
     else case refresh (first_refresh env) p of None \<Rightarrow> (Inl (ProfileStatusError (Prof_Name pc)), s)
       | Some p' \<Rightarrow> (Inr p', (notify s)\<lparr>s_watchers := s_watchers s @ [Prof_ID pc]\<rparr>))"

definition Sup_Close :: "Supervisor \<Rightarrow> Supervisor" where
  "Sup_Close s = s\<lparr>s_cancelled := True, s_profiles := map (\<lambda>p. p\<lparr>p_open := False\<rparr>) (s_profiles s), s_watchers := [], s_store_open := False\<rparr>"

fun start_all :: "(Profile \<Rightarrow> start_env) \<Rightarrow> Profile list \<Rightarrow> Supervisor \<Rightarrow> sup_error option \<times> Supervisor" where
  "start_all env [] s = (None, s)"
| "start_all env (pc # pcs) s = (case startProfile (env pc) pc s of
       (Inl e, s') \<Rightarrow> (Some e, s')
     | (Inr p, s') \<Rightarrow> start_all env pcs (s'\<lparr>s_profiles := s_profiles s' @ [p]\<rparr>))"

definition Sup_Start :: "bool \<Rightarrow> bool \<Rightarrow> (Profile \<Rightarrow> start_env) \<Rightarrow> Supervisor \<Rightarrow> sup_error option \<times> Supervisor" where
  "Sup_Start root_ok chmod_root_ok env s = (if \<not> root_ok \<or> \<not> chmod_root_ok then (Some StateRoot, s)
     else case start_all env (Profiles (s_cfg s)) s of
         (None, s') \<Rightarrow> (None, s')
       | (Some e, s') \<Rightarrow> (Some e, Sup_Close s'))"

fun start_new :: "(Profile \<Rightarrow> start_env) \<Rightarrow> string fset \<Rightarrow> Profile list \<Rightarrow> Supervisor \<Rightarrow> sup_error option \<times> Supervisor" where
  "start_new env existing [] s = (None, notify s)"
| "start_new env existing (pc # pcs) s = (if Prof_ID pc |\<in>| existing then start_new env existing pcs s
     else case startProfile (env pc) pc s of
       (Inl e, s') \<Rightarrow> (Some e, s')
     | (Inr p, s') \<Rightarrow> start_new env (finsert (Prof_ID pc) existing) pcs (s'\<lparr>s_profiles := s_profiles s' @ [p]\<rparr>))"

definition StartConfiguredProfiles :: "(Profile \<Rightarrow> start_env) \<Rightarrow> Config \<Rightarrow> Supervisor \<Rightarrow> sup_error option \<times> Supervisor" where
  "StartConfiguredProfiles env c s = (case Validate c of Some e \<Rightarrow> (Some (BadConfig e), s)
     | None \<Rightarrow> start_new env (fset_of_list (map (\<lambda>p. Prof_ID (p_cfg p)) (s_profiles s))) (Profiles c) s)"

definition with_profile :: "nat \<Rightarrow> (sprofile \<Rightarrow> sprofile) \<Rightarrow> Supervisor \<Rightarrow> Supervisor" where
  "with_profile i f s = s\<lparr>s_profiles := (s_profiles s)[i := f (s_profiles s ! i)]\<rparr>"

definition sup_refresh :: "nat \<Rightarrow> refresh_in \<Rightarrow> Supervisor \<Rightarrow> Supervisor" where
  "sup_refresh i inp s = (case refresh inp (s_profiles s ! i) of None \<Rightarrow> s
     | Some p' \<Rightarrow> notify (with_profile i (\<lambda>_. p') s))"

definition sup_degrade :: "nat \<Rightarrow> string \<Rightarrow> Supervisor \<Rightarrow> Supervisor" where
  "sup_degrade i reason s = notify (with_profile i (degrade reason) s)"

subsection \<open>Watching the node\<close>

datatype ipn_event = ErrMessage string | InitialStatus | Notify bool

text \<open>One notification in the inner loop of \<open>watch\<close>; \<open>Notify\<close> says whether peers, state or self changed.\<close>

definition watch_event :: "nat \<Rightarrow> ipn_event \<Rightarrow> refresh_in \<Rightarrow> Supervisor \<Rightarrow> Supervisor" where
  "watch_event i ev inp s = (case ev of ErrMessage m \<Rightarrow> sup_degrade i m s
     | InitialStatus \<Rightarrow> sup_refresh i inp s
     | Notify changed \<Rightarrow> if changed then sup_refresh i inp s else s)"

definition next_backoff :: "duration \<Rightarrow> duration" where
  "next_backoff b = (if b < Minute then 2 * b else b)"

text \<open>The end of one turn of the outer loop: the bus is gone, the profile is degraded, and after the
  pause \<open>b\<close>, unless the context ends during it, the status is read again.\<close>

definition watch_lost :: "nat \<Rightarrow> string \<Rightarrow> bool \<Rightarrow> refresh_in \<Rightarrow> duration \<times> Supervisor \<Rightarrow> duration \<times> Supervisor" where
  "watch_lost i reason done_in_pause inp bs = (if s_cancelled (snd bs) then bs
     else let s = sup_degrade i reason (snd bs) in
       if done_in_pause then (fst bs, s) else (next_backoff (fst bs), sup_refresh i inp s))"

text \<open>
  One turn of the outer loop: the updates that arrive while the bus is open, then its loss; and the loop over a
  script of turns. It ends when the context ends, before a turn or during the pause.
\<close>

record watch_turn =
  wt_client :: bool
  wt_open :: bool
  wt_events :: "(ipn_event \<times> refresh_in) list"
  wt_reason :: string
  wt_done :: bool
  wt_refresh :: refresh_in

definition watch_updates :: "nat \<Rightarrow> watch_turn \<Rightarrow> Supervisor \<Rightarrow> Supervisor" where
  "watch_updates i t s = (if wt_client t \<and> wt_open t then foldl (\<lambda>s (ev, inp). watch_event i ev inp s) s (wt_events t) else s)"

fun watch :: "nat \<Rightarrow> watch_turn list \<Rightarrow> duration \<times> Supervisor \<Rightarrow> duration \<times> Supervisor" where
  "watch i [] bs = bs"
| "watch i (t # ts) (b, s) = (if s_cancelled s then (b, s)
     else let bs = watch_lost i (wt_reason t) (wt_done t) (wt_refresh t) (b, watch_updates i t s) in
       if wt_done t then bs else watch i ts bs)"

subsection \<open>Views\<close>

definition Status :: "Supervisor \<Rightarrow> ProfileStatus list" where
  "Status s = map p_status (s_profiles s)"

definition dns_suffix :: "sprofile \<Rightarrow> string option" where
  "dns_suffix p = (if State (p_status p) \<noteq> ''Running'' then None
     else let parts = SplitN2 (CHR ''.'') (TrimSuffix (DNSName (p_status p)) ''.'') in
       if length parts = 2 then Some (parts ! 1) else None)"

fun suffix_loop :: "(string, string) fmap \<Rightarrow> sprofile list \<Rightarrow> sup_error option" where
  "suffix_loop owner [] = None"
| "suffix_loop owner (p # ps) = (case dns_suffix p of None \<Rightarrow> suffix_loop owner ps
     | Some x \<Rightarrow> (case fmlookup owner x of
           Some prior \<Rightarrow> if prior \<noteq> Prof_ID (p_cfg p) then Some (DuplicateSuffix x prior (Prof_ID (p_cfg p)))
             else suffix_loop (fmupd x (Prof_ID (p_cfg p)) owner) ps
         | None \<Rightarrow> suffix_loop (fmupd x (Prof_ID (p_cfg p)) owner) ps))"

definition ValidateDNSSuffixes :: "Supervisor \<Rightarrow> sup_error option" where
  "ValidateDNSSuffixes s = suffix_loop fmempty (s_profiles s)"

fun suffixes_loop :: "string fset \<Rightarrow> sprofile list \<Rightarrow> string list" where
  "suffixes_loop sn [] = []"
| "suffixes_loop sn (p # ps) = (case dns_suffix p of None \<Rightarrow> suffixes_loop sn ps
     | Some x \<Rightarrow> if x |\<in>| sn then suffixes_loop sn ps else x # suffixes_loop (finsert x sn) ps)"

definition DNSSuffixes :: "Supervisor \<Rightarrow> string list" where
  "DNSSuffixes s = suffixes_loop {||} (s_profiles s)"

definition inv_profiles :: "Supervisor \<Rightarrow> InvProfile list" where
  "inv_profiles s = map (\<lambda>(order, p). \<lparr>P_ID = Prof_ID (p_cfg p), P_Name = Prof_Name (p_cfg p), P_Order = int order, P_Targets = p_targets p\<rparr>)
     (enumerate 0 (s_profiles s))"

definition Sup_Inventory :: "((Target \<Rightarrow> Target \<Rightarrow> bool) \<Rightarrow> Target list \<Rightarrow> Target list) \<Rightarrow> Supervisor \<Rightarrow> Snapshot" where
  "Sup_Inventory srt s = Build srt (inv_profiles s)"

definition DatapathProfiles :: "Supervisor \<Rightarrow> DatapathProfile list" where
  "DatapathProfiles s = List.map_filter (\<lambda>p.
     let ip = (case find Is4 (IPs (p_status p)) of None \<Rightarrow> NoAddr | Some x \<Rightarrow> x) in
     if State (p_status p) = ''Running'' \<and> IsValid ip
     then Some \<lparr>DP_ID = Prof_ID (p_cfg p), SelfIPv4 = ip, DP_Tun = p_tun p\<rparr> else None) (s_profiles s)"

subsection \<open>Leases\<close>

text \<open>Reserving the persisted leases, in iteration order; an address that does not parse is skipped.\<close>

fun reserve_all :: "(string \<times> string) list \<Rightarrow> Allocator \<Rightarrow> alloc_error + Allocator" where
  "reserve_all [] a = Inr a"
| "reserve_all ((k, v) # kvs) a = (case ParseAddr v of None \<Rightarrow> reserve_all kvs a
     | Some ip \<Rightarrow> (case Reserve a k ip of Inl e \<Rightarrow> Inl e | Inr a' \<Rightarrow> reserve_all kvs a'))"

text \<open>Collecting and persisting the leases; \<open>ok\<close> says which of the \<open>Put\<close> calls succeed.\<close>

fun persist_all :: "(nat \<Rightarrow> bool) \<Rightarrow> nat \<Rightarrow> Lease list \<Rightarrow> (string, addr) fmap \<Rightarrow> DB \<Rightarrow> (store_error + (string, addr) fmap) \<times> DB" where
  "persist_all ok i [] out db = (Inr out, db)"
| "persist_all ok i (l # ls) out db = (case Store.Put (ok i) (Key l) (addr_String (IP l)) db of
       (Some e, db') \<Rightarrow> (Inl e, db')
     | (None, db') \<Rightarrow> persist_all ok (Suc i) ls (fmupd (Key l) (IP l) out) db')"

definition EffectiveLeases ::
  "((Target \<Rightarrow> Target \<Rightarrow> bool) \<Rightarrow> Target list \<Rightarrow> Target list) \<Rightarrow> ((string, string) fmap \<Rightarrow> (string \<times> string) list) \<Rightarrow> bool \<Rightarrow> (nat \<Rightarrow> bool)
    \<Rightarrow> Supervisor \<Rightarrow> (sup_error + (string, addr) fmap) \<times> Supervisor" where
  "EffectiveLeases srt iter read_ok put_ok s =
    (case Allocator_New (EffectiveIPv4CIDR (s_cfg s)) of Inl e \<Rightarrow> (Inl (LeaseError e), s)
     | Inr a \<Rightarrow> (case Leases read_ok (s_store s) of Inl e \<Rightarrow> (Inl (StoreError e), s)
       | Inr persisted \<Rightarrow> (case reserve_all (iter persisted) a of Inl e \<Rightarrow> (Inl (LeaseError e), s)
         | Inr a \<Rightarrow> (case Allocate a (map target_Key (Targets (Sup_Inventory srt s))) of Inl e \<Rightarrow> (Inl (LeaseError e), s)
           | Inr (ls, _) \<Rightarrow> (case persist_all put_ok 0 ls fmempty (s_store s) of
               (Inl e, db) \<Rightarrow> (Inl (StoreError e), s\<lparr>s_store := db\<rparr>)
             | (Inr out, db) \<Rightarrow> (Inr out, s\<lparr>s_store := db\<rparr>))))))"

subsection \<open>Login, logout and queries\<close>

fun index_where :: "('a \<Rightarrow> bool) \<Rightarrow> 'a list \<Rightarrow> nat option" where
  "index_where P [] = None"
| "index_where P (x # xs) = (if P x then Some 0 else map_option Suc (index_where P xs))"

definition profileByName :: "string \<Rightarrow> Supervisor \<Rightarrow> nat option" where
  "profileByName name s = index_where (\<lambda>p. EqualFold (Prof_Name (p_cfg p)) name) (s_profiles s)"

record Prefs =
  WantRunning :: bool
  LoggedOut :: bool
  RouteAll :: bool
  ExitNodeID :: string
  ExitNodeIP :: addr
  RunSSH :: bool
  RunWebClient :: bool

definition login_prefs :: "Prefs \<Rightarrow> Prefs" where
  "login_prefs p = p\<lparr>WantRunning := True, LoggedOut := False, RouteAll := False, ExitNodeID := [], ExitNodeIP := NoAddr,
     RunSSH := False, RunWebClient := False\<rparr>"

text \<open>
  The outcomes of the LocalAPI calls of a login: the preferences, whether starting the node with them
  and starting the interactive login succeed, the states that polling reads until the context ends,
  and the URLs that the notification bus delivers until it fails.
\<close>

record login_env =
  le_client :: bool
  le_prefs :: "Prefs option"
  le_start :: bool
  le_watch :: bool
  le_interactive :: bool
  le_polls :: "string option list"
  le_refresh :: refresh_in
  le_urls :: "string option list"

text \<open>The third result is the auth key and preferences handed to the node.\<close>

definition Login :: "login_env \<Rightarrow> string \<Rightarrow> string \<Rightarrow> Supervisor \<Rightarrow> (sup_error + string) \<times> Supervisor \<times> (string \<times> Prefs) option" where
  "Login env name authKey s = (case profileByName name s of None \<Rightarrow> (Inl (UnknownProfile name), s, None)
   | Some i \<Rightarrow>
     if \<not> le_client env then (Inl LocalAPI, s, None)
     else if authKey \<noteq> [] then
       (case le_prefs env of None \<Rightarrow> (Inl LocalAPI, s, None)
        | Some p \<Rightarrow>
          let sent = Some (authKey, login_prefs p) in
          if \<not> le_start env then (Inl LocalAPI, s, sent)
          else if \<not> le_interactive env then (Inl LocalAPI, s, sent)
          else if Some ''Running'' \<in> set (le_polls env) then (Inr [], sup_refresh i (le_refresh env) s, sent)
          else (Inl ContextDone, s, sent))
     else if \<not> le_watch env then (Inl LocalAPI, s, None)
     else if \<not> le_interactive env then (Inl LocalAPI, s, None)
     else (case find (\<lambda>u. u \<noteq> None) (le_urls env) of Some (Some u) \<Rightarrow> (Inr u, s, None) | _ \<Rightarrow> (Inl LocalAPI, s, None)))"

definition Logout :: "bool \<Rightarrow> bool \<Rightarrow> string \<Rightarrow> Supervisor \<Rightarrow> sup_error option \<times> Supervisor" where
  "Logout client_ok logout_ok name s = (case profileByName name s of None \<Rightarrow> (Some (UnknownProfile name), s)
   | Some i \<Rightarrow> if \<not> client_ok then (Some LocalAPI, s)
     else if \<not> logout_ok then (Some LocalAPI, s)
     else (None, with_profile i (\<lambda>p. p\<lparr>p_status := (p_status p)\<lparr>State := ''NeedsLogin''\<rparr>\<rparr>)
                   (sup_degrade i ''explicitly logged out'' s)))"

definition QueryDNS :: "(sprofile \<Rightarrow> string \<Rightarrow> string \<Rightarrow> bytes option) \<Rightarrow> string \<Rightarrow> string \<Rightarrow> string \<Rightarrow> Supervisor \<Rightarrow> sup_error + bytes" where
  "QueryDNS local pid name qtype s = (case find (\<lambda>p. Prof_ID (p_cfg p) = pid) (s_profiles s) of
       None \<Rightarrow> Inl (UnknownProfile pid)
     | Some p \<Rightarrow> (case local p name qtype of None \<Rightarrow> Inl LocalAPI | Some b \<Rightarrow> Inr b))"

section \<open>Lease persistence\<close>

text \<open>The addresses a lease table stores.\<close>

definition parsed :: "(string, string) fmap \<Rightarrow> string \<Rightarrow> addr option" where
  "parsed m k = Option.bind (fmlookup m k) ParseAddr"

lemma reserve_all_leases:
  assumes "alloc_inv a" "distinct (map fst kvs)" "reserve_all kvs a = Inr a'"
  shows "alloc_inv a' \<and> prefix_of a' = prefix_of a
    \<and> (\<forall>k. fmlookup (leases a') k = (case Option.bind (map_of kvs k) ParseAddr of None \<Rightarrow> fmlookup (leases a) k | Some ip \<Rightarrow> Some ip))"
  using assms
proof (induction kvs a rule: reserve_all.induct)
  case (2 k v kvs a)
  have none: "map_of kvs k = None" using "2.prems"(2) by (simp add: map_of_eq_None_iff)
  show ?case
  proof (cases "ParseAddr v")
    case None
    then show ?thesis using 2 none by (auto split: option.splits)
  next
    case (Some ip)
    then obtain b where b: "Reserve a k ip = Inr b" using "2.prems"(3) by (auto split: sum.splits)
    then have inv: "alloc_inv b" "prefix_of b = prefix_of a" "fmlookup (leases b) = (fmlookup (leases a))(k \<mapsto> ip)"
      using alloc_inv_Reserve [OF "2.prems"(1)] by (auto simp: Reserve_iff)
    have "reserve_all kvs b = Inr a'" using "2.prems"(3) Some b by simp
    from "2.IH"(2) [OF Some b inv(1) _ this] "2.prems"(2) show ?thesis
      using inv none Some by (auto split: option.splits)
  qed
qed simp

lemma reserve_all_ok:
  assumes "distinct (map fst kvs)"
    "\<And>k v ip. (k, v) \<in> set kvs \<Longrightarrow> ParseAddr v = Some ip \<Longrightarrow> leasable (prefix_of a) ip \<and> fmlookup (used a) ip \<in> {None, Some k}"
    "\<And>k v k' v' ip. (k, v) \<in> set kvs \<Longrightarrow> (k', v') \<in> set kvs \<Longrightarrow> ParseAddr v = Some ip \<Longrightarrow> ParseAddr v' = Some ip \<Longrightarrow> k = k'"
  shows "\<exists>a'. reserve_all kvs a = Inr a'"
  using assms
proof (induction kvs a rule: reserve_all.induct)
  case (2 k v kvs a)
  have dist: "distinct (map fst kvs)" using "2.prems"(1) by simp
  note inj = "2.prems"(3) [OF list.set_intros(2) list.set_intros(2)]
  show ?case
  proof (cases "ParseAddr v")
    case None
    have "\<exists>a'. reserve_all kvs a = Inr a'"
      by (rule "2.IH"(1) [OF None dist "2.prems"(2) [OF list.set_intros(2)] inj])
    with None show ?thesis by simp
  next
    case (Some ip)
    then obtain b where b: "Reserve a k ip = Inr b" "b = a\<lparr>used := fmupd ip k (used a), leases := fmupd k ip (leases a)\<rparr>"
      using "2.prems"(2) [OF list.set_intros(1) Some] by (auto simp: Reserve_iff)
    have "leasable (prefix_of b) ip' \<and> fmlookup (used b) ip' \<in> {None, Some k'}" if "(k', v') \<in> set kvs" "ParseAddr v' = Some ip'" for k' v' ip'
    proof -
      have "ip' = ip \<Longrightarrow> k' = k" using "2.prems"(3) [OF list.set_intros(1) list.set_intros(2) [OF that(1)] Some] that(2) by blast
      then show ?thesis using "2.prems"(2) [OF list.set_intros(2) [OF that(1)] that(2)] by (auto simp: b(2))
    qed
    from "2.IH"(2) [OF Some b(1) dist this inj] Some b(1) show ?thesis by simp
  qed
qed simp

lemma persist_all_Inr:
  "persist_all ok i ls out db = (Inr out', db') \<Longrightarrow> out' = foldl (\<lambda>m l. fmupd (Key l) (IP l) m) out ls
     \<and> leases_tbl db' = foldl (\<lambda>m l. fmupd (Key l) (addr_String (IP l)) m) (leases_tbl db) ls \<and> meta db' = meta db"
  by (induction ok i ls out db rule: persist_all.induct)
    (auto simp: Store.Put_def split: if_splits)

lemma persist_all_ok: "(\<And>i. ok i) \<Longrightarrow> \<exists>out' db'. persist_all ok i ls out db = (Inr out', db')"
  by (induction ls arbitrary: i out db) (auto simp: Store.Put_def)

lemma foldl_lookup_fun:
  assumes "\<forall>l \<in> set ls. \<forall>l' \<in> set ls. Key l = Key l' \<longrightarrow> IP l = IP l'"
  shows "fmlookup (foldl (\<lambda>m l. fmupd (Key l) (g (IP l)) m) m ls) k
    = (case find (\<lambda>l. Key l = k) ls of None \<Rightarrow> fmlookup m k | Some l \<Rightarrow> Some (g (IP l)))"
proof -
  have "map_option IP (find (\<lambda>l. Key l = k) (rev ls)) = map_option IP (find (\<lambda>l. Key l = k) ls)"
  proof (cases "\<exists>l \<in> set ls. Key l = k")
    case True
    then obtain l where l: "l \<in> set ls" "Key l = k" by blast
    have "\<exists>t'. find (\<lambda>l. Key l = k) xs = Some t' \<and> t' \<in> set xs \<and> IP t' = IP l" if "set xs = set ls" for xs
    proof (rule find_same)
      show "l \<in> set xs" "Key l = k" using l that by simp_all
      show "IP t' = IP l" if "t' \<in> set xs" "Key t' = k" for t'
        using assms l that \<open>set xs = set ls\<close> by blast
    qed
    from this [of ls] this [of "rev ls"] show ?thesis by auto
  next
    case False
    then have "find (\<lambda>l. Key l = k) (rev ls) = None" "find (\<lambda>l. Key l = k) ls = None" by (auto simp: find_None_iff)
    then show ?thesis by simp
  qed
  then show ?thesis unfolding foldl_upd_lookup by (auto split: option.splits)
qed

lemma find_lease:
  assumes "Key ` set ls = K" "\<And>l. l \<in> set ls \<Longrightarrow> f (Key l) = Some (IP l)"
  shows "(case find (\<lambda>l. Key l = x) ls of None \<Rightarrow> z | Some l \<Rightarrow> Some (g (IP l))) = (if x \<in> K then map_option g (f x) else z)"
proof (cases "find (\<lambda>l. Key l = x) ls")
  case None
  then have "x \<notin> K" unfolding assms(1) [symmetric] by (auto simp: find_None_iff)
  with None show ?thesis by simp
next
  case (Some l)
  then have "x \<in> K" "f x = Some (IP l)" using assms(2) [of l] assms(1) by (auto dest: find_Some_mem)
  then show ?thesis using Some by simp
qed

text \<open>A map iterated in some order: every entry once.\<close>

definition iter_ok :: "(('k, 'v) fmap \<Rightarrow> ('k \<times> 'v) list) \<Rightarrow> bool" where
  "iter_ok iter \<longleftrightarrow> (\<forall>m. distinct (map fst (iter m)) \<and> map_of (iter m) = fmlookup m)"

abbreviation inv_keys :: "((Target \<Rightarrow> Target \<Rightarrow> bool) \<Rightarrow> Target list \<Rightarrow> Target list) \<Rightarrow> Supervisor \<Rightarrow> string list" where
  "inv_keys srt s \<equiv> map target_Key (Targets (Sup_Inventory srt s))"

lemma EffectiveLeases_Inr:
  assumes "iter_ok iter" "EffectiveLeases srt iter rok pok s = (Inr out, s')"
  obtains a a' ls where "Allocator_New (EffectiveIPv4CIDR (s_cfg s)) = Inr \<lparr>prefix_of = prefix_of a, leases = fmempty, used = fmempty\<rparr>"
    "alloc_inv a" "\<And>k. fmlookup (leases a) k = parsed (leases_tbl (s_store s)) k"
    "Allocate a (inv_keys srt s) = Inr (ls, a')" "alloc_inv a'" "prefix_of a' = prefix_of a"
    "\<And>k ip. fmlookup (leases a) k = Some ip \<Longrightarrow> fmlookup (leases a') k = Some ip"
    "\<And>k. fmlookup (leases a') k = None \<longleftrightarrow> fmlookup (leases a) k = None \<and> k \<notin> set (inv_keys srt s)"
    "\<And>k. fmlookup out k = (if k \<in> set (inv_keys srt s) then fmlookup (leases a') k else None)"
    "\<And>k. fmlookup (leases_tbl (s_store s')) k = (if k \<in> set (inv_keys srt s) then map_option addr_String (fmlookup (leases a') k)
        else fmlookup (leases_tbl (s_store s)) k)"
    "s' = s\<lparr>s_store := s_store s'\<rparr>"
proof -
  let ?db = "s_store s" and ?ks = "inv_keys srt s"
  obtain a0 a ls a' where n: "Allocator_New (EffectiveIPv4CIDR (s_cfg s)) = Inr a0" and r: "reserve_all (iter (leases_tbl ?db)) a0 = Inr a"
    and al: "Allocate a ?ks = Inr (ls, a')"
    and c: "(case persist_all pok 0 ls fmempty ?db of (Inl e, db) \<Rightarrow> (Inl (StoreError e), s\<lparr>s_store := db\<rparr>)
       | (Inr out, db) \<Rightarrow> (Inr out, s\<lparr>s_store := db\<rparr>)) = (Inr out, s')"
    using assms(2) by (auto simp: EffectiveLeases_def Leases_def split: sum.splits if_splits)
  obtain pr db' where pr: "persist_all pok 0 ls fmempty ?db = (pr, db')" by fastforce
  have p: "persist_all pok 0 ls fmempty ?db = (Inr out, s_store s')" and s': "s' = s\<lparr>s_store := s_store s'\<rparr>"
    using c by (cases pr; auto simp: pr)+
  have a0: "a0 = \<lparr>prefix_of = prefix_of a0, leases = fmempty, used = fmempty\<rparr>"
    using n by (auto simp: Allocator_New_def split: option.splits if_splits)
  then have e0: "fmlookup (leases a0) k = None" for k by (metis Allocator.select_convs(2) fmempty_lookup)
  have it: "distinct (map fst (iter (leases_tbl ?db)))" "map_of (iter (leases_tbl ?db)) = fmlookup (leases_tbl ?db)"
    using assms(1) by (simp_all add: iter_ok_def)
  from reserve_all_leases [OF alloc_inv_New [OF n] it(1) r]
  have a: "alloc_inv a" "prefix_of a = prefix_of a0" "\<And>k. fmlookup (leases a) k = parsed (leases_tbl ?db) k"
    by (auto simp: it(2) e0 parsed_def split: option.splits)
  from lease_table.all_keeps [OF a(1) al [unfolded Allocate_def]]
  have k: "alloc_inv a'" "map Key ls = sort ?ks" "\<And>x y. fmlookup (leases a) x = Some y \<Longrightarrow> fmlookup (leases a') x = Some y"
    "\<And>l. l \<in> set ls \<Longrightarrow> fmlookup (leases a') (Key l) = Some (IP l)"
    "dom (fmlookup (leases a')) = dom (fmlookup (leases a)) \<union> set ?ks"
    by auto
  have dom: "fmlookup (leases a') x = None \<longleftrightarrow> fmlookup (leases a) x = None \<and> x \<notin> set ?ks" for x
    using k(5) by (metis (no_types) Un_iff domIff)
  have pf: "prefix_of a' = prefix_of a" using lease_all_prefix [OF a(1) al [unfolded Allocate_def]] .
  have keys: "Key ` set ls = set ?ks" using k(2) by (metis list.set_map set_sort)
  note look = find_lease [OF keys k(4)]
  have fn: "\<forall>l \<in> set ls. \<forall>l' \<in> set ls. Key l = Key l' \<longrightarrow> IP l = IP l'" using k(4) by (metis option.inject)
  note pa = persist_all_Inr [OF p]
  have out: "fmlookup out x = (if x \<in> set ?ks then fmlookup (leases a') x else None)" for x
    using foldl_lookup_fun [OF fn, where g = "\<lambda>x. x" and m = fmempty and k = x] look [where z = None and g = "\<lambda>x. x"] pa
    by (simp add: option.map_ident cong: option.case_cong)
  have tbl: "fmlookup (leases_tbl (s_store s')) x = (if x \<in> set ?ks then map_option addr_String (fmlookup (leases a') x)
        else fmlookup (leases_tbl ?db) x)" for x
    using foldl_lookup_fun [OF fn, where g = addr_String and m = "leases_tbl ?db" and k = x]
      look [where z = "fmlookup (leases_tbl ?db) x" and g = addr_String] pa by simp
  from a0 n a(2) show ?thesis
    by (intro that [OF _ a(1,3) al k(1) pf k(3) dom out tbl s']) simp_all
qed

text \<open>
  C14: the leases the daemon works with: when \<open>EffectiveLeases\<close> succeeds, it leases exactly the keys of
  the current targets, to pairwise different addresses of the configured pool that are neither the
  NAT nor the DNS address; a key that was persisted keeps its address; and every lease is persisted.
\<close>

theorem EffectiveLeases_sound:
  assumes "iter_ok iter" "EffectiveLeases srt iter rok pok s = (Inr out, s')"
  shows "fset (fmdom out) = set (inv_keys srt s)
    \<and> (\<forall>k k' ip. fmlookup out k = Some ip \<longrightarrow> fmlookup out k' = Some ip \<longrightarrow> k = k')
    \<and> (\<exists>p. ParsePrefix (EffectiveIPv4CIDR (s_cfg s)) = Some p \<and> (\<forall>k ip. fmlookup out k = Some ip \<longrightarrow> leasable p ip))
    \<and> (\<forall>k ip. k \<in> set (inv_keys srt s) \<longrightarrow> parsed (leases_tbl (s_store s)) k = Some ip \<longrightarrow> fmlookup out k = Some ip)
    \<and> (\<forall>k ip. fmlookup out k = Some ip \<longrightarrow> fmlookup (leases_tbl (s_store s')) k = Some (addr_String ip))"
  using assms
proof (rule EffectiveLeases_Inr)
  fix a a' ls
  assume n: "Allocator_New (EffectiveIPv4CIDR (s_cfg s)) = Inr \<lparr>prefix_of = prefix_of a, leases = fmempty, used = fmempty\<rparr>"
    and p: "\<And>k. fmlookup (leases a) k = parsed (leases_tbl (s_store s)) k"
    and inv: "alloc_inv a'" "prefix_of a' = prefix_of a" and keep: "\<And>k ip. fmlookup (leases a) k = Some ip \<Longrightarrow> fmlookup (leases a') k = Some ip"
    and dom: "\<And>k. fmlookup (leases a') k = None \<longleftrightarrow> fmlookup (leases a) k = None \<and> k \<notin> set (inv_keys srt s)"
    and out: "\<And>k. fmlookup out k = (if k \<in> set (inv_keys srt s) then fmlookup (leases a') k else None)"
    and tbl: "\<And>k. fmlookup (leases_tbl (s_store s')) k = (if k \<in> set (inv_keys srt s) then map_option addr_String (fmlookup (leases a') k)
        else fmlookup (leases_tbl (s_store s)) k)"
  have "k \<in> fset (fmdom out) \<longleftrightarrow> k \<in> set (inv_keys srt s)" for k
    using dom [of k] out [of k] by (cases "fmlookup (leases a') k") (auto simp: fmlookup_dom_iff simp del: set_map)
  then have 1: "fset (fmdom out) = set (inv_keys srt s)" by blast
  have o: "fmlookup out k = Some ip \<Longrightarrow> fmlookup (leases a') k = Some ip \<and> k \<in> set (inv_keys srt s)" for k ip
    using out [of k] by (auto split: if_splits)
  have 2: "k = k'" if "fmlookup out k = Some ip" "fmlookup out k' = Some ip" for k k' ip
    using o [OF that(1)] o [OF that(2)] inv(1) by (metis alloc_inv_def option.inject)
  have 3: "ParsePrefix (EffectiveIPv4CIDR (s_cfg s)) = Some (prefix_of a) \<and> (\<forall>k ip. fmlookup out k = Some ip \<longrightarrow> leasable (prefix_of a) ip)"
    using n o inv by (auto simp: Allocator_New_def alloc_inv_def split: option.splits if_splits)
  have 4: "fmlookup out k = Some ip" if "k \<in> set (inv_keys srt s)" "parsed (leases_tbl (s_store s)) k = Some ip" for k ip
    using that keep [of k ip] p out by auto
  have 5: "fmlookup (leases_tbl (s_store s')) k = Some (addr_String ip)" if "fmlookup out k = Some ip" for k ip
    using o [OF that] tbl by auto
  show ?thesis using 1 2 3 4 5 by blast
qed

lemma Sup_Inventory_store [simp]: "Sup_Inventory srt (s\<lparr>s_store := db\<rparr>) = Sup_Inventory srt s"
  by (simp add: Sup_Inventory_def inv_profiles_def)

lemma leasable_parse: "leasable p ip \<Longrightarrow> ParseAddr (addr_String ip) = Some ip"
  by (cases ip) (auto simp: leasable_def simp del: addr_String.simps)

text \<open>
  C24: leases survive a restart: computing the leases again from the persisted table, with the same
  targets and a working store, succeeds and returns the same leases.
\<close>

theorem EffectiveLeases_stable:
  assumes "iter_ok iter" "EffectiveLeases srt iter rok pok s = (Inr out, s')"
  shows "\<exists>s''. EffectiveLeases srt iter True (\<lambda>_. True) s' = (Inr out, s'')"
  using assms
proof (rule EffectiveLeases_Inr)
  let ?ks = "inv_keys srt s" and ?t = "leases_tbl (s_store s')"
  fix a a' ls
  assume n: "Allocator_New (EffectiveIPv4CIDR (s_cfg s)) = Inr \<lparr>prefix_of = prefix_of a, leases = fmempty, used = fmempty\<rparr>"
    and p: "\<And>k. fmlookup (leases a) k = parsed (leases_tbl (s_store s)) k"
    and inv: "alloc_inv a'" "prefix_of a' = prefix_of a" and keep: "\<And>k ip. fmlookup (leases a) k = Some ip \<Longrightarrow> fmlookup (leases a') k = Some ip"
    and dom: "\<And>k. fmlookup (leases a') k = None \<longleftrightarrow> fmlookup (leases a) k = None \<and> k \<notin> set ?ks"
    and out: "\<And>k. fmlookup out k = (if k \<in> set ?ks then fmlookup (leases a') k else None)"
    and tbl: "\<And>k. fmlookup ?t k = (if k \<in> set ?ks then map_option addr_String (fmlookup (leases a') k) else fmlookup (leases_tbl (s_store s)) k)"
    and s': "s' = s\<lparr>s_store := s_store s'\<rparr>"
  have lea: "fmlookup (leases a') k = Some ip \<Longrightarrow> leasable (prefix_of a) ip" for k ip using inv by (auto simp: alloc_inv_def)
  have par: "parsed ?t k = fmlookup (leases a') k" for k
  proof (cases "k \<in> set ?ks")
    case True
    then obtain ip where "fmlookup (leases a') k = Some ip" using dom [of k] by blast
    with True show ?thesis using leasable_parse [OF lea] by (simp add: parsed_def tbl)
  next
    case False
    then have "fmlookup (leases a') k = None \<longleftrightarrow> fmlookup (leases a) k = None" using dom [of k] by blast
    with False show ?thesis using keep [of k] p [of k] by (cases "fmlookup (leases a) k") (auto simp: parsed_def tbl)
  qed
  let ?a0 = "\<lparr>prefix_of = prefix_of a, leases = fmempty, used = fmempty\<rparr>"
  have it: "distinct (map fst (iter ?t))" "map_of (iter ?t) = fmlookup ?t" using assms(1) by (simp_all add: iter_ok_def)
  have mem: "parsed ?t k = Some ip" if "(k, v) \<in> set (iter ?t)" "ParseAddr v = Some ip" for k v ip
  proof -
    have "fmlookup ?t k = Some v" using that(1) it by (metis map_of_is_SomeI)
    then show ?thesis using that(2) by (simp add: parsed_def)
  qed
  have "\<exists>b. reserve_all (iter ?t) ?a0 = Inr b"
  proof (rule reserve_all_ok [OF it(1)])
    show "leasable (prefix_of ?a0) ip \<and> fmlookup (used ?a0) ip \<in> {None, Some k}" if "(k, v) \<in> set (iter ?t)" "ParseAddr v = Some ip" for k v ip
      using mem [OF that] lea by (simp add: par)
    show "k = k'" if "(k, v) \<in> set (iter ?t)" "(k', v') \<in> set (iter ?t)" "ParseAddr v = Some ip" "ParseAddr v' = Some ip" for k v k' v' ip
      using mem [OF that(1,3)] mem [OF that(2,4)] inv(1) unfolding par by (metis alloc_inv_def option.inject)
  qed
  then obtain b where b: "reserve_all (iter ?t) ?a0 = Inr b" by blast
  from reserve_all_leases [OF alloc_inv_New [OF n] it(1) b]
  have b': "alloc_inv b" "\<And>k. fmlookup (leases b) k = fmlookup (leases a') k"
    unfolding it(2) by (auto simp: par parsed_def [symmetric] split: option.splits)
  have "\<forall>k \<in> set (sort ?ks). fmlookup (leases b) k \<noteq> None" unfolding b'(2) set_sort using dom by blast
  from lease_table.all_hits [OF b'(1) this] obtain ls' where al: "Allocate b ?ks = Inr (ls', b)" by (simp add: Allocate_def)
  obtain out' db' where pa: "persist_all (\<lambda>_. True) 0 ls' fmempty (s_store s') = (Inr out', db')"
    using persist_all_ok [of "\<lambda>_. True" 0 ls' fmempty "s_store s'"] by auto
  have inv': "Sup_Inventory srt s' = Sup_Inventory srt s" "s_cfg s' = s_cfg s" by (subst s', simp)+
  have run: "EffectiveLeases srt iter True (\<lambda>_. True) s' = (Inr out', s'\<lparr>s_store := db'\<rparr>)"
    by (simp add: EffectiveLeases_def inv' n Leases_def b al pa)
  have "out' = out"
  proof (rule fmap_ext)
    fix k
    from assms(1) run show "fmlookup out' k = fmlookup out k"
    proof (rule EffectiveLeases_Inr)
      fix c c' cs
      assume "\<And>k. fmlookup (leases c) k = parsed ?t k" "\<And>k ip. fmlookup (leases c) k = Some ip \<Longrightarrow> fmlookup (leases c') k = Some ip"
        "\<And>k. fmlookup out' k = (if k \<in> set (inv_keys srt s') then fmlookup (leases c') k else None)"
      then show "fmlookup out' k = fmlookup out k"
        using out [of k] par [of k] dom [of k] inv'(1) by (cases "fmlookup (leases a') k") (auto split: if_splits)
    qed
  qed
  with run show ?thesis by blast
qed

section \<open>Reachable supervisors\<close>

text \<open>
  Everything that runs between the construction of a supervisor and its end: the start, profiles
  added from a new configuration, the watchers, the commands of the control socket and the lease
  computation, in any order.
\<close>

inductive sup_reachable :: "Supervisor \<Rightarrow> bool" where
  init: "Sup_New f1 fr f2 now c root d = (Inr s, d') \<Longrightarrow> sup_reachable s"
| start: "sup_reachable s \<Longrightarrow> s_profiles s = [] \<Longrightarrow> Sup_Start ok1 ok2 env s = (r, s') \<Longrightarrow> sup_reachable s'"
| configured: "sup_reachable s \<Longrightarrow> StartConfiguredProfiles env c s = (r, s') \<Longrightarrow> sup_reachable s'"
| event: "sup_reachable s \<Longrightarrow> i < length (s_profiles s) \<Longrightarrow> sup_reachable (watch_event i ev inp s)"
| lost: "sup_reachable s \<Longrightarrow> i < length (s_profiles s) \<Longrightarrow> sup_reachable (snd (watch_lost i reason dn inp (b, s)))"
| login: "sup_reachable s \<Longrightarrow> Login le name key s = (r, s', sent) \<Longrightarrow> sup_reachable s'"
| logout: "sup_reachable s \<Longrightarrow> Logout c_ok l_ok name s = (r, s') \<Longrightarrow> sup_reachable s'"
| computed: "sup_reachable s \<Longrightarrow> EffectiveLeases srt iter rok pok s = (r, s') \<Longrightarrow> sup_reachable s'"
| change: "sup_reachable s \<Longrightarrow> sup_reachable (snd (take_change s))"
| close: "sup_reachable s \<Longrightarrow> sup_reachable (Sup_Close s)"

subsection \<open>The watch loop\<close>

lemma watch_event_length [simp]: "length (s_profiles (watch_event i ev inp s)) = length (s_profiles s)"
  by (auto simp: watch_event_def sup_refresh_def sup_degrade_def with_profile_def notify_def split: ipn_event.split option.split)

lemma watch_updates_reachable:
  assumes "sup_reachable s" "i < length (s_profiles s)"
  shows "sup_reachable (watch_updates i t s) \<and> length (s_profiles (watch_updates i t s)) = length (s_profiles s)"
proof -
  have "sup_reachable (foldl (\<lambda>s (ev, inp). watch_event i ev inp s) s es) \<and> length (s_profiles (foldl (\<lambda>s (ev, inp). watch_event i ev inp s) s es)) = length (s_profiles s)"
    if "sup_reachable s" "i < length (s_profiles s)" for es s
    using that by (induction es arbitrary: s) (auto simp: sup_reachable.event)
  with assms show ?thesis by (simp add: watch_updates_def)
qed

text \<open>The pauses are one second, doubled each time, up to 64 seconds.\<close>

definition backoffs :: "duration set" where
  "backoffs = (\<lambda>k. 2 ^ k * Second) ` {0..6}"

lemma next_backoff_closed: "b \<in> backoffs \<Longrightarrow> next_backoff b \<in> backoffs"
proof -
  assume "b \<in> backoffs"
  then obtain k :: nat where k: "k \<le> 6" "b = 2 ^ k * Second" by (auto simp: backoffs_def)
  show ?thesis
  proof (cases "k = 6")
    case True
    with k show ?thesis by (auto simp: next_backoff_def backoffs_def intro!: image_eqI [of _ _ 6])
  next
    case False
    with k have "next_backoff b \<in> {b, 2 ^ Suc k * Second}" "Suc k \<le> 6" by (auto simp: next_backoff_def)
    moreover then have "2 ^ Suc k * Second \<in> backoffs" unfolding backoffs_def by (intro image_eqI [of _ _ "Suc k"]) simp_all
    ultimately show ?thesis using \<open>b \<in> backoffs\<close> by (metis empty_iff insert_iff)
  qed
qed

lemma watch_reachable:
  assumes "sup_reachable s" "i < length (s_profiles s)" "b \<in> backoffs" "watch i ts (b, s) = (b', s')"
  shows "sup_reachable s' \<and> length (s_profiles s') = length (s_profiles s) \<and> b' \<in> backoffs"
  using assms
proof (induction i ts "(b, s)" arbitrary: b s rule: watch.induct)
  case (2 i t ts b s)
  let ?s = "watch_updates i t s"
  obtain b1 s1 where l: "watch_lost i (wt_reason t) (wt_done t) (wt_refresh t) (b, ?s) = (b1, s1)" by force
  note u = watch_updates_reachable [OF "2.prems"(1,2), of t]
  then have "sup_reachable s1" using sup_reachable.lost [of ?s i "wt_reason t" "wt_done t" "wt_refresh t" b] "2.prems"(2) l by simp
  moreover have "length (s_profiles s1) = length (s_profiles s)" "b1 \<in> backoffs"
    using l u "2.prems"(3) next_backoff_closed
    by (auto simp: watch_lost_def sup_refresh_def sup_degrade_def with_profile_def notify_def Let_def split: if_splits option.splits)
  ultimately show ?case using 2 l by (auto simp: Let_def split: if_splits)
qed simp

definition profile_inv :: "sprofile \<Rightarrow> bool" where
  "profile_inv p \<longleftrightarrow> (\<forall>t \<in> set (p_targets p). Is4 (CanonicalIP t)) \<and> (State (p_status p) \<noteq> ''Running'' \<longrightarrow> p_targets p = [])"

definition sup_inv :: "Supervisor \<Rightarrow> bool" where
  "sup_inv s \<longleftrightarrow> Validate (s_cfg s) = None \<and> (\<forall>p \<in> set (s_profiles s). profile_inv p \<and> p_tun p < s_next s)
     \<and> distinct (map (\<lambda>p. Prof_ID (p_cfg p)) (s_profiles s)) \<and> distinct (map p_tun (s_profiles s))
     \<and> (\<forall>t d. fmlookup (s_devices s) t = Some d \<longrightarrow> dev_inv d)"

lemma profile_inv_set [intro]: "profile_inv (setStatusAndTargets st sv e p)"
  by (auto simp: profile_inv_def setStatusAndTargets_def node_targets_def service_targets_def Let_def)

lemma setStatusAndTargets_keeps [simp]:
  "p_cfg (setStatusAndTargets st sv e p) = p_cfg p" "p_tun (setStatusAndTargets st sv e p) = p_tun p"
  by (simp_all add: setStatusAndTargets_def Let_def)

lemma profile_inv_refresh: "refresh inp p = Some p' \<Longrightarrow> profile_inv p' \<and> p_cfg p' = p_cfg p \<and> p_tun p' = p_tun p"
  by (auto simp: refresh_def split: if_splits option.splits)

lemma profile_inv_degrade [simp]: "profile_inv (degrade r p)"
  by (simp add: profile_inv_def degrade_def)

lemma sup_inv_with_profile:
  assumes "sup_inv s" "i < length (s_profiles s)"
    and "profile_inv (f (s_profiles s ! i))" "p_cfg (f (s_profiles s ! i)) = p_cfg (s_profiles s ! i)" "p_tun (f (s_profiles s ! i)) = p_tun (s_profiles s ! i)"
  shows "sup_inv (with_profile i f s)"
proof -
  have same: "map g ((s_profiles s)[i := f (s_profiles s ! i)]) = map g (s_profiles s)"
    if "g (f (s_profiles s ! i)) = g (s_profiles s ! i)" for g :: "sprofile \<Rightarrow> 'b"
    using that assms(2) by (simp add: map_update list_update_same_conv)
  have "s_profiles s ! i \<in> set (s_profiles s)" using assms(2) by simp
  then show ?thesis using assms by (auto simp: sup_inv_def with_profile_def same dest!: set_update_subset_insert [THEN subsetD])
qed

lemma sup_inv_notify [simp]: "sup_inv (notify s) = sup_inv s"
  by (simp add: notify_def sup_inv_def)

lemma sup_inv_refresh: "sup_inv s \<Longrightarrow> i < length (s_profiles s) \<Longrightarrow> sup_inv (sup_refresh i inp s)"
  by (auto simp: sup_refresh_def split: option.splits dest!: profile_inv_refresh intro!: sup_inv_with_profile)

lemma sup_inv_degrade: "sup_inv s \<Longrightarrow> i < length (s_profiles s) \<Longrightarrow> sup_inv (sup_degrade i r s)"
  by (auto simp: sup_degrade_def intro!: sup_inv_with_profile) (simp_all add: degrade_def)

lemma sup_degrade_length [simp]: "length (s_profiles (sup_degrade i r s)) = length (s_profiles s)"
  by (simp add: sup_degrade_def with_profile_def notify_def)

lemma dev_inv_New [simp]: "0 < n \<Longrightarrow> dev_inv (Device_New name m n)"
  by (simp add: dev_inv_def Device_New_def Let_def)

lemma dev_inv_Close [simp]: "dev_inv d \<Longrightarrow> dev_inv (Device_Close d)"
  by (simp add: dev_inv_def Device_Close_def)

lemma startProfile_devices:
  assumes "startProfile env pc s = (r, s')" "fmlookup (s_devices s') t = Some d"
  shows "fmlookup (s_devices s) t = Some d \<or> dev_inv d"
  using assms unfolding startProfile_def
  by (auto simp: Let_def notify_def split: if_splits option.splits)

lemma startProfile_devices_inv:
  "sup_inv s \<Longrightarrow> startProfile env pc s = (r, s') \<Longrightarrow> \<forall>t d. fmlookup (s_devices s') t = Some d \<longrightarrow> dev_inv d"
  using startProfile_devices by (metis sup_inv_def)

lemma startProfile_props:
  assumes "startProfile env pc s = (r, s')"
  shows "s_cfg s' = s_cfg s \<and> s_profiles s' = s_profiles s \<and> s_next s \<le> s_next s'
    \<and> (\<forall>p. r = Inr p \<longrightarrow> profile_inv p \<and> p_cfg p = pc \<and> p_tun p = s_next s \<and> s_next s' = s_next s + 1)"
  using assms unfolding startProfile_def
  by (auto simp: Let_def notify_def split: if_splits option.splits dest!: profile_inv_refresh)

lemma startProfile_new:
  assumes "startProfile env pc s = (Inr p, s')"
  shows "profile_inv p" "p_cfg p = pc" "p_tun p = s_next s" "s_next s' = s_next s + 1" "s_cfg s' = s_cfg s" "s_profiles s' = s_profiles s"
  using startProfile_props [OF assms] by blast+

lemma sup_inv_failed: "sup_inv s \<Longrightarrow> startProfile env pc s = (Inl e, s') \<Longrightarrow> sup_inv s'"
  using startProfile_devices_inv [of s env pc "Inl e" s'] by (auto simp: sup_inv_def dest!: startProfile_props intro: less_le_trans)

lemma sup_inv_append:
  assumes "sup_inv s" "startProfile env pc s = (Inr p, s')" "Prof_ID pc \<notin> (\<lambda>p. Prof_ID (p_cfg p)) ` set (s_profiles s)"
  shows "sup_inv (s'\<lparr>s_profiles := s_profiles s' @ [p]\<rparr>)"
proof -
  note p = startProfile_new [OF assms(2)]
  have "s_next s \<notin> p_tun ` set (s_profiles s)" using assms(1) by (auto simp: sup_inv_def)
  moreover have "\<forall>x \<in> set (s_profiles s). profile_inv x \<and> p_tun x < s_next s + 1" using assms(1) by (auto simp: sup_inv_def)
  moreover have "\<forall>t d. fmlookup (s_devices s') t = Some d \<longrightarrow> dev_inv d" by (rule startProfile_devices_inv [OF assms(1,2)])
  ultimately show ?thesis using assms(1,3) by (simp add: sup_inv_def p)
qed

lemma start_all_inv:
  assumes "start_all env pcs s = (r, s')" "sup_inv s" "distinct (map Prof_ID pcs)"
    and "\<And>pc. pc \<in> set pcs \<Longrightarrow> Prof_ID pc \<notin> (\<lambda>p. Prof_ID (p_cfg p)) ` set (s_profiles s)"
  shows "sup_inv s'"
  using assms
proof (induction env pcs s arbitrary: r s' rule: start_all.induct)
  case (2 env pc pcs s)
  obtain q s1 where q: "startProfile (env pc) pc s = (q, s1)" by fastforce
  show ?case
  proof (cases q)
    case (Inl e)
    then show ?thesis using sup_inv_failed [OF "2.prems"(2)] "2.prems"(1) q by simp
  next
    case (Inr x)
    with q have x: "startProfile (env pc) pc s = (Inr x, s1)" by simp
    show ?thesis
    proof (rule "2.IH" [OF x [symmetric] refl])
      show "start_all env pcs (s1\<lparr>s_profiles := s_profiles s1 @ [x]\<rparr>) = (r, s')" using "2.prems"(1) x by simp
      show "sup_inv (s1\<lparr>s_profiles := s_profiles s1 @ [x]\<rparr>)"
        using sup_inv_append [OF "2.prems"(2) x "2.prems"(4) [OF list.set_intros(1)]] .
      show "distinct (map Prof_ID pcs)" using "2.prems"(3) by simp
      show "Prof_ID pc' \<notin> (\<lambda>p. Prof_ID (p_cfg p)) ` set (s_profiles (s1\<lparr>s_profiles := s_profiles s1 @ [x]\<rparr>))" if "pc' \<in> set pcs" for pc'
        using that "2.prems"(3) "2.prems"(4) [of pc'] by (auto simp: startProfile_new [OF x] image_iff)
    qed
  qed
qed simp

lemma start_new_inv:
  assumes "start_new env ex pcs s = (r, s')" "sup_inv s" "fset ex = (\<lambda>p. Prof_ID (p_cfg p)) ` set (s_profiles s)"
  shows "sup_inv s'"
  using assms
proof (induction env ex pcs s arbitrary: r s' rule: start_new.induct)
  case (2 env ex pc pcs s)
  show ?case
  proof (cases "Prof_ID pc |\<in>| ex")
    case True
    then show ?thesis using 2 by simp
  next
    case new: False
    obtain q s1 where q: "startProfile (env pc) pc s = (q, s1)" by fastforce
    show ?thesis
    proof (cases q)
      case (Inl e)
      then show ?thesis using sup_inv_failed [OF "2.prems"(2)] "2.prems"(1) q new by simp
    next
      case (Inr x)
      with q have x: "startProfile (env pc) pc s = (Inr x, s1)" by simp
      show ?thesis
      proof (rule "2.IH"(2) [OF new x [symmetric] refl])
        show "start_new env (finsert (Prof_ID pc) ex) pcs (s1\<lparr>s_profiles := s_profiles s1 @ [x]\<rparr>) = (r, s')" using "2.prems"(1) x new by simp
        show "sup_inv (s1\<lparr>s_profiles := s_profiles s1 @ [x]\<rparr>)" using new "2.prems"(3) by (intro sup_inv_append [OF "2.prems"(2) x]) simp
        show "fset (finsert (Prof_ID pc) ex) = (\<lambda>p. Prof_ID (p_cfg p)) ` set (s_profiles (s1\<lparr>s_profiles := s_profiles s1 @ [x]\<rparr>))"
          using "2.prems"(3) by (simp add: startProfile_new [OF x])
      qed
    qed
  qed
qed simp

lemma sup_inv_close: "sup_inv s \<Longrightarrow> sup_inv (Sup_Close s)"
  by (auto simp: sup_inv_def Sup_Close_def profile_inv_def comp_def)

lemma sup_inv_Start:
  assumes "sup_inv s" "s_profiles s = []" "Sup_Start ok1 ok2 env s = (r, s')"
  shows "sup_inv s'"
proof -
  obtain q s1 where q: "start_all env (Profiles (s_cfg s)) s = (q, s1)" by fastforce
  have "distinct (map Prof_ID (Profiles (s_cfg s)))" using assms(1) by (simp add: sup_inv_def Validate_None_iff valid_config_def)
  then have "sup_inv s1" using start_all_inv [OF q assms(1)] assms(2) by simp
  then show ?thesis using assms by (cases q) (auto simp: Sup_Start_def q intro: sup_inv_close split: if_splits)
qed

lemma sup_inv_Configured: "sup_inv s \<Longrightarrow> StartConfiguredProfiles env c s = (r, s') \<Longrightarrow> sup_inv s'"
  using start_new_inv [of env "fset_of_list (map (\<lambda>p. Prof_ID (p_cfg p)) (s_profiles s))" "Profiles c" s]
  by (auto simp: StartConfiguredProfiles_def fset_of_list.rep_eq split: option.splits)

lemma index_where_bound: "index_where P xs = Some i \<Longrightarrow> i < length xs \<and> P (xs ! i)"
  by (induction xs arbitrary: i) (auto split: if_splits)

lemma sup_inv_Login: "sup_inv s \<Longrightarrow> Login le name key s = (r, s', sent) \<Longrightarrow> sup_inv s'"
  by (auto simp: Login_def profileByName_def Let_def split: option.splits if_splits intro: sup_inv_refresh dest: index_where_bound)

lemma sup_inv_Logout: "sup_inv s \<Longrightarrow> Logout c_ok l_ok name s = (r, s') \<Longrightarrow> sup_inv s'"
  by (auto simp: Logout_def profileByName_def profile_inv_def split: option.splits if_splits dest!: index_where_bound
      intro!: sup_inv_with_profile sup_inv_degrade) (auto simp: sup_degrade_def with_profile_def notify_def degrade_def)

lemma EffectiveLeases_frame: "EffectiveLeases srt iter rok pok s = (r, s') \<Longrightarrow> s' = s\<lparr>s_store := s_store s'\<rparr>"
  by (auto simp: EffectiveLeases_def split: sum.splits prod.splits)

lemma sup_reachable_inv: "sup_reachable s \<Longrightarrow> sup_inv s"
proof (induction rule: sup_reachable.induct)
  case (init f1 fr f2 now c root d s d')
  then show ?case by (auto simp: Sup_New_def sup_inv_def split: option.splits sum.splits prod.splits)
next
  case (event s i ev inp)
  then show ?case by (auto simp: watch_event_def sup_inv_degrade sup_inv_refresh split: ipn_event.split)
next
  case (lost s i reason dn inp b)
  then show ?case by (auto simp: watch_lost_def Let_def sup_inv_degrade sup_inv_refresh)
next
  case (computed s srt iter rok pok r s')
  have "sup_inv (s\<lparr>s_store := x\<rparr>)" for x using computed.IH by (simp add: sup_inv_def)
  then show ?case using EffectiveLeases_frame [OF computed.hyps(2)] by metis
next
  case (change s)
  then show ?case by (simp add: take_change_def sup_inv_def)
qed (auto intro: sup_inv_Start sup_inv_Configured sup_inv_Login sup_inv_Logout sup_inv_close)

lemma inv_targets_mem:
  assumes "slice_sorter srt" "t \<in> set (Targets (Sup_Inventory srt s))"
  shows "\<exists>p \<in> set (s_profiles s). ProfileID t = Prof_ID (p_cfg p) \<and> CanonicalIP t \<in> CanonicalIP ` set (p_targets p)"
proof -
  obtain q u where "q \<in> set (inv_profiles s)" "u \<in> set (P_Targets q)" "t = stamp q u"
    using assms(2) by (auto simp: Sup_Inventory_def Build_fields slice_sorter.srt_set [OF assms(1)] all_targets_def)
  moreover from this(1) obtain p where "p \<in> set (s_profiles s)" "P_ID q = Prof_ID (p_cfg p)" "P_Targets q = p_targets p"
    using nth_mem by (fastforce simp: inv_profiles_def in_set_enumerate_eq)
  ultimately show ?thesis by (auto simp: stamp_def intro!: bexI [of _ p])
qed

lemma DatapathProfiles_mem:
  "q \<in> set (DatapathProfiles s) \<longleftrightarrow> (\<exists>p \<in> set (s_profiles s). \<exists>ip. State (p_status p) = ''Running'' \<and> find Is4 (IPs (p_status p)) = Some ip
     \<and> q = \<lparr>DP_ID = Prof_ID (p_cfg p), SelfIPv4 = ip, DP_Tun = p_tun p\<rparr>)"
proof -
  have "find Is4 xs = Some ip \<Longrightarrow> IsValid ip" for xs ip by (auto simp: IsValid_def dest: find_Some_mem)
  then show ?thesis
    unfolding DatapathProfiles_def map_filter_mem
    by (intro bex_cong refl) (auto simp: Let_def IsValid_def split: option.split)
qed

lemma supervisor_inputs4:
  assumes "sup_inv s" "slice_sorter srt" "iter_ok iter" "EffectiveLeases srt iter rok pok s = (Inr out, s')"
  shows "inputs4 (Targets (Sup_Inventory srt s)) out (DatapathProfiles s)"
proof -
  have 1: "Is4 (CanonicalIP t)" if "t \<in> set (Targets (Sup_Inventory srt s))" for t
    using inv_targets_mem [OF assms(2) that] assms(1) by (auto simp: profile_inv_def sup_inv_def)
  have 2: "Is4 a" if "fmlookup out k = Some a" for k a
    using assms(3,4)
  proof (rule EffectiveLeases_Inr)
    fix b b' ls
    assume "alloc_inv b'" "\<And>k. fmlookup out k = (if k \<in> set (inv_keys srt s) then fmlookup (leases b') k else None)"
    then show "Is4 a" using that by (auto simp: alloc_inv_def leasable_def split: if_splits)
  qed
  have 3: "Is4 (SelfIPv4 q)" if "q \<in> set (DatapathProfiles s)" for q
    using that by (auto simp: DatapathProfiles_mem dest: find_Some_mem)
  show ?thesis using 1 2 3 by (auto simp: inputs4_def)
qed

lemma DatapathProfiles_distinct:
  assumes "sup_inv s"
  shows "distinct (map DP_ID (DatapathProfiles s))" "distinct (map DP_Tun (DatapathProfiles s))"
  using assms unfolding DatapathProfiles_def sup_inv_def
  by (auto simp: Let_def intro!: map_filter_distinct [where xs = "s_profiles s"] split: if_splits)

text \<open>
  C13: what the supervisor hands to the multiplexer. In every reachable state, when the leases are
  computed, the targets, leases and datapath profiles satisfy the assumptions under which the packet
  loops were verified: every address is IPv4; the profiles' identifiers and TUN devices are pairwise
  different; every target of the aggregate view belongs to a profile that is running.
\<close>

theorem supervisor_feeds_mux:
  assumes "sup_reachable s" "slice_sorter srt" "iter_ok iter" "EffectiveLeases srt iter rok pok s = (Inr out, s')"
  shows "inputs4 (Targets (Sup_Inventory srt s)) out (DatapathProfiles s)
    \<and> distinct (map DP_ID (DatapathProfiles s)) \<and> distinct (map DP_Tun (DatapathProfiles s))
    \<and> (\<forall>t \<in> set (Targets (Sup_Inventory srt s)). \<exists>p \<in> set (s_profiles s). Prof_ID (p_cfg p) = ProfileID t \<and> State (p_status p) = ''Running'')"
proof -
  have inv: "sup_inv s" using assms(1) by (rule sup_reachable_inv)
  have "\<exists>p \<in> set (s_profiles s). Prof_ID (p_cfg p) = ProfileID t \<and> State (p_status p) = ''Running''"
    if "t \<in> set (Targets (Sup_Inventory srt s))" for t
    using inv_targets_mem [OF assms(2) that] inv by (fastforce simp: profile_inv_def sup_inv_def)
  then show ?thesis using supervisor_inputs4 [OF inv assms(2-4)] DatapathProfiles_distinct [OF inv] by blast
qed

text \<open>
  C25: withdrawal. After a logout, a node error or the loss of the node's bus the profile has no target
  and is not offered to the datapath, and the daemon has a change notification pending, so the next
  update removes its bindings; the other profiles are unchanged.
\<close>

theorem withdrawn_profile:
  assumes "sup_reachable s" "i < length (s_profiles s)"
    and "s' = sup_degrade i reason s \<or> Logout c_ok l_ok name s = (None, s') \<and> profileByName name s = Some i"
  shows "p_targets (s_profiles s' ! i) = [] \<and> Prof_ID (p_cfg (s_profiles s ! i)) \<notin> DP_ID ` set (DatapathProfiles s')
    \<and> fst (take_change s') \<and> (\<forall>j. j \<noteq> i \<longrightarrow> s_profiles s' ! j = s_profiles s ! j) \<and> length (s_profiles s') = length (s_profiles s)"
proof -
  have s': "\<exists>f. s_profiles s' = (s_profiles s)[i := f (s_profiles s ! i)] \<and> (\<forall>p. p_targets (f p) = [] \<and> State (p_status (f p)) \<noteq> ''Running'' \<and> p_cfg (f p) = p_cfg p)
     \<and> s_changes s'"
    using assms(3)
  proof
    assume "s' = sup_degrade i reason s"
    then show ?thesis
      by (intro exI [of _ "degrade reason"]) (simp add: sup_degrade_def with_profile_def notify_def, simp add: degrade_def)
  next
    assume "Logout c_ok l_ok name s = (None, s') \<and> profileByName name s = Some i"
    then show ?thesis using assms(2)
      by (intro exI [of _ "\<lambda>p. (degrade ''explicitly logged out'' p)\<lparr>p_status := (p_status (degrade ''explicitly logged out'' p))\<lparr>State := ''NeedsLogin''\<rparr>\<rparr>"])
        (auto simp: Logout_def sup_degrade_def with_profile_def notify_def degrade_def split: if_splits)
  qed
  then obtain f where f: "s_profiles s' = (s_profiles s)[i := f (s_profiles s ! i)]" "s_changes s'"
    "p_targets (f p) = []" "State (p_status (f p)) \<noteq> ''Running''" "p_cfg (f p) = p_cfg p" for p by blast
  have d: "distinct (map (\<lambda>p. Prof_ID (p_cfg p)) (s_profiles s))" using sup_reachable_inv [OF assms(1)] by (simp add: sup_inv_def)
  have "State (p_status x) \<noteq> ''Running''" if x: "x \<in> set (s_profiles s')" "Prof_ID (p_cfg x) = Prof_ID (p_cfg (s_profiles s ! i))" for x
  proof -
    obtain j where j: "j < length (s_profiles s)" "x = s_profiles s' ! j" using x(1) f(1) by (metis in_set_conv_nth length_list_update)
    have "j = i" if "j \<noteq> i"
      using d that x(2) j assms(2) f(1) by (simp add: distinct_conv_nth)
    then show ?thesis using j f(1,4) assms(2) by (cases "j = i") auto
  qed
  then show ?thesis using f assms(2) by (auto simp: DatapathProfiles_mem take_change_def)
qed

section \<open>Examples\<close>

text \<open>Iteration in key order.\<close>

definition sorted_iter :: "('k :: linorder, 'v) fmap \<Rightarrow> ('k \<times> 'v) list" where
  "sorted_iter m = map (\<lambda>k. (k, the (fmlookup m k))) (sorted_list_of_fset (fmdom m))"

lemma sorted_iter_ok: "iter_ok sorted_iter"
proof -
  have "map_of (sorted_iter m) k = fmlookup m k" for m k
    unfolding sorted_iter_def map_of_map_restrict
    by (cases "fmlookup m k") (auto simp: restrict_map_def fmdomI fmdom_notI)
  then show ?thesis by (auto simp: iter_ok_def) (simp add: sorted_iter_def comp_def sorted_list_of_fset.rep_eq)
qed

definition ex_cfg :: Config where "ex_cfg = Default\<lparr>Profiles := [ex_profile_cfg]\<rparr>"

definition ex_status :: IpnStatus where
  "ex_status = \<lparr>BackendState = ''Running'', TailscaleIPs = [V4 1681915905],
     Peers = [\<lparr>peer_id = ''n1'', peer_dns = ''db.example.ts.net.'', peer_online = True, peer_ips = [V4 1681915913]\<rparr>],
     self_dns = Some ''laptop.example.ts.net.''\<rparr>"

definition ex_env :: start_env where
  "ex_env = \<lparr>mkdir_ok = True, chmod_ok = True, start_ok = True, getenv = (\<lambda>_. []), up_ok = True,
     first_refresh = \<lparr>lc_ok = True, lc_status = Some ex_status, lc_services = Some []\<rparr>\<rparr>"

definition ex_db :: DB where
  "ex_db = \<lparr>meta = fmupd ''cidr'' ''10.192.0.0/16'' fmempty, leases_tbl = fmupd ''p1/node/n1/100.64.0.9'' ''10.192.0.5'' fmempty\<rparr>"

definition ex_sup :: Supervisor where
  "ex_sup = \<lparr>s_cfg = ex_cfg, s_root = DefaultStateRoot, s_profiles = [], s_store = ex_db, s_store_open = True, s_changes = False,
     s_cancelled = False, s_devices = fmempty, s_next = 0, s_watchers = []\<rparr>"

definition ex_run :: Supervisor where
  "ex_run = snd (Sup_Start True True (\<lambda>_. ex_env) ex_sup)"

lemma ex_cfg_valid: "Validate ex_cfg = None" by code_simp

lemma ex_run_eq:
  "s_cfg ex_run = ex_cfg" "s_store ex_run = ex_db"
  "s_profiles ex_run = [setStatusAndTargets ex_status [] [] \<lparr>p_cfg = ex_profile_cfg, p_tun = 0, p_open = True,
     p_status = \<lparr>St_ID = ''p1'', St_Name = ''Work'', St_Hostname = ''laptop'', State = ''Starting'', IPs = [], DNSName = [], PeerCount = 0, St_Error = []\<rparr>,
     p_targets = []\<rparr>]"
  by (simp_all add: ex_run_def Sup_Start_def ex_sup_def startProfile_def ex_env_def Let_def refresh_def notify_def ex_cfg_def)
    (simp_all add: ex_status_def ex_profile_cfg_def)

lemma ex_sup_New:
  "Sup_New (\<lambda>_. False) (\<lambda>_. False) (\<lambda>_. False) now ex_cfg DefaultStateRoot (fmupd db_name (Database ex_db) fmempty)
    = (Inr ex_sup, fmupd db_name (Database ex_db) fmempty)"
  by (simp add: Sup_New_def ex_cfg_valid OpenRecovering_def Open_def exec_schema_def Let_def)
    (simp add: ex_cfg_def ex_db_def ex_sup_def Default_def fmupd_idem DefaultStateRoot_def)

lemma ex_run_reachable: "sup_reachable ex_run"
proof (rule sup_reachable.start)
  show "sup_reachable ex_sup" using ex_sup_New by (rule sup_reachable.init)
  show "s_profiles ex_sup = []" by (simp add: ex_sup_def)
  show "Sup_Start True True (\<lambda>_. ex_env) ex_sup = (fst (Sup_Start True True (\<lambda>_. ex_env) ex_sup), ex_run)" by (simp add: ex_run_def)
qed

lemma ex_run_inventory: "inv_keys insertionSort ex_run = [''p1/node/n1/100.64.0.9'']"
proof -
  have "Targets (Sup_Inventory insertionSort ex_run) = insertionSort target_less (all_targets (inv_profiles ex_run))"
    by (simp add: Sup_Inventory_def Build_fields)
  also have "all_targets (inv_profiles ex_run) = [blank_target\<lparr>ProfileID := ''p1'', ProfileName := ''Work'', Kind := Node, ID := ''n1'',
      FQDN := ''db.example.ts.net.'', Online := True, CanonicalIP := V4 1681915913\<rparr>]"
    by (simp add: all_targets_def inv_profiles_def ex_run_eq setStatusAndTargets_def node_targets_def service_targets_def ex_status_def
        ex_profile_cfg_def stamp_def blank_target_def)
  finally show ?thesis by simp code_simp
qed

lemma ex_run_leases:
  "EffectiveLeases insertionSort sorted_iter True (\<lambda>_. True) ex_run = (Inr (fmupd ''p1/node/n1/100.64.0.9'' (V4 180355077) fmempty), ex_run)"
proof -
  let ?k = "''p1/node/n1/100.64.0.9''"
  let ?a = "\<lparr>prefix_of = Prefix (V4 180355072) 16, leases = fmempty, used = fmempty\<rparr>"
  let ?b = "\<lparr>prefix_of = Prefix (V4 180355072) 16, leases = fmupd ?k (V4 180355077) fmempty, used = fmupd (V4 180355077) ?k fmempty\<rparr>"
  have new: "Allocator_New (EffectiveIPv4CIDR ex_cfg) = Inr ?a" by code_simp
  have it: "sorted_iter (leases_tbl ex_db) = [(?k, ''10.192.0.5'')]" by (simp add: sorted_iter_def ex_db_def sorted_list_of_fset.rep_eq)
  have par: "ParseAddr ''10.192.0.5'' = Some (V4 180355077)" "addr_String (V4 180355077) = ''10.192.0.5''" by code_simp+
  have "Reserve ?a ?k (V4 180355077) = Inr ?b" by code_simp
  then have res: "reserve_all (sorted_iter (leases_tbl ex_db)) ?a = Inr ?b" by (simp add: it par)
  have "lease ?b ?k = Inr (V4 180355077, ?b)" by (simp add: lease_def mapget_def IsValid_def Let_def)
  then have al: "Allocate ?b [?k] = Inr ([\<lparr>Key = ?k, IP = V4 180355077\<rparr>], ?b)" by (simp add: Allocate_def)
  have per: "persist_all (\<lambda>_. True) 0 [\<lparr>Key = ?k, IP = V4 180355077\<rparr>] fmempty ex_db = (Inr (fmupd ?k (V4 180355077) fmempty), ex_db)"
    by (simp add: Store.Put_def par fmupd_idem ex_db_def del: addr_String.simps)
  have "ex_run\<lparr>s_store := ex_db\<rparr> = ex_run" using ex_run_eq(2) by simp
  then show ?thesis by (simp add: EffectiveLeases_def ex_run_eq new Leases_def res ex_run_inventory al per del: persist_all.simps)
qed

theorem EffectiveLeases_sound_witness:
  "fmlookup (fmupd ''p1/node/n1/100.64.0.9'' (V4 180355077) fmempty) ''p1/node/n1/100.64.0.9'' = parsed (leases_tbl (s_store ex_run)) ''p1/node/n1/100.64.0.9''"
proof -
  let ?k = "''p1/node/n1/100.64.0.9''"
  have "parsed (leases_tbl (s_store ex_run)) ?k = Some (V4 180355077)" unfolding ex_run_eq by code_simp
  moreover have "?k \<in> set (inv_keys insertionSort ex_run)" unfolding ex_run_inventory by simp
  ultimately show ?thesis using EffectiveLeases_sound [OF sorted_iter_ok ex_run_leases] by metis
qed

theorem EffectiveLeases_stable_witness:
  "\<exists>s''. EffectiveLeases insertionSort sorted_iter True (\<lambda>_. True) ex_run = (Inr (fmupd ''p1/node/n1/100.64.0.9'' (V4 180355077) fmempty), s'')"
  using EffectiveLeases_stable [OF sorted_iter_ok ex_run_leases] .

theorem supervisor_feeds_mux_witness:
  "inputs4 (Targets (Sup_Inventory insertionSort ex_run)) (fmupd ''p1/node/n1/100.64.0.9'' (V4 180355077) fmempty) (DatapathProfiles ex_run)"
  using supervisor_feeds_mux [OF ex_run_reachable go_sort.slice_sorter_axioms sorted_iter_ok ex_run_leases] by blast

theorem withdrawn_profile_witness:
  "DatapathProfiles (sup_degrade 0 ''lost'' ex_run) = [] \<and> p_targets (s_profiles (sup_degrade 0 ''lost'' ex_run) ! 0) = []"
proof -
  have "p_targets (s_profiles (sup_degrade 0 ''lost'' ex_run) ! 0) = []"
    using withdrawn_profile [OF ex_run_reachable, of 0 "sup_degrade 0 ''lost'' ex_run" "''lost''" False False "[]"] by (simp add: ex_run_eq)
  moreover have "DatapathProfiles (sup_degrade 0 ''lost'' ex_run) = []"
    by (simp add: DatapathProfiles_def sup_degrade_def with_profile_def notify_def ex_run_eq degrade_def map_filter_simps)
  ultimately show ?thesis by simp
qed

end
