(* ===== verification/Hosttun.thy ===== *)
theory Hosttun
  imports Netip "HOL-Library.Multiset"
begin

text \<open>
  \<^verbatim>\<open>internal/hosttun/linux.go\<close>: the host's TUN interface and its routes.

  The kernel is third-party: a call that changes it (\<open>netcall\<close>) is recorded with its outcome in a log,
  and the outcome is given by an arbitrary function of the log so far and the call (\<open>answers\<close>). What the
  read-only calls return is a record of arguments (\<open>host_env\<close>), and so are the priority and the table of the rule that
  \<^verbatim>\<open>netlink.NewRule\<close> makes. The header size that the wireguard-go
  TUN reserves in front of a packet is an argument.
\<close>

section \<open>Data\<close>

type_synonym ipnet = "bytes \<times> nat"

record route =
  LinkIndex :: int
  Dst :: ipnet
  Table :: int
  ScopeLink :: bool

datatype errno = EEXIST | OtherErr

datatype netcall = CreateTUN string int | AddrAdd ipnet | LinkSetUp | RuleAdd int int
  | RouteAdd route | RouteDel route | RuleDel int int | TunClose

type_synonym netlog = "(netcall \<times> errno option) list"
type_synonym answers = "netlog \<Rightarrow> netcall \<Rightarrow> errno option"

record HostDev =
  hd_name :: string
  hd_link :: int
  hd_table :: int
  hd_routes :: "route list"
  hd_rule :: "int \<times> int"
  hd_pending :: "bytes list"

datatype host_error = NativeInterface | NativeDaemon | ListFailed | OverlapAddress prefix string | OverlapRoute prefix int
  | InterfaceExists string | PriorityOccupied int | NameFailed | LinkFailed | SystemCall netcall errno | HostPanic
  | AddRoute prefix errno | BufferTooShort | BadBatch int | BadSize int | ReadFailed

record host_env =
  tailscale0 :: bool
  proc_comm :: "(string \<times> string option) list option"
  link_addrs :: "(string \<times> string list) list option"
  route_list :: "((string \<times> nat) option \<times> int) list option"
  rule_list :: "int list option"
  link_exists :: "string \<Rightarrow> bool"
  tun_name :: "string option"
  link_index :: "string \<Rightarrow> int option"
  new_rule :: "int \<times> int"

section \<open>Operations\<close>

definition netcall :: "answers \<Rightarrow> netcall \<Rightarrow> netlog \<Rightarrow> errno option \<times> netlog" where
  "netcall ans c log = (ans log c, log @ [(c, ans log c)])"

definition RulePriority :: int where "RulePriority = 5260"

subsection \<open>Checks before anything is changed\<close>

text \<open>\<^verbatim>\<open>strconv.Atoi\<close> succeeds on an optional sign and digits within 64 bits.\<close>

definition Atoi_ok :: "string \<Rightarrow> bool" where
  "Atoi_ok s = (let signed = s \<noteq> [] \<and> (hd s = CHR ''-'' \<or> hd s = CHR ''+''); ds = (if signed then tl s else s) in
     ds \<noteq> [] \<and> list_all is_digit ds \<and> undec ds < (if signed \<and> hd s = CHR ''-'' then 9223372036854775809 else 9223372036854775808))"

definition CheckNativeTailscale :: "host_env \<Rightarrow> host_error option" where
  "CheckNativeTailscale env = (if tailscale0 env then Some NativeInterface
     else case proc_comm env of None \<Rightarrow> None
     | Some ents \<Rightarrow> if list_ex (\<lambda>(x, comm). Atoi_ok x \<and> comm = Some ''tailscaled\<newline>'') ents then Some NativeDaemon else None)"

definition pool_overlaps :: "prefix \<Rightarrow> prefix \<Rightarrow> bool" where
  "pool_overlaps pool p \<longleftrightarrow> Contains pool (PAddr p) \<or> Contains p (PAddr pool)"

fun addr_overlap :: "prefix \<Rightarrow> string \<Rightarrow> string list \<Rightarrow> host_error option" where
  "addr_overlap pool l [] = None"
| "addr_overlap pool l (a # as) = (case ParsePrefix a of
       Some p \<Rightarrow> if pool_overlaps pool p then Some (OverlapAddress p l) else addr_overlap pool l as
     | None \<Rightarrow> addr_overlap pool l as)"

fun links_overlap :: "string \<Rightarrow> prefix \<Rightarrow> (string \<times> string list) list \<Rightarrow> host_error option" where
  "links_overlap name pool [] = None"
| "links_overlap name pool ((l, as) # ls) = (if l = name then links_overlap name pool ls
     else case addr_overlap pool l as of Some e \<Rightarrow> Some e | None \<Rightarrow> links_overlap name pool ls)"

fun routes_overlap :: "int \<Rightarrow> prefix \<Rightarrow> ((string \<times> nat) option \<times> int) list \<Rightarrow> host_error option" where
  "routes_overlap tbl pool [] = None"
| "routes_overlap tbl pool ((dst, t) # rs) = (case dst of None \<Rightarrow> routes_overlap tbl pool rs
     | Some (s, ones) \<Rightarrow> if ones = 0 \<or> t = tbl then routes_overlap tbl pool rs
         else case ParsePrefix s of
             Some p \<Rightarrow> if pool_overlaps pool p then Some (OverlapRoute p t) else routes_overlap tbl pool rs
           | None \<Rightarrow> routes_overlap tbl pool rs)"

definition CheckPoolOverlap :: "host_env \<Rightarrow> string \<Rightarrow> int \<Rightarrow> prefix \<Rightarrow> host_error option" where
  "CheckPoolOverlap env name tbl pool = (case link_addrs env of None \<Rightarrow> Some ListFailed
     | Some links \<Rightarrow> (case links_overlap name pool links of Some e \<Rightarrow> Some e
       | None \<Rightarrow> (case route_list env of None \<Rightarrow> Some ListFailed | Some rs \<Rightarrow> routes_overlap tbl pool rs)))"

definition checkPriorities :: "host_env \<Rightarrow> host_error option" where
  "checkPriorities env = (case rule_list env of None \<Rightarrow> Some ListFailed
     | Some ps \<Rightarrow> map_option PriorityOccupied (find (\<lambda>x. 5260 \<le> x \<and> x \<le> 5269) ps))"

subsection \<open>Setting up and tearing down\<close>

fun add_addrs :: "answers \<Rightarrow> u32 list \<Rightarrow> netlog \<Rightarrow> host_error option \<times> netlog" where
  "add_addrs ans [] log = (None, log)"
| "add_addrs ans (v # vs) log = (case netcall ans (AddrAdd (IPv4FromNum v, 32)) log of
       (Some OtherErr, log) \<Rightarrow> (Some (SystemCall (AddrAdd (IPv4FromNum v, 32)) OtherErr), log)
     | (_, log) \<Rightarrow> add_addrs ans vs log)"

definition Host_setup :: "answers \<Rightarrow> prefix \<Rightarrow> HostDev \<Rightarrow> netlog \<Rightarrow> host_error option \<times> HostDev \<times> netlog" where
  "Host_setup ans pool d log = (case As4 (PAddr (Masked pool)) of None \<Rightarrow> (Some HostPanic, d, log)
   | Some base \<Rightarrow> let n = IPv4NumFromBytes base in
     (case add_addrs ans [n + 1, n + 2] log of (Some e, log) \<Rightarrow> (Some e, d, log)
      | (None, log) \<Rightarrow> (case netcall ans LinkSetUp log of (Some e, log) \<Rightarrow> (Some (SystemCall LinkSetUp e), d, log)
        | (None, log) \<Rightarrow> let d = d\<lparr>hd_rule := (RulePriority, hd_table d)\<rparr> in
          (case netcall ans (RuleAdd RulePriority (hd_table d)) log of
             (Some e, log) \<Rightarrow> (Some (SystemCall (RuleAdd RulePriority (hd_table d)) e), d, log)
           | (None, log) \<Rightarrow> (None, d, log)))))"

fun del_routes :: "answers \<Rightarrow> route list \<Rightarrow> netlog \<Rightarrow> netlog" where
  "del_routes ans [] log = log"
| "del_routes ans (r # rs) log = del_routes ans rs (snd (netcall ans (RouteDel r) log))"

definition Host_Close :: "answers \<Rightarrow> HostDev \<Rightarrow> netlog \<Rightarrow> errno option \<times> netlog" where
  "Host_Close ans d log = (let log = del_routes ans (rev (hd_routes d)) log;
       log = (if fst (hd_rule d) \<noteq> 0 then snd (netcall ans (RuleDel (fst (hd_rule d)) (snd (hd_rule d))) log) else log)
     in netcall ans TunClose log)"

definition Create :: "answers \<Rightarrow> host_env \<Rightarrow> string \<Rightarrow> int \<Rightarrow> int \<Rightarrow> prefix \<Rightarrow> netlog \<Rightarrow> (host_error + HostDev) \<times> netlog" where
  "Create ans env name mtu tbl pool log =
    (case CheckNativeTailscale env of Some e \<Rightarrow> (Inl e, log)
     | None \<Rightarrow> (case CheckPoolOverlap env name tbl pool of Some e \<Rightarrow> (Inl e, log)
     | None \<Rightarrow> if link_exists env name then (Inl (InterfaceExists name), log)
       else (case checkPriorities env of Some e \<Rightarrow> (Inl e, log)
       | None \<Rightarrow> (case netcall ans (CreateTUN name mtu) log of (Some e, log) \<Rightarrow> (Inl (SystemCall (CreateTUN name mtu) e), log)
         | (None, log) \<Rightarrow> (case tun_name env of None \<Rightarrow> (Inl NameFailed, snd (netcall ans TunClose log))
           | Some actual \<Rightarrow> (case link_index env actual of None \<Rightarrow> (Inl LinkFailed, snd (netcall ans TunClose log))
             | Some i \<Rightarrow> (case Host_setup ans pool \<lparr>hd_name = actual, hd_link = i, hd_table = tbl, hd_routes = [], hd_rule = new_rule env, hd_pending = []\<rparr> log of
                 (Some e, d, log) \<Rightarrow> (Inl e, snd (Host_Close ans d log))
               | (None, d, log) \<Rightarrow> (Inr d, log))))))))"

subsection \<open>Routes\<close>

definition netipToIPNet :: "prefix \<Rightarrow> ipnet" where
  "netipToIPNet p = (AsSlice (PAddr p), PBits p)"

definition host_route :: "HostDev \<Rightarrow> addr \<Rightarrow> route" where
  "host_route d ip = \<lparr>LinkIndex = hd_link d, Dst = netipToIPNet (Prefix ip 32), Table = hd_table d, ScopeLink = True\<rparr>"

fun add_targets :: "answers \<Rightarrow> addr fset \<Rightarrow> addr list \<Rightarrow> HostDev \<Rightarrow> netlog \<Rightarrow> host_error option \<times> HostDev \<times> netlog" where
  "add_targets ans sn [] d log = (None, d, log)"
| "add_targets ans sn (ip # ips) d log = (if \<not> Is4 ip \<or> ip |\<in>| sn then add_targets ans sn ips d log
     else case netcall ans (RouteAdd (host_route d ip)) log of
         (Some e, log) \<Rightarrow> (Some (AddRoute (Prefix ip 32) e), d, log)
       | (None, log) \<Rightarrow> add_targets ans (finsert ip sn) ips (d\<lparr>hd_routes := hd_routes d @ [host_route d ip]\<rparr>) log)"

definition AddTargets :: "answers \<Rightarrow> addr list \<Rightarrow> HostDev \<Rightarrow> netlog \<Rightarrow> host_error option \<times> HostDev \<times> netlog" where
  "AddTargets ans ips d log = add_targets ans {||} ips d log"

definition ReconcileTargets :: "answers \<Rightarrow> addr list \<Rightarrow> HostDev \<Rightarrow> netlog \<Rightarrow> host_error option \<times> HostDev \<times> netlog" where
  "ReconcileTargets ans ips d log = AddTargets ans ips (d\<lparr>hd_routes := []\<rparr>) (del_routes ans (rev (hd_routes d)) log)"

subsection \<open>Packets\<close>

text \<open>
  One read of the TUN fills buffers of the size of \<open>buf\<close>: the argument \<open>rd\<close> gives, for the batch size, the
  buffers after the read, the sizes and the number of packets, or \<open>None\<close> for an error.
\<close>

fun take_batch :: "nat \<Rightarrow> (bytes \<times> int) list \<Rightarrow> bytes list \<Rightarrow> host_error option \<times> bytes list" where
  "take_batch hs [] pend = (None, pend)"
| "take_batch hs ((b, sz) # bs) pend = (if sz < 1 \<or> int hs + sz > int (length b) then (Some (BadSize sz), pend)
     else take_batch hs bs (pend @ [take (nat sz) (drop hs b)]))"

definition ReadPacket :: "nat \<Rightarrow> nat \<Rightarrow> int \<Rightarrow> (nat \<Rightarrow> ((bytes \<times> int) list \<times> int) option) \<Rightarrow> HostDev \<Rightarrow> (host_error + bytes) \<times> HostDev" where
  "ReadPacket hs buflen batch rd d = (case hd_pending d of p # ps \<Rightarrow> (Inr p, d\<lparr>hd_pending := ps\<rparr>)
   | [] \<Rightarrow> if buflen < hs + 1 then (Inl BufferTooShort, d)
     else let batchSize = (if batch < 1 then 1 else nat batch) in
     (case rd batchSize of None \<Rightarrow> (Inl ReadFailed, d)
      | Some (bufs, n) \<Rightarrow> if n < 1 \<or> n > int (length bufs) then (Inl (BadBatch n), d)
          else (case take_batch hs (take (nat n) bufs) (hd_pending d) of
              (Some e, pend) \<Rightarrow> (Inl e, d\<lparr>hd_pending := pend\<rparr>)
            | (None, pend) \<Rightarrow> (Inr (hd pend), d\<lparr>hd_pending := tl pend\<rparr>))))"

definition WritePacket :: "nat \<Rightarrow> (bytes \<Rightarrow> bool) \<Rightarrow> bytes \<Rightarrow> bool \<times> bytes" where
  "WritePacket hs wr p = (let buf = replicate hs 0 @ p in (wr buf, buf))"

section \<open>The overlap check is exact\<close>

lemma div_pow_mono: "m div 2 ^ k = n div (2 ^ k :: nat) \<Longrightarrow> k \<le> l \<Longrightarrow> m div 2 ^ l = n div 2 ^ l"
proof -
  assume "m div 2 ^ k = n div 2 ^ k" "k \<le> l"
  moreover have "x div 2 ^ l = x div 2 ^ k div 2 ^ (l - k)" if "k \<le> l" for x :: nat
    using that by (metis div_mult2_eq le_add_diff_inverse power_add)
  ultimately show ?thesis by simp
qed

lemma pool_overlaps_iff:
  "pool_overlaps (Prefix (V4 a) b) (Prefix (V4 c) e) \<longleftrightarrow> (\<exists>ip. Contains (Prefix (V4 a) b) ip \<and> Contains (Prefix (V4 c) e) ip)"
proof
  assume "pool_overlaps (Prefix (V4 a) b) (Prefix (V4 c) e)"
  then show "\<exists>ip. Contains (Prefix (V4 a) b) ip \<and> Contains (Prefix (V4 c) e) ip"
    unfolding pool_overlaps_def by (elim disjE) (rule exI [of _ "V4 c"], simp, rule exI [of _ "V4 a"], simp)
next
  assume "\<exists>ip. Contains (Prefix (V4 a) b) ip \<and> Contains (Prefix (V4 c) e) ip"
  then obtain ip where ip: "Contains (Prefix (V4 a) b) ip" "Contains (Prefix (V4 c) e) ip" by blast
  then obtain m where m: "ip = V4 m" by (cases ip) auto
  have "unat m div 2 ^ (32 - b) = unat a div 2 ^ (32 - b)" "unat m div 2 ^ (32 - e) = unat c div 2 ^ (32 - e)"
    using ip unfolding m Contains4_iff by simp_all
  then have "unat c div 2 ^ (32 - b) = unat a div 2 ^ (32 - b) \<or> unat a div 2 ^ (32 - e) = unat c div 2 ^ (32 - e)"
    using div_pow_mono [of "unat m" "32 - b" "unat a" "32 - e"] div_pow_mono [of "unat m" "32 - e" "unat c" "32 - b"]
    by (metis linear)
  then show "pool_overlaps (Prefix (V4 a) b) (Prefix (V4 c) e)" by (simp only: pool_overlaps_def prefix.sel Contains4_iff)
qed

text \<open>The prefixes the check compares with: addresses of other interfaces, routes of other tables except the default.\<close>

definition foreign_prefix :: "host_env \<Rightarrow> string \<Rightarrow> int \<Rightarrow> prefix \<Rightarrow> bool" where
  "foreign_prefix env name tbl p \<longleftrightarrow>
     (\<exists>links l as a. link_addrs env = Some links \<and> (l, as) \<in> set links \<and> l \<noteq> name \<and> a \<in> set as \<and> ParsePrefix a = Some p)
     \<or> (\<exists>rs s ones t. route_list env = Some rs \<and> (Some (s, ones), t) \<in> set rs \<and> ones \<noteq> 0 \<and> t \<noteq> tbl \<and> ParsePrefix s = Some p)"

lemma addr_overlap_None: "addr_overlap pool l as = None \<longleftrightarrow> (\<forall>a p. a \<in> set as \<longrightarrow> ParsePrefix a = Some p \<longrightarrow> \<not> pool_overlaps pool p)"
  by (induction pool l as rule: addr_overlap.induct) (auto split: option.splits if_splits)

lemma links_overlap_None:
  "links_overlap name pool ls = None \<longleftrightarrow> (\<forall>l as a p. (l, as) \<in> set ls \<longrightarrow> l \<noteq> name \<longrightarrow> a \<in> set as \<longrightarrow> ParsePrefix a = Some p
     \<longrightarrow> \<not> pool_overlaps pool p)"
proof (induction ls)
  case (Cons la ls)
  obtain l as where la: "la = (l, as)" by fastforce
  have "links_overlap name pool ((l, as) # ls) = None \<longleftrightarrow> (l \<noteq> name \<longrightarrow> addr_overlap pool l as = None) \<and> links_overlap name pool ls = None"
    by (simp split: option.split)
  then show ?case unfolding la addr_overlap_None Cons.IH by auto
qed simp

lemma routes_overlap_None:
  "routes_overlap tbl pool rs = None \<longleftrightarrow> (\<forall>s ones t p. (Some (s, ones), t) \<in> set rs \<longrightarrow> ones \<noteq> 0 \<longrightarrow> t \<noteq> tbl
     \<longrightarrow> ParsePrefix s = Some p \<longrightarrow> \<not> pool_overlaps pool p)"
proof (induction tbl pool rs rule: routes_overlap.induct)
  case (2 tbl pool dst t rs)
  show ?case
  proof (cases dst)
    case None
    then show ?thesis using 2 by auto
  next
    case (Some so)
    obtain s ones where so: "so = (s, ones)" by fastforce
    show ?thesis
    proof (cases "ones = 0 \<or> t = tbl")
      case True
      then show ?thesis using 2 Some so by auto
    next
      case False
      then show ?thesis using 2 Some so by (cases "ParsePrefix s") auto
    qed
  qed
qed simp

text \<open>
  C35: the pool check is exact: it passes exactly when the interfaces and routes can be listed and no
  IPv4 address belongs both to the pool and to an address block of another interface or to a
  non-default route of another table.
\<close>

theorem pool_check_exact:
  assumes "\<And>p. foreign_prefix env name tbl p \<Longrightarrow> Is4 (PAddr p)"
  shows "CheckPoolOverlap env name tbl (Prefix (V4 n) b) = None \<longleftrightarrow> link_addrs env \<noteq> None \<and> route_list env \<noteq> None
    \<and> \<not> (\<exists>p ip. foreign_prefix env name tbl p \<and> Contains (Prefix (V4 n) b) ip \<and> Contains p ip)"
proof -
  let ?pool = "Prefix (V4 n) b"
  have "CheckPoolOverlap env name tbl ?pool = None \<longleftrightarrow> link_addrs env \<noteq> None \<and> route_list env \<noteq> None
      \<and> (\<forall>p. foreign_prefix env name tbl p \<longrightarrow> \<not> pool_overlaps ?pool p)"
  proof -
    have "CheckPoolOverlap env name tbl ?pool = None \<longleftrightarrow> (\<exists>links rs. link_addrs env = Some links \<and> route_list env = Some rs
        \<and> links_overlap name ?pool links = None \<and> routes_overlap tbl ?pool rs = None)"
      by (auto simp: CheckPoolOverlap_def split: option.splits)
    then show ?thesis unfolding links_overlap_None routes_overlap_None foreign_prefix_def
      by (cases "link_addrs env"; cases "route_list env") (simp_all del: neq0_conv, blast)
  qed
  moreover have "pool_overlaps ?pool p \<longleftrightarrow> (\<exists>ip. Contains ?pool ip \<and> Contains p ip)" if "foreign_prefix env name tbl p" for p
  proof -
    have "Is4 (PAddr p)" using assms that by blast
    then obtain c where "p = Prefix (V4 c) (PBits p)" by (metis Is4.elims(2) prefix.collapse)
    then show ?thesis by (metis pool_overlaps_iff)
  qed
  ultimately show ?thesis by blast
qed

section \<open>The routes of the device\<close>

text \<open>The routes that were added and not asked to be deleted since.\<close>

definition track :: "route list \<Rightarrow> netcall \<times> errno option \<Rightarrow> route list" where
  "track rs cr = (case cr of (RouteAdd r, None) \<Rightarrow> rs @ [r] | (RouteDel r, _) \<Rightarrow> remove1 r rs | _ \<Rightarrow> rs)"

definition outstanding :: "netlog \<Rightarrow> route list" where
  "outstanding log = foldl track [] log"

text \<open>
  What the kernel still has: a deletion that failed leaves its route in place. The device ignores the outcome of
  its deletions, so the two views agree only as long as none fails.
\<close>

definition kernel_track :: "route list \<Rightarrow> netcall \<times> errno option \<Rightarrow> route list" where
  "kernel_track rs cr = (case cr of (RouteAdd r, None) \<Rightarrow> rs @ [r] | (RouteDel r, None) \<Rightarrow> remove1 r rs | _ \<Rightarrow> rs)"

lemma kernel_agrees:
  assumes "\<And>r x. (RouteDel r, Some x) \<notin> set log"
  shows "foldl kernel_track [] log = outstanding log"
proof -
  have "foldl kernel_track rs log = foldl track rs log" for rs
    using assms
  proof (induction log arbitrary: rs)
    case (Cons cr log)
    have "kernel_track rs cr = track rs cr"
      using Cons.prems by (cases cr) (fastforce simp: kernel_track_def track_def split: netcall.split option.split)
    then show ?case using Cons by (metis foldl_Cons list.set_intros(2))
  qed simp
  then show ?thesis by (simp add: outstanding_def)
qed

lemma outstanding_Nil [simp]: "outstanding [] = []"
  by (simp add: outstanding_def)

lemma outstanding_snoc [simp]: "outstanding (log @ [cr]) = track (outstanding log) cr"
  by (simp add: outstanding_def)

lemma outstanding_quiet: "(\<And>c r. (c, r) \<in> set new \<Longrightarrow> \<forall>x. c \<noteq> RouteAdd x \<and> c \<noteq> RouteDel x) \<Longrightarrow> outstanding (log @ new) = outstanding log"
proof (induction new rule: rev_induct)
  case (snoc cr new)
  obtain c r where cr: "cr = (c, r)" by fastforce
  have "track rs cr = rs" for rs using snoc.prems [of c r] by (cases c) (auto simp: cr track_def)
  moreover have "outstanding (log @ new) = outstanding log" by (rule snoc.IH) (metis Un_iff set_append snoc.prems)
  ultimately show ?case using outstanding_snoc [of "log @ new" cr] by simp
qed simp

text \<open>What a device may do: one log extends another with calls that meet a condition.\<close>

definition calls_ok :: "(netcall \<Rightarrow> bool) \<Rightarrow> netlog \<Rightarrow> netlog \<Rightarrow> bool" where
  "calls_ok P log log' \<longleftrightarrow> (\<exists>new. log' = log @ new \<and> (\<forall>(c, r) \<in> set new. P c))"

lemma calls_ok_refl [simp, intro]: "calls_ok P log log"
  by (simp add: calls_ok_def)

lemma calls_ok_trans [trans]: "calls_ok P a b \<Longrightarrow> calls_ok P b c \<Longrightarrow> calls_ok P a c"
  by (fastforce simp: calls_ok_def)

lemma calls_ok_snoc [simp]: "P c \<Longrightarrow> calls_ok P log (log @ [(c, r)])"
  by (simp add: calls_ok_def)

lemma del_routes_calls: "(\<And>r. r \<in> set rs \<Longrightarrow> P (RouteDel r)) \<Longrightarrow> calls_ok P log (del_routes ans rs log)"
proof (induction rs arbitrary: log)
  case (Cons r rs)
  have "calls_ok P log (log @ [(RouteDel r, ans log (RouteDel r))])" using Cons.prems by simp
  also have "calls_ok P \<dots> (del_routes ans (r # rs) log)" using Cons by (simp add: netcall_def)
  finally show ?case .
qed simp

lemma outstanding_del_routes: "mset (outstanding (del_routes ans rs log)) = mset (outstanding log) - mset rs"
proof (induction rs arbitrary: log)
  case (Cons r rs)
  then show ?case by (simp add: netcall_def track_def minus_add_mset_if_not_in_lhs)
qed simp

lemma Host_Close_run:
  obtains tail r where "snd (Host_Close ans d log) = del_routes ans (rev (hd_routes d)) log @ tail @ [(TunClose, r)]"
    "\<And>c r. (c, r) \<in> set tail \<Longrightarrow> c = RuleDel (fst (hd_rule d)) (snd (hd_rule d))"
    "fst (hd_rule d) \<noteq> 0 \<Longrightarrow> tail \<noteq> []"
proof (cases "fst (hd_rule d) = 0")
  case True
  then show ?thesis using that [of "[]"] by (simp add: Host_Close_def netcall_def Let_def)
next
  case False
  let ?log = "del_routes ans (rev (hd_routes d)) log" and ?c = "RuleDel (fst (hd_rule d)) (snd (hd_rule d))"
  show ?thesis using that [of "[(?c, ans ?log ?c)]"] False by (simp add: Host_Close_def netcall_def Let_def)
qed

text \<open>The first occurrences of the IPv4 addresses, in order.\<close>

fun targets4 :: "addr fset \<Rightarrow> addr list \<Rightarrow> addr list" where
  "targets4 sn [] = []"
| "targets4 sn (ip # ips) = (if \<not> Is4 ip \<or> ip |\<in>| sn then targets4 sn ips else ip # targets4 (finsert ip sn) ips)"

lemma targets4_set: "set (targets4 sn ips) = {ip \<in> set ips. Is4 ip \<and> ip |\<notin>| sn}"
  by (induction sn ips rule: targets4.induct) auto

lemma targets4_distinct: "distinct (targets4 sn ips)"
  by (induction sn ips rule: targets4.induct) (auto simp: targets4_set)

lemma host_route_frame [simp]: "host_route (d\<lparr>hd_routes := rs\<rparr>) = host_route d"
  by (rule ext) (simp add: host_route_def)

lemma add_targets_run:
  assumes "add_targets ans sn ips d log = (e, d', log')"
  shows "\<exists>done. prefix done (targets4 sn ips) \<and> (e = None \<longrightarrow> done = targets4 sn ips)
    \<and> d' = d\<lparr>hd_routes := hd_routes d @ map (host_route d) done\<rparr>
    \<and> calls_ok (\<lambda>c. \<exists>ip. Is4 ip \<and> c = RouteAdd (host_route d ip)) log log'
    \<and> outstanding log' = outstanding log @ map (host_route d) done"
  using assms
proof (induction ans sn ips d log arbitrary: e d' log' rule: add_targets.induct)
  case (2 ans sn ip ips d log)
  show ?case
  proof (cases "\<not> Is4 ip \<or> ip |\<in>| sn")
    case True
    then show ?thesis using 2 by simp
  next
    case new: False
    let ?c = "RouteAdd (host_route d ip)"
    show ?thesis
    proof (cases "ans log ?c")
      case None
      let ?d = "d\<lparr>hd_routes := hd_routes d @ [host_route d ip]\<rparr>" and ?log = "log @ [(?c, None)]"
      have n: "(None, ?log) = netcall ans ?c log" using None by (simp add: netcall_def)
      have "add_targets ans (finsert ip sn) ips ?d ?log = (e, d', log')" using "2.prems" new None by (simp add: netcall_def)
      from "2.IH"(2) [OF new n refl this] obtain dn where dn: "prefix dn (targets4 (finsert ip sn) ips)"
        "e = None \<longrightarrow> dn = targets4 (finsert ip sn) ips" "d' = ?d\<lparr>hd_routes := hd_routes ?d @ map (host_route d) dn\<rparr>"
        "calls_ok (\<lambda>c. \<exists>ip. Is4 ip \<and> c = RouteAdd (host_route d ip)) ?log log'" "outstanding log' = outstanding ?log @ map (host_route d) dn"
        by auto
      have "calls_ok (\<lambda>c. \<exists>ip. Is4 ip \<and> c = RouteAdd (host_route d ip)) log log'"
        by (rule calls_ok_trans [OF calls_ok_snoc dn(4)]) (use new in auto)
      with dn show ?thesis using new by (intro exI [of _ "ip # dn"]) (simp add: track_def)
    next
      case (Some x)
      then have "e = Some (AddRoute (Prefix ip 32) x)" "d' = d" "log' = log @ [(?c, Some x)]"
        using "2.prems" new by (auto simp: netcall_def)
      then show ?thesis using new by (intro exI [of _ "[]"]) (auto simp: track_def intro!: calls_ok_snoc)
    qed
  qed
qed simp

text \<open>A device from its creation through target updates, with the log of the kernel calls.\<close>

inductive host_reachable :: "answers \<Rightarrow> HostDev \<Rightarrow> netlog \<Rightarrow> bool" for ans where
  created: "Create ans env name mtu tbl pool [] = (Inr d, log) \<Longrightarrow> host_reachable ans d log"
| added: "host_reachable ans d log \<Longrightarrow> AddTargets ans ips d log = (e, d', log') \<Longrightarrow> hd_routes d = [] \<Longrightarrow> host_reachable ans d' log'"
| reconciled: "host_reachable ans d log \<Longrightarrow> ReconcileTargets ans ips d log = (e, d', log') \<Longrightarrow> host_reachable ans d' log'"
| received: "host_reachable ans d log \<Longrightarrow> ReadPacket hs n b rd d = (r, d') \<Longrightarrow> host_reachable ans d' log"

text \<open>A route to one IPv4 address, on the device's own link and table.\<close>

definition narrow :: "HostDev \<Rightarrow> route \<Rightarrow> bool" where
  "narrow d r \<longleftrightarrow> (\<exists>n. r = host_route d (V4 n))"

definition host_inv :: "HostDev \<Rightarrow> netlog \<Rightarrow> bool" where
  "host_inv d log \<longleftrightarrow> mset (outstanding log) = mset (hd_routes d) \<and> distinct (hd_routes d) \<and> (\<forall>r \<in> set (hd_routes d). narrow d r)
     \<and> (\<forall>r e. (RouteAdd r, e) \<in> set log \<longrightarrow> narrow d r) \<and> (\<forall>r e. (RouteDel r, e) \<in> set log \<longrightarrow> narrow d r)
     \<and> hd_rule d = (RulePriority, hd_table d)"

lemma host_route_inject: "Is4 ip \<Longrightarrow> Is4 ip' \<Longrightarrow> host_route d ip = host_route d ip' \<Longrightarrow> ip = ip'"
proof -
  assume "Is4 ip" "Is4 ip'" "host_route d ip = host_route d ip'"
  then obtain m n where "ip = V4 m" "ip' = V4 n" "AsSlice (V4 m) = AsSlice (V4 n)"
    by (cases ip; cases ip') (auto simp: host_route_def netipToIPNet_def simp del: AsSlice.simps)
  then show ?thesis by (metis AddrFromSlice_AsSlice4 option.inject)
qed

lemma narrow_frame [simp]: "narrow (d\<lparr>hd_routes := rs\<rparr>) = narrow d" "narrow (d\<lparr>hd_pending := ps\<rparr>) = narrow d"
  by (auto simp: narrow_def host_route_def)

lemma AddTargets_inv:
  assumes "host_inv d log" "hd_routes d = []" "AddTargets ans ips d log = (e, d', log')"
  shows "host_inv d' log'"
proof -
  obtain dn where dn: "prefix dn (targets4 {||} ips)" "d' = d\<lparr>hd_routes := hd_routes d @ map (host_route d) dn\<rparr>"
    "calls_ok (\<lambda>c. \<exists>ip. Is4 ip \<and> c = RouteAdd (host_route d ip)) log log'" "outstanding log' = outstanding log @ map (host_route d) dn"
    using add_targets_run [OF assms(3) [unfolded AddTargets_def]] by blast
  have is4: "Is4 ip" if "ip \<in> set dn" for ip
    using that set_mono_prefix [OF dn(1)] by (auto simp: targets4_set)
  have "distinct dn" using dn(1) targets4_distinct by (metis distinct_append prefix_def)
  then have "distinct (map (host_route d) dn)" using is4 by (auto simp: distinct_map inj_on_def intro: host_route_inject)
  moreover have nar: "narrow d (host_route d ip)" if "Is4 ip" for ip using that by (cases ip) (auto simp: narrow_def)
  moreover obtain new where "log' = log @ new" "\<forall>(c, r) \<in> set new. \<exists>ip. Is4 ip \<and> c = RouteAdd (host_route d ip)"
    using dn(3) by (auto simp: calls_ok_def)
  ultimately show ?thesis using assms(1,2) dn(2,4) is4 by (fastforce simp: host_inv_def)
qed

lemma del_all_inv:
  assumes "host_inv d log"
  shows "host_inv (d\<lparr>hd_routes := []\<rparr>) (del_routes ans (rev (hd_routes d)) log)"
proof -
  have "calls_ok (\<lambda>c. \<exists>r. narrow d r \<and> c = RouteDel r) log (del_routes ans (rev (hd_routes d)) log)"
    using assms by (intro del_routes_calls) (auto simp: host_inv_def)
  moreover have "mset (outstanding (del_routes ans (rev (hd_routes d)) log)) = {#}"
    using assms by (simp add: outstanding_del_routes host_inv_def)
  ultimately show ?thesis using assms by (fastforce simp: host_inv_def calls_ok_def)
qed

lemma add_addrs_calls: "add_addrs ans vs log = (e, log') \<Longrightarrow> calls_ok (\<lambda>c. \<exists>v \<in> set vs. c = AddrAdd (IPv4FromNum v, 32)) log log'"
proof (induction ans vs log arbitrary: e log' rule: add_addrs.induct)
  case (2 ans v vs log)
  let ?c = "AddrAdd (IPv4FromNum v, 32)"
  have one: "calls_ok (\<lambda>c. \<exists>v \<in> set (v # vs). c = AddrAdd (IPv4FromNum v, 32)) log (log @ [(?c, ans log ?c)])" by (rule calls_ok_snoc) simp
  have "calls_ok (\<lambda>c. \<exists>v \<in> set vs. c = AddrAdd (IPv4FromNum v, 32)) (log @ [(?c, ans log ?c)]) log'" if "ans log ?c \<noteq> Some OtherErr"
    using that 2 by (cases "ans log ?c") (auto simp: netcall_def split: errno.splits)
  moreover have "log' = log @ [(?c, ans log ?c)]" if "ans log ?c = Some OtherErr" using that 2 by (simp add: netcall_def)
  ultimately show ?case using one by (fastforce simp: calls_ok_def)
qed simp

text \<open>The calls of a setup; a rule is only ever added with the device's own priority and table.\<close>

lemma setup_calls:
  assumes "Host_setup ans pool d log = (e, d', log')"
  shows "calls_ok (\<lambda>c. (\<exists>v. c = AddrAdd (IPv4FromNum v, 32)) \<or> c = LinkSetUp \<or> c = RuleAdd RulePriority (hd_table d)) log log'
    \<and> d' = d\<lparr>hd_rule := hd_rule d'\<rparr> \<and> (hd_rule d' = hd_rule d \<or> hd_rule d' = (RulePriority, hd_table d))
    \<and> (e = None \<longrightarrow> hd_rule d' = (RulePriority, hd_table d))
    \<and> ((\<exists>r. (RuleAdd RulePriority (hd_table d), r) \<in> set log') \<longrightarrow> (\<exists>r. (RuleAdd RulePriority (hd_table d), r) \<in> set log) \<or> hd_rule d' = (RulePriority, hd_table d))"
    (is "calls_ok ?P log log' \<and> _")
proof (cases "As4 (PAddr (Masked pool))")
  case None
  then show ?thesis using assms by (auto simp: Host_setup_def)
next
  case (Some base)
  let ?n = "IPv4NumFromBytes base"
  obtain e1 log1 where a: "add_addrs ans [?n + 1, ?n + 2] log = (e1, log1)" by fastforce
  obtain new where new: "log1 = log @ new" "\<And>c r. (c, r) \<in> set new \<Longrightarrow> \<exists>v. c = AddrAdd (IPv4FromNum v, 32)"
    using add_addrs_calls [OF a] by (fastforce simp: calls_ok_def)
  have 1: "calls_ok ?P log log1" using new by (auto simp: calls_ok_def)
  note step = calls_ok_trans [OF _ calls_ok_snoc [of ?P]]
  let ?r2 = "ans log1 LinkSetUp" and ?log2 = "log1 @ [(LinkSetUp, ans log1 LinkSetUp)]"
  let ?c3 = "RuleAdd RulePriority (hd_table d)"
  let ?log3 = "?log2 @ [(?c3, ans ?log2 ?c3)]"
  have 2: "calls_ok ?P log ?log2" by (rule step [OF 1]) simp
  have 3: "calls_ok ?P log ?log3" by (rule step [OF 2]) simp
  show ?thesis
  proof (cases e1)
    case (Some x)
    then have "d' = d" "log' = log1" "e \<noteq> None" using assms \<open>As4 _ = Some base\<close> a by (auto simp: Host_setup_def Let_def)
    then show ?thesis using 1 new by (auto dest: new(2))
  next
    case none1: None
    show ?thesis
    proof (cases ?r2)
      case (Some x)
      then have "d' = d" "log' = ?log2" "e \<noteq> None" using assms \<open>As4 _ = Some base\<close> a none1 by (auto simp: Host_setup_def Let_def netcall_def)
      then show ?thesis using 2 new(1) by (auto dest: new(2))
    next
      case None
      then have "d' = d\<lparr>hd_rule := (RulePriority, hd_table d)\<rparr>" "log' = ?log3"
        using assms \<open>As4 _ = Some base\<close> a none1 by (auto simp: Host_setup_def Let_def netcall_def split: option.splits)
      then show ?thesis using 3 by simp
    qed
  qed
qed

lemma Create_inv:
  assumes "Create ans env name mtu tbl pool [] = (Inr d, log)"
  shows "host_inv d log"
proof -
  obtain actual i log1 where s: "Host_setup ans pool \<lparr>hd_name = actual, hd_link = i, hd_table = tbl, hd_routes = [], hd_rule = new_rule env, hd_pending = []\<rparr> log1 = (None, d, log)"
    and l: "log1 = [(CreateTUN name mtu, None)]"
    using assms by (auto simp: Create_def netcall_def split: option.splits if_splits prod.splits)
  let ?d = "\<lparr>hd_name = actual, hd_link = i, hd_table = tbl, hd_routes = [], hd_rule = new_rule env, hd_pending = []\<rparr>"
  from setup_calls [OF s] have d: "d = ?d\<lparr>hd_rule := (RulePriority, tbl)\<rparr>" by (metis HostDev.select_convs(3))
  obtain new where new: "log = log1 @ new" "\<And>c r. (c, r) \<in> set new \<Longrightarrow> (\<exists>v. c = AddrAdd (IPv4FromNum v, 32)) \<or> c = LinkSetUp \<or> c = RuleAdd RulePriority tbl"
    using setup_calls [OF s] by (fastforce simp: calls_ok_def)
  have "outstanding (log1 @ new) = []"
    using new(2) by (induction new rule: rev_induct) (force simp: l track_def outstanding_def)+
  then show ?thesis using new(2) by (auto simp: host_inv_def d new(1) l dest: new(2))
qed

lemma ReadPacket_frame: "ReadPacket hs n b rd d = (r, d') \<Longrightarrow> d' = d\<lparr>hd_pending := hd_pending d'\<rparr>"
  by (auto simp: ReadPacket_def Let_def split: list.splits if_splits option.splits prod.splits)

lemma host_reachable_inv: "host_reachable ans d log \<Longrightarrow> host_inv d log"
proof (induction rule: host_reachable.induct)
  case (reconciled d log ips e d' log')
  show ?case
    by (rule AddTargets_inv [OF del_all_inv [OF reconciled.IH] _ reconciled.hyps(2) [unfolded ReconcileTargets_def]]) simp
next
  case (received d log hs n b rd r d')
  have "host_inv (d\<lparr>hd_pending := x\<rparr>) log" for x using received.IH by (simp add: host_inv_def)
  then show ?case using ReadPacket_frame [OF received.hyps(2)] by metis
qed (auto intro: Create_inv AddTargets_inv)

lemma Host_Close_cleans:
  assumes "host_inv d log"
  shows "case Host_Close ans d log of (_, log') \<Rightarrow> outstanding log' = [] \<and> fst (last log') = TunClose \<and> (\<exists>e. (RuleDel 5260 (hd_table d), e) \<in> set log')"
proof -
  have "mset (outstanding (del_routes ans (rev (hd_routes d)) log)) = {#}"
    using assms by (simp add: outstanding_del_routes host_inv_def)
  then have o: "outstanding (del_routes ans (rev (hd_routes d)) log) = []" by simp
  have rule: "hd_rule d = (5260, hd_table d)" using assms by (simp add: host_inv_def RulePriority_def)
  obtain tail r where t: "snd (Host_Close ans d log) = del_routes ans (rev (hd_routes d)) log @ tail @ [(TunClose, r)]"
    "\<And>c r. (c, r) \<in> set tail \<Longrightarrow> c = RuleDel 5260 (hd_table d)" "tail \<noteq> []"
    by (rule Host_Close_run [of ans d log]) (simp add: rule)
  have "outstanding (snd (Host_Close ans d log)) = []"
    unfolding t(1) by (subst outstanding_quiet) (auto simp: o dest: t(2))
  moreover have "\<exists>e. (RuleDel 5260 (hd_table d), e) \<in> set tail" using t(2,3) by (cases tail) auto
  ultimately show ?thesis using t(1) by (auto simp: case_prod_beta)
qed

text \<open>
  C12: narrow routes. In every reachable state of the host device, the routes it asked the kernel for are
  single IPv4 addresses on its own link and in its own table; it remembers, without duplicates, exactly
  those that were added and that it has not asked the kernel to delete since; and closing it asks the kernel to
  delete all of them, its policy rule and the TUN.
\<close>

theorem host_routes_narrow:
  assumes "host_reachable ans d log"
  shows "(\<forall>r e. (RouteAdd r, e) \<in> set log \<longrightarrow> (\<exists>n. r = \<lparr>LinkIndex = hd_link d, Dst = (AsSlice (V4 n), 32), Table = hd_table d, ScopeLink = True\<rparr>))
    \<and> distinct (hd_routes d) \<and> mset (outstanding log) = mset (hd_routes d)
    \<and> (case Host_Close ans d log of (_, log') \<Rightarrow> outstanding log' = [] \<and> fst (last log') = TunClose \<and> (\<exists>e. (RuleDel 5260 (hd_table d), e) \<in> set log'))"
proof -
  have inv: "host_inv d log" using assms by (rule host_reachable_inv)
  from Host_Close_cleans [OF this] inv show ?thesis
    by (simp add: host_inv_def narrow_def host_route_def netipToIPNet_def del: AsSlice.simps)
qed

text \<open>
  Reconciliation is exact. When \<open>ReconcileTargets\<close> succeeds, the device's routes are one route for each
  IPv4 address among the targets, in order of first occurrence; when a call fails, they are an initial
  part of that list, and they are still tracked.
\<close>

lemma ReconcileTargets_exact:
  assumes "host_reachable ans d log" "ReconcileTargets ans ips d log = (e, d', log')"
  shows "\<exists>done. prefix done (targets4 {||} ips) \<and> (e = None \<longrightarrow> done = targets4 {||} ips)
    \<and> hd_routes d' = map (host_route d) done \<and> mset (outstanding log') = mset (hd_routes d')
    \<and> set (targets4 {||} ips) = {ip \<in> set ips. Is4 ip}"
proof -
  have "host_inv d' log'" using host_reachable.reconciled [OF assms] by (rule host_reachable_inv)
  then have m: "mset (outstanding log') = mset (hd_routes d')" by (simp add: host_inv_def)
  from add_targets_run [OF assms(2) [unfolded ReconcileTargets_def AddTargets_def]]
  obtain dn where "prefix dn (targets4 {||} ips)" "e = None \<longrightarrow> dn = targets4 {||} ips" "d' = d\<lparr>hd_routes := map (host_route d) dn\<rparr>" by auto
  with m show ?thesis by (auto simp: targets4_set)
qed

lemma Create_Inl:
  assumes "Create ans env name mtu tbl pool [] = (Inl e, log)"
  shows "(log = [] \<or> CheckNativeTailscale env = None \<and> CheckPoolOverlap env name tbl pool = None \<and> checkPriorities env = None \<and> \<not> link_exists env name)
    \<and> ((CreateTUN name mtu, None) \<in> set log \<longrightarrow> fst (last log) = TunClose)
    \<and> (\<forall>r. (RuleAdd 5260 tbl, r) \<in> set log \<longrightarrow> (\<exists>r'. (RuleDel 5260 tbl, r') \<in> set log)) \<and> outstanding log = []"
proof -
  consider "log = []" | x where "log = [(CreateTUN name mtu, Some x)]" | x where "log = [(CreateTUN name mtu, None), (TunClose, x)]"
    | i actual x d log1 where "Host_setup ans pool \<lparr>hd_name = actual, hd_link = i, hd_table = tbl, hd_routes = [], hd_rule = new_rule env, hd_pending = []\<rparr>
        [(CreateTUN name mtu, None)] = (Some x, d, log1)" "log = snd (Host_Close ans d log1)"
    using assms by (auto simp: Create_def netcall_def split: option.splits if_splits prod.splits)
  moreover have checks: "log = [] \<or> CheckNativeTailscale env = None \<and> CheckPoolOverlap env name tbl pool = None \<and> checkPriorities env = None \<and> \<not> link_exists env name"
    using assms by (auto simp: Create_def split: option.splits if_splits)
  ultimately show ?thesis
  proof cases
    case (4 i actual x d log1)
    let ?d = "\<lparr>hd_name = actual, hd_link = i, hd_table = tbl, hd_routes = [], hd_rule = new_rule env, hd_pending = []\<rparr>"
    note s = setup_calls [OF 4(1)]
    have r: "hd_routes d = []" "hd_table d = tbl" using s by (metis HostDev.select_convs HostDev.update_convs(5) HostDev.surjective)+
    obtain new where new: "log1 = [(CreateTUN name mtu, None)] @ new"
      "\<And>c r. (c, r) \<in> set new \<Longrightarrow> (\<exists>v. c = AddrAdd (IPv4FromNum v, 32)) \<or> c = LinkSetUp \<or> c = RuleAdd RulePriority tbl"
      using s by (fastforce simp: calls_ok_def)
    have o: "outstanding log1 = []" unfolding new(1) by (subst outstanding_quiet) (auto simp: outstanding_def track_def dest: new(2))
    obtain tail r where t: "log = log1 @ tail @ [(TunClose, r)]" "\<And>c r. (c, r) \<in> set tail \<Longrightarrow> c = RuleDel (fst (hd_rule d)) (snd (hd_rule d))"
      "fst (hd_rule d) \<noteq> 0 \<Longrightarrow> tail \<noteq> []"
      by (rule Host_Close_run [of ans d log1]) (use 4(2) r in simp)
    have "outstanding log = []" unfolding t(1) by (subst outstanding_quiet) (auto simp: o dest: t(2))
    moreover have "\<exists>x. (RuleDel 5260 tbl, x) \<in> set tail" if "(RuleAdd 5260 tbl, q) \<in> set log" for q
    proof -
      have "(RuleAdd 5260 tbl, q) \<in> set log1" using that t(1,2) by auto
      then have "hd_rule d = (5260, tbl)" using s by (auto simp: RulePriority_def)
      then show ?thesis using t(2,3) by (cases tail) auto
    qed
    ultimately show ?thesis using checks t(1) by auto
  qed (auto simp: track_def outstanding_def)
qed

lemma Create_Inr: "Create ans env name mtu tbl pool [] = (Inr d, log) \<Longrightarrow> hd_routes d = [] \<and> hd_link d \<in> {i. \<exists>n. link_index env n = Some i} \<and> hd_table d = tbl"
  by (auto simp: Create_def netcall_def split: option.splits if_splits prod.splits dest!: setup_calls)

section \<open>Packets\<close>

lemma take_batch_ok:
  "take_batch hs bs pend = (None, pend') \<Longrightarrow> pend' = pend @ map (\<lambda>(b, sz). take (nat sz) (drop hs b)) bs
    \<and> (\<forall>(b, sz) \<in> set bs. 1 \<le> sz \<and> int hs + sz \<le> int (length b))"
  by (induction hs bs pend rule: take_batch.induct) (auto split: if_splits)

text \<open>
  No packet is lost, reordered or altered between the TUN and the multiplexer: a packet that is
  returned is the first of the pending ones, or of the batch just read, and the rest stays pending.
\<close>

lemma ReadPacket_fifo:
  assumes "ReadPacket hs n b rd d = (Inr p, d')"
  shows "p # hd_pending d' = hd_pending d \<or> hd_pending d = [] \<and> (\<exists>bufs k. rd (if b < 1 then 1 else nat b) = Some (bufs, k)
    \<and> p # hd_pending d' = map (\<lambda>(x, sz). take (nat sz) (drop hs x)) (take (nat k) bufs) \<and> p \<noteq> [])"
proof (cases "hd_pending d")
  case Nil
  let ?bs = "if b < 1 then 1 else nat b"
  obtain bufs k pend where r: "rd ?bs = Some (bufs, k)" "1 \<le> k" "k \<le> int (length bufs)" "take_batch hs (take (nat k) bufs) [] = (None, pend)"
    "p = hd pend" "hd_pending d' = tl pend"
    using assms Nil by (auto simp: ReadPacket_def Let_def not_less split: if_splits option.splits prod.splits)
  obtain x sz rest where t: "take (nat k) bufs = (x, sz) # rest" using r(2,3) by (cases "take (nat k) bufs") auto
  have "pend = map (\<lambda>(x, sz). take (nat sz) (drop hs x)) (take (nat k) bufs)" "1 \<le> sz" "int hs + sz \<le> int (length x)"
    using take_batch_ok [OF r(4)] by (auto simp: t)
  then show ?thesis using r t Nil by (intro disjI2 conjI exI [of _ bufs] exI [of _ k]) auto
qed (use assms in \<open>auto simp: ReadPacket_def\<close>)

section \<open>Examples\<close>

definition ex_host_env :: host_env where
  "ex_host_env = \<lparr>tailscale0 = False, proc_comm = Some [(''1'', Some ''init\<newline>'')], link_addrs = Some [(''eth0'', [''192.168.1.7/24''])],
     route_list = Some [(None, 254), (Some (''192.168.1.0/24'', 24), 254)], rule_list = Some [0, 32766], link_exists = (\<lambda>_. False),
     tun_name = Some ''mt0'', link_index = (\<lambda>_. Some 7), new_rule = (- 1, 0)\<rparr>"

definition all_ok :: answers where "all_ok log c = None"

definition ex_pool :: prefix where "ex_pool = Prefix (V4 180355072) 16"

lemma ex_checks:
  "CheckNativeTailscale ex_host_env = None" "CheckPoolOverlap ex_host_env ''mt0'' 52001 ex_pool = None" "checkPriorities ex_host_env = None"
  by (simp add: CheckNativeTailscale_def ex_host_env_def Atoi_ok_def, code_simp, code_simp)

lemma ex_created: "\<exists>d log. Create all_ok ex_host_env ''mt0'' 1280 52001 ex_pool [] = (Inr d, log) \<and> hd_link d = 7 \<and> hd_table d = 52001"
  unfolding Create_def ex_checks by (simp add: ex_host_env_def netcall_def all_ok_def Host_setup_def ex_pool_def Let_def)

theorem pool_check_exact_witness:
  "\<not> (\<exists>p ip. foreign_prefix ex_host_env ''mt0'' 52001 p \<and> Contains ex_pool ip \<and> Contains p ip)"
proof -
  have p: "ParsePrefix ''192.168.1.7/24'' = Some (Prefix (V4 3232235783) 24)" "ParsePrefix ''192.168.1.0/24'' = Some (Prefix (V4 3232235776) 24)"
    by code_simp+
  have "Is4 (PAddr p)" if "foreign_prefix ex_host_env ''mt0'' 52001 p" for p
    using that by (auto simp: foreign_prefix_def ex_host_env_def p)
  from pool_check_exact [OF this] show ?thesis using ex_checks(2) by (simp add: ex_pool_def)
qed

lemma ex_routed:
  "\<exists>d log. host_reachable all_ok d log \<and> hd_routes d = [\<lparr>LinkIndex = 7, Dst = (AsSlice (V4 180355077), 32), Table = 52001, ScopeLink = True\<rparr>]"
proof -
  obtain d log where d: "Create all_ok ex_host_env ''mt0'' 1280 52001 ex_pool [] = (Inr d, log)" "hd_link d = 7" "hd_table d = 52001"
    using ex_created by blast
  have r: "hd_routes d = []" using Create_Inr [OF d(1)] by simp
  have "AddTargets all_ok [V4 180355077, V4 180355077] d log = (None, d\<lparr>hd_routes := [host_route d (V4 180355077)]\<rparr>,
      log @ [(RouteAdd (host_route d (V4 180355077)), None)])"
    using r by (simp add: AddTargets_def netcall_def all_ok_def)
  from host_reachable.added [OF host_reachable.created [OF d(1)] this r] d show ?thesis
    by (intro exI [of _ "d\<lparr>hd_routes := [host_route d (V4 180355077)]\<rparr>"])
      (auto simp: host_route_def netipToIPNet_def simp del: AsSlice.simps)
qed

theorem host_routes_narrow_witness:
  "\<exists>d log r. host_reachable all_ok d log \<and> hd_routes d = [r] \<and> mset (outstanding log) = {#r#}
     \<and> outstanding (snd (Host_Close all_ok d log)) = []"
proof -
  obtain d log r where d: "host_reachable all_ok d log" "hd_routes d = [r]" using ex_routed by blast
  with host_routes_narrow [OF d(1)] have "mset (outstanding log) = {#r#}" "outstanding (snd (Host_Close all_ok d log)) = []"
    by (auto simp: case_prod_beta)
  with d show ?thesis by blast
qed

end
