(* ===== verification/Resolved.thy ===== *)
theory Resolved
  imports Netip
begin

text \<open>
  \<^verbatim>\<open>internal/resolved/resolved_linux.go\<close>: pointing systemd-resolved at the DNS responder.

  The D-Bus service is third-party: its calls (\<open>buscall\<close>) are recorded with their outcome, which is given by
  an arbitrary function of the calls so far.
\<close>

section \<open>Data\<close>

datatype buscall = SetLinkDNS "32 word" "(nat \<times> bytes) list" | SetLinkDNSSEC "32 word" string | SetLinkDNSOverTLS "32 word" string
  | SetLinkDomains "32 word" "(string \<times> bool) list" | SetLinkDefaultRoute "32 word" bool | RevertLink "32 word" | Disconnect

type_synonym buslog = "(buscall \<times> bool) list"
type_synonym bus = "buslog \<Rightarrow> buscall \<Rightarrow> bool"

record RClient =
  conn :: bool
  ifindex :: "32 word"

datatype resolved_error = NotIPv4 | NoBus | CallFailed buscall

section \<open>Operations\<close>

definition buscall :: "bus \<Rightarrow> buscall \<Rightarrow> buslog \<Rightarrow> bool \<times> buslog" where
  "buscall bus c log = (bus log c, log @ [(c, bus log c)])"

definition Revert :: "bus \<Rightarrow> RClient \<Rightarrow> buslog \<Rightarrow> bool \<times> RClient \<times> buslog" where
  "Revert bus c log = (if \<not> conn c then (True, c, log)
     else case buscall bus (RevertLink (ifindex c)) log of
       (ok, log) \<Rightarrow> (ok, c\<lparr>conn := False\<rparr>, snd (buscall bus Disconnect log)))"

definition TrimDots :: "string \<Rightarrow> string" where
  "TrimDots s = rev (dropWhile (\<lambda>c. c = CHR ''.'') (rev (dropWhile (\<lambda>c. c = CHR ''.'') s)))"

text \<open>The loop over \<^verbatim>\<open>suffixes\<close> and the one over \<^verbatim>\<open>routeOnly\<close>: the entries and the names seen.\<close>

fun collect :: "bool \<Rightarrow> string fset \<Rightarrow> string list \<Rightarrow> (string \<times> bool) list \<times> string fset" where
  "collect ro sn [] = ([], sn)"
| "collect ro sn (s # ss) = (let s = TrimDots (ToLower s) in
     if s \<noteq> [] \<and> s |\<notin>| sn then (case collect ro (finsert s sn) ss of (ds, sn) \<Rightarrow> ((s, ro) # ds, sn))
     else collect ro sn ss)"

definition link_domains :: "string list \<Rightarrow> string list \<Rightarrow> (string \<times> bool) list" where
  "link_domains sfx routeOnly = (case collect False {||} sfx of (ds, sn) \<Rightarrow> ds @ fst (collect True sn routeOnly))"

fun bus_calls :: "bus \<Rightarrow> RClient \<Rightarrow> buscall list \<Rightarrow> buslog \<Rightarrow> (resolved_error + RClient) \<times> buslog" where
  "bus_calls bus cl [] log = (Inr cl, log)"
| "bus_calls bus cl (c # cs) log = (case buscall bus c log of
       (True, log) \<Rightarrow> bus_calls bus cl cs log
     | (False, log) \<Rightarrow> (Inl (CallFailed c), snd (snd (Revert bus cl log))))"

definition Configure :: "bus \<Rightarrow> bool \<Rightarrow> int \<Rightarrow> addr \<Rightarrow> string list \<Rightarrow> string list \<Rightarrow> buslog \<Rightarrow> (resolved_error + RClient) \<times> buslog" where
  "Configure bus connect_ok i dnsIP sfx routeOnly log =
    (if \<not> Is4 dnsIP then (Inl NotIPv4, log)
     else if \<not> connect_ok then (Inl NoBus, log)
     else let ix = word_of_int i; cl = \<lparr>conn = True, ifindex = ix\<rparr> in
     (case buscall bus (SetLinkDNS ix [(2, AsSlice dnsIP)]) log of
        (False, log) \<Rightarrow> (Inl (CallFailed (SetLinkDNS ix [(2, AsSlice dnsIP)])), snd (buscall bus Disconnect log))
      | (True, log) \<Rightarrow> bus_calls bus cl
          [SetLinkDNSSEC ix ''no'', SetLinkDNSOverTLS ix ''no'', SetLinkDomains ix (link_domains sfx routeOnly), SetLinkDefaultRoute ix False] log))"

section \<open>The search and routing domains\<close>

lemma collect_spec:
  assumes "collect ro sn ss = (ds, sn')"
  shows "distinct (map fst ds) \<and> fst ` set ds = {TrimDots (ToLower s) | s. s \<in> set ss} - {[]} - fset sn
    \<and> (\<forall>d \<in> set ds. snd d = ro) \<and> fset sn' = fset sn \<union> fst ` set ds"
  using assms
proof (induction ro sn ss arbitrary: ds sn' rule: collect.induct)
  case (2 ro sn s ss)
  let ?s = "TrimDots (ToLower s)"
  have split: "{TrimDots (ToLower x) | x. x \<in> set (s # ss)} = insert ?s {TrimDots (ToLower x) | x. x \<in> set ss}" by auto
  show ?case
  proof (cases "?s \<noteq> [] \<and> ?s |\<notin>| sn")
    case True
    obtain ds1 sn1 where c: "collect ro (finsert ?s sn) ss = (ds1, sn1)" by fastforce
    have "ds = (?s, ro) # ds1" "sn' = sn1" using "2.prems" True c by (auto simp: Let_def)
    then show ?thesis unfolding split using "2.IH"(1) [OF refl True c] True by auto
  next
    case False
    then have "collect ro sn ss = (ds, sn')" using "2.prems" by (simp only: collect.simps Let_def if_False)
    from "2.IH"(2) [OF refl False this] show ?thesis unfolding split using False by auto
  qed
qed simp

lemma const_snd_mem: "\<forall>d \<in> set ds. snd d = v \<Longrightarrow> (x, w) \<in> set ds \<longleftrightarrow> w = v \<and> x \<in> fst ` set ds"
  by force

lemma link_domains_spec:
  "distinct (map fst (link_domains sfx ro))
   \<and> (x, False) \<in> set (link_domains sfx ro) = (x \<noteq> [] \<and> (\<exists>s \<in> set sfx. x = TrimDots (ToLower s)))
   \<and> (x, True) \<in> set (link_domains sfx ro) = (x \<noteq> [] \<and> (\<exists>s \<in> set ro. x = TrimDots (ToLower s)) \<and> \<not> (\<exists>s \<in> set sfx. x = TrimDots (ToLower s)))"
proof -
  obtain ds sn where 1: "collect False {||} sfx = (ds, sn)" by fastforce
  obtain ds2 sn2 where 2: "collect True sn ro = (ds2, sn2)" by fastforce
  note a = collect_spec [OF 1] and b = collect_spec [OF 2]
  have sn: "fset sn = fst ` set ds" using a by simp
  have x: "x \<in> fst ` set ds \<longleftrightarrow> x \<noteq> [] \<and> (\<exists>s \<in> set sfx. x = TrimDots (ToLower s))"
    "x \<in> fst ` set ds2 \<longleftrightarrow> x \<noteq> [] \<and> (\<exists>s \<in> set ro. x = TrimDots (ToLower s)) \<and> x \<notin> fset sn"
    unfolding a [THEN conjunct2, THEN conjunct1] b [THEN conjunct2, THEN conjunct1] by auto
  have va: "\<forall>d \<in> set ds. snd d = False" and vb: "\<forall>d \<in> set ds2. snd d = True" using a b by blast+
  have m: "(x, False) \<in> set ds \<longleftrightarrow> x \<in> fst ` set ds" "(x, True) \<in> set ds2 \<longleftrightarrow> x \<in> fst ` set ds2"
    and n: "(x, True) \<notin> set ds" "(x, False) \<notin> set ds2"
    by (simp_all only: const_snd_mem [OF va] const_snd_mem [OF vb] simp_thms)
  have "fst ` set ds \<inter> fst ` set ds2 = {}" unfolding b [THEN conjunct2, THEN conjunct1] sn by blast
  then have "distinct (map fst (ds @ ds2))" using a [THEN conjunct1] b [THEN conjunct1] by simp
  moreover have "link_domains sfx ro = ds @ ds2" by (simp add: link_domains_def 1 2)
  ultimately show ?thesis using m n x sn by (metis Un_iff set_append)
qed

section \<open>All or nothing\<close>

lemma bus_calls_run:
  assumes "bus_calls bus cl cs log = (r, log')" "conn cl"
  shows "(case r of Inr c \<Rightarrow> c = cl \<and> log' = log @ map (\<lambda>c. (c, True)) cs
    | Inl e \<Rightarrow> (\<exists>done x ok ok'. log' = log @ map (\<lambda>c. (c, True)) done @ [(x, False), (RevertLink (ifindex cl), ok), (Disconnect, ok')]
        \<and> prefix (done @ [x]) cs))"
  using assms
proof (induction bus cl cs log rule: bus_calls.induct)
  case (2 bus cl c cs log)
  show ?case
  proof (cases "bus log c")
    case True
    then have n: "(True, log @ [(c, True)]) = buscall bus c log" by (simp add: buscall_def)
    have "bus_calls bus cl cs (log @ [(c, True)]) = (r, log')" using "2.prems"(1) True by (simp add: buscall_def)
    from "2.IH" [OF n refl this "2.prems"(2)] show ?thesis
      by (cases r) (auto, rule exI [of _ "c # _"], auto)
  next
    case False
    then show ?thesis using "2.prems" by (auto simp: buscall_def Revert_def intro!: exI [of _ "[]"])
  qed
qed auto

text \<open>
  C36: resolver settings are all or nothing. When \<open>Configure\<close> succeeds, exactly the five settings of the link
  were made: the DNS address, no DNSSEC, no DNS over TLS, the domains and no default route; each name is
  listed once, and is routing-only unless it is a suffix. When it fails after a setting was made, the
  link is reverted, and the connection is closed.
\<close>

theorem Configure_all_or_nothing:
  assumes "Configure bus cok i ip sfx ro log = (r, log')"
  shows "\<exists>new ix. log' = log @ new \<and> ix = word_of_int i
    \<and> (case r of Inr cl \<Rightarrow> cl = \<lparr>conn = True, ifindex = ix\<rparr> \<and> new = map (\<lambda>c. (c, True)) [SetLinkDNS ix [(2, AsSlice ip)], SetLinkDNSSEC ix ''no'',
          SetLinkDNSOverTLS ix ''no'', SetLinkDomains ix (link_domains sfx ro), SetLinkDefaultRoute ix False]
        \<and> distinct (map fst (link_domains sfx ro))
        \<and> (\<forall>x. (x, True) \<in> set (link_domains sfx ro) \<longrightarrow> \<not> (\<exists>s \<in> set sfx. x = TrimDots (ToLower s)))
      | Inl e \<Rightarrow> (\<exists>c. (c, True) \<in> set (butlast (butlast new))) \<longrightarrow> fst (last new) = Disconnect \<and> (\<exists>ok. (RevertLink ix, ok) \<in> set new))"
proof -
  let ?ix = "word_of_int i :: 32 word" and ?dns = "SetLinkDNS (word_of_int i) [(2, AsSlice ip)]"
  let ?cl = "\<lparr>conn = True, ifindex = ?ix\<rparr>"
  let ?cs = "[SetLinkDNSSEC ?ix ''no'', SetLinkDNSOverTLS ?ix ''no'', SetLinkDomains ?ix (link_domains sfx ro), SetLinkDefaultRoute ?ix False]"
  have dom: "distinct (map fst (link_domains sfx ro))"
    "\<forall>x. (x, True) \<in> set (link_domains sfx ro) \<longrightarrow> \<not> (\<exists>s \<in> set sfx. x = TrimDots (ToLower s))"
    using link_domains_spec by (metis, metis)
  consider "log' = log" "\<exists>e. r = Inl e" | ok where "log' = log @ [(?dns, False), (Disconnect, ok)]" "\<exists>e. r = Inl e"
    | "bus_calls bus ?cl ?cs (log @ [(?dns, True)]) = (r, log')"
    using assms by (auto simp: Configure_def Let_def buscall_def split: if_splits bool.splits simp del: bus_calls.simps AsSlice.simps)
  then show ?thesis
  proof cases
    case 3
    from bus_calls_run [OF 3] show ?thesis
    proof (cases r)
      case (Inr cl)
      then show ?thesis using bus_calls_run [OF 3] dom
        by (intro exI [of _ "map (\<lambda>c. (c, True)) (?dns # ?cs)"] exI [of _ ?ix]) (simp del: AsSlice.simps)
    next
      case (Inl e)
      then obtain dn x ok ok' where "log' = (log @ [(?dns, True)]) @ map (\<lambda>c. (c, True)) dn @ [(x, False), (RevertLink ?ix, ok), (Disconnect, ok')]"
        using bus_calls_run [OF 3] by auto
      then show ?thesis using Inl by (intro exI [of _ "(?dns, True) # map (\<lambda>c. (c, True)) dn @ [(x, False), (RevertLink ?ix, ok), (Disconnect, ok')]"] exI [of _ ?ix]) auto
    qed
  qed auto
qed

text \<open>Reverting twice makes no further call.\<close>

lemma Revert_twice: "Revert bus c log = (ok, c', log') \<Longrightarrow> Revert bus c' log' = (True, c', log')"
  by (auto simp: Revert_def buscall_def split: if_splits)

section \<open>Examples\<close>

theorem Configure_all_or_nothing_witness:
  "\<exists>log'. Configure (\<lambda>_ c. c \<noteq> SetLinkDNSSEC 7 ''no'') True 7 (V4 1) [''a.ts.net''] [] [] = (Inl (CallFailed (SetLinkDNSSEC 7 ''no'')), log')
     \<and> fst (last log') = Disconnect"
proof -
  let ?c = "Configure (\<lambda>_ c. c \<noteq> SetLinkDNSSEC 7 ''no'') True 7 (V4 1) [''a.ts.net''] [] []"
  let ?new = "[(SetLinkDNS 7 [(2, AsSlice (V4 1))], True), (SetLinkDNSSEC 7 ''no'', False), (RevertLink 7, True), (Disconnect, True)]"
  have "?c = (Inl (CallFailed (SetLinkDNSSEC 7 ''no'')), ?new)"
    by (simp add: Configure_def Let_def buscall_def Revert_def del: AsSlice.simps)
  with Configure_all_or_nothing [OF this] show ?thesis by auto
qed

end
