(* ===== verification/Duration.thy ===== *)
theory Duration
  imports Prelude
begin

text \<open>
  \<^verbatim>\<open>time.ParseDuration\<close> of the standard library, which reads the duration flags: a sign and a sequence of decimal
  numbers with units. The integer part is exact in unsigned 64-bit arithmetic; the fraction is a product of
  64-bit floating point numbers, which \<open>float64\<close> rounds as IEEE 754 does (to 53 bits, ties to even).
\<close>

section \<open>Rounding\<close>

fun bit_length :: "nat \<Rightarrow> nat" where
  "bit_length n = (if n = 0 then 0 else Suc (bit_length (n div 2)))"

declare bit_length.simps [simp del]

text \<open>A fraction, rounded to the nearest binary floating point number; the exponents in use are small.\<close>

definition float64 :: "nat \<times> nat \<Rightarrow> nat \<times> nat" where
  "float64 x = (case x of (n, d) \<Rightarrow> if n = 0 then (0, 1)
    else let s = 53 - (int (bit_length n) - int (bit_length d));
             s = (if n * 2 ^ nat s < 2 ^ 53 * d * 2 ^ nat (- s) then s else s - 1);
             n = n * 2 ^ nat s; d = d * 2 ^ nat (- s); q = n div d; r = n mod d;
             q = (if d < 2 * r \<or> 2 * r = d \<and> odd q then q + 1 else q)
         in (q * 2 ^ nat (- s), 2 ^ nat s))"

text \<open>\<^verbatim>\<open>uint64(float64(f) * (float64(unit) / scale))\<close>, where scale is a power of ten with an exact representation.\<close>

definition fraction :: "u64 \<Rightarrow> u64 \<Rightarrow> nat \<Rightarrow> u64" where
  "fraction f unit scale =
    (case (float64 (unat f, 1), float64 (unat unit, scale)) of ((a, b), (c, d)) \<Rightarrow>
      (case float64 (a * c, b * d) of (n, m) \<Rightarrow> word_of_nat (n div m)))"

section \<open>Parsing\<close>

text \<open>\<^verbatim>\<open>leadingInt\<close> and \<^verbatim>\<open>leadingFraction\<close>: the digits at the front; too large an integer is an error, further digits of a
  fraction are dropped.\<close>

fun leadingInt :: "u64 \<Rightarrow> string \<Rightarrow> (u64 \<times> string) option" where
  "leadingInt x [] = Some (x, [])"
| "leadingInt x (c # s) = (if \<not> is_digit c then Some (x, c # s)
     else if 2 ^ 63 div 10 < x then None
     else let x = x * 10 + word_of_nat (digit_val c) in if 2 ^ 63 < x then None else leadingInt x s)"

fun leadingFraction :: "bool \<Rightarrow> u64 \<Rightarrow> nat \<Rightarrow> string \<Rightarrow> u64 \<times> nat \<times> string" where
  "leadingFraction overflow x scale [] = (x, scale, [])"
| "leadingFraction overflow x scale (c # s) = (if \<not> is_digit c then (x, scale, c # s)
     else if overflow \<or> (2 ^ 63 - 1) div 10 < x then leadingFraction True x scale s
     else let y = x * 10 + word_of_nat (digit_val c) in
       if 2 ^ 63 < y then leadingFraction True x scale s else leadingFraction False y (scale * 10) s)"

definition unitMap :: "(string \<times> u64) list" where
  "unitMap = [(''ns'', 1), (''us'', 1000), ([CHR 0xC2, CHR 0xB5, CHR ''s''], 1000), ([CHR 0xCE, CHR 0xBC, CHR ''s''], 1000), (''ms'', 1000000),
     (''s'', 1000000000), (''m'', 60000000000), (''h'', 3600000000000)]"

text \<open>One number with its unit: its value and the rest.\<close>

definition duration_part :: "string \<Rightarrow> (u64 \<times> string) option" where
  "duration_part s = (if s = [] \<or> \<not> (hd s = CHR ''.'' \<or> is_digit (hd s)) then None
    else case leadingInt 0 s of None \<Rightarrow> None
    | Some (v, s1) \<Rightarrow>
      (case (if s1 \<noteq> [] \<and> hd s1 = CHR ''.'' then leadingFraction False 0 1 (tl s1) else (0, 1, s1)) of (f, scale, s2) \<Rightarrow>
        let pre = (length s1 \<noteq> length s); post = (s1 \<noteq> [] \<and> hd s1 = CHR ''.'' \<and> length s2 \<noteq> length (tl s1));
            is_unit = (\<lambda>c. c \<noteq> CHR ''.'' \<and> \<not> is_digit c); u = takeWhile is_unit s2 in
        if \<not> pre \<and> \<not> post then None else if u = [] then None
        else (case map_of unitMap u of None \<Rightarrow> None
          | Some unit \<Rightarrow> if 2 ^ 63 div unit < v then None
            else let w = (if 0 < f then v * unit + fraction f unit scale else v * unit) in
              if 0 < f \<and> 2 ^ 63 < w then None else Some (w, dropWhile is_unit s2))))"

lemma leadingInt_length: "leadingInt x s = Some (y, r) \<Longrightarrow> length r \<le> length s"
  by (induction x s rule: leadingInt.induct) (fastforce simp: Let_def split: if_splits)+

lemma leadingFraction_length: "leadingFraction ov x sc s = (y, z, r) \<Longrightarrow> length r \<le> length s"
  by (induction ov x sc s rule: leadingFraction.induct) (fastforce simp: Let_def split: if_splits)+

lemma duration_part_length: "duration_part s = Some (w, r) \<Longrightarrow> length r < length s"
proof -
  assume a: "duration_part s = Some (w, r)"
  then obtain v s1 where i: "leadingInt 0 s = Some (v, s1)" by (auto simp: duration_part_def split: if_splits option.splits)
  obtain f scale s2 where f: "(if s1 \<noteq> [] \<and> hd s1 = CHR ''.'' then leadingFraction False 0 1 (tl s1) else (0, 1, s1)) = (f, scale, s2)"
    by (metis prod_cases3)
  have "length s2 \<le> length s1"
    using f by (cases s1) (auto dest: leadingFraction_length split: if_splits)
  moreover have "takeWhile (\<lambda>c. c \<noteq> CHR ''.'' \<and> \<not> is_digit c) s2 \<noteq> [] \<and> r = dropWhile (\<lambda>c. c \<noteq> CHR ''.'' \<and> \<not> is_digit c) s2"
    using a unfolding duration_part_def i by (simp add: f Let_def split: if_splits option.splits)
  moreover have "length (takeWhile P x) + length (dropWhile P x) = length x" for P and x :: string
    by (metis length_append takeWhile_dropWhile_id)
  ultimately show ?thesis using leadingInt_length [OF i]
    by (metis (no_types, lifting) add_gr_0 leD length_0_conv less_add_same_cancel2 linorder_not_less neq0_conv order.trans)
qed

function duration_parts :: "u64 \<Rightarrow> string \<Rightarrow> u64 option" where
  "duration_parts d s = (if s = [] then Some d
     else case duration_part s of None \<Rightarrow> None
     | Some (v, s) \<Rightarrow> if 2 ^ 63 < d + v then None else duration_parts (d + v) s)"
  by auto
termination by (relation "measure (\<lambda>(_, s). length s)") (auto dest: duration_part_length)

declare duration_parts.simps [simp del]

definition ParseDuration :: "string \<Rightarrow> duration option" where
  "ParseDuration s =
    (let neg = (s \<noteq> [] \<and> hd s = CHR ''-''); s = (if s \<noteq> [] \<and> (hd s = CHR ''-'' \<or> hd s = CHR ''+'') then tl s else s) in
     if s = ''0'' then Some 0 else if s = [] then None
     else case duration_parts 0 s of None \<Rightarrow> None
     | Some d \<Rightarrow> if neg then Some (sint (- d)) else if 2 ^ 63 - 1 < d then None else Some (sint d))"

section \<open>Reading what is written\<close>

definition duration_text :: "(nat \<times> string) list \<Rightarrow> string" where
  "duration_text xs = concat (map (\<lambda>(n, u). dec n @ u) xs)"

definition unit_of :: "string \<Rightarrow> nat" where
  "unit_of u = (case map_of unitMap u of None \<Rightarrow> 0 | Some w \<Rightarrow> unat w)"

lemma undec_grows: "a \<le> foldl (\<lambda>a c. 10 * a + digit_val c) a s"
proof (induction s arbitrary: a)
  case (Cons c s)
  from Cons [of "10 * a + digit_val c"] show ?case by simp
qed simp

lemma unat_small: "m \<le> 2 ^ 63 \<Longrightarrow> unat (word_of_nat m :: u64) = m"
  by (simp add: unat_of_nat take_bit_nat_eq_self)

lemma not_above: "m \<le> 2 ^ 63 \<Longrightarrow> \<not> 2 ^ 63 < (word_of_nat m :: u64)"
  using unat_small [of m] by (simp add: word_less_nat_alt)

lemma sint_small: "m < 2 ^ 63 \<Longrightarrow> sint (word_of_nat m :: u64) = int m"
  by (simp add: signed_of_nat signed_take_bit_int_eq_self)

lemma leadingInt_digits:
  assumes "\<forall>c \<in> set ds. is_digit c" "foldl (\<lambda>a c. 10 * a + digit_val c) a ds \<le> 2 ^ 63" "s = [] \<or> \<not> is_digit (hd s)"
  shows "leadingInt (word_of_nat a) (ds @ s) = Some (word_of_nat (foldl (\<lambda>a c. 10 * a + digit_val c) a ds), s)"
  using assms(1,2)
proof (induction ds arbitrary: a)
  case Nil
  then show ?case using assms(3) by (cases s) simp_all
next
  case (Cons c ds)
  have le: "10 * a + digit_val c \<le> 2 ^ 63" using Cons.prems(2) undec_grows [of "10 * a + digit_val c" ds] by (simp add: order.trans)
  have "\<not> 2 ^ 63 div 10 < (word_of_nat a :: u64)"
    using le unat_small [of a] by (simp add: word_less_nat_alt unat_div)
  moreover note not_above [OF le]
  moreover have "leadingInt (word_of_nat (10 * a + digit_val c)) (ds @ s) = Some (word_of_nat (foldl (\<lambda>a c. 10 * a + digit_val c) a (c # ds)), s)"
    using Cons.IH [of "10 * a + digit_val c"] Cons.prems by simp
  ultimately show ?case using Cons.prems(1) by (simp add: Let_def mult.commute [of _ 10])
qed

lemma unit_chars:
  assumes "u \<in> fst ` set unitMap"
  shows "u \<noteq> []" "\<forall>c \<in> set u. c \<noteq> CHR ''.'' \<and> \<not> is_digit c" "\<exists>w. map_of unitMap u = Some w \<and> 0 < w \<and> unit_of u = unat w"
  using assms by (auto simp: unitMap_def unit_of_def is_digit_def)

lemma duration_part_text:
  assumes "u \<in> fst ` set unitMap" "n * unit_of u \<le> 2 ^ 63" "r = [] \<or> is_digit (hd r)"
  shows "duration_part (dec n @ u @ r) = Some (word_of_nat (n * unit_of u), r)"
proof -
  note u = unit_chars [OF assms(1)]
  obtain w where w: "map_of unitMap u = Some w" "0 < w" "unit_of u = unat w" using u(3) by blast
  then have pos: "0 < unat w" by (simp add: word_less_nat_alt)
  then have n: "n \<le> 2 ^ 63" using assms(2) w(3) by (metis le_trans mult.commute mult_le_mono1 nat_mult_1 One_nat_def Suc_leI)
  have hdu: "hd (u @ r) \<noteq> CHR ''.''" "\<not> is_digit (hd (u @ r))" using u by (simp_all add: hd_append)
  have i: "leadingInt 0 (dec n @ u @ r) = Some (word_of_nat n, u @ r)"
    using leadingInt_digits [of "dec n" 0 "u @ r"] dec_digits [of n] n hdu undec_dec [of n] by (simp add: undec_def)
  have tw: "takeWhile (\<lambda>c. c \<noteq> CHR ''.'' \<and> \<not> is_digit c) (u @ r) = u" "dropWhile (\<lambda>c. c \<noteq> CHR ''.'' \<and> \<not> is_digit c) (u @ r) = r"
    using u(2) assms(3) by (cases r; simp add: takeWhile_append dropWhile_append)+
  have "\<not> 2 ^ 63 div w < (word_of_nat n :: u64)"
    using assms(2) n pos w(3) by (simp add: word_less_nat_alt unat_div unat_of_nat take_bit_nat_eq_self not_less less_eq_div_iff_mult_less_eq)
  moreover have "hd (dec n @ u @ r) \<in> set (dec n)" by (simp add: hd_append)
  then have "is_digit (hd (dec n @ u @ r))" using dec_digits by blast
  ultimately show ?thesis using i hdu u(1) w tw by (simp add: duration_part_def Let_def)
qed

text \<open>A duration written as whole numbers with units, such as \<^verbatim>\<open>1h30m0s\<close>, is read as their sum.\<close>

lemma duration_parts_text:
  assumes "set (map snd xs) \<subseteq> fst ` set unitMap" "d + (\<Sum>(n, u) \<leftarrow> xs. n * unit_of u) \<le> 2 ^ 63"
  shows "duration_parts (word_of_nat d) (duration_text xs) = Some (word_of_nat (d + (\<Sum>(n, u) \<leftarrow> xs. n * unit_of u)))"
  using assms
proof (induction xs arbitrary: d)
  case Nil
  then show ?case by (simp add: duration_parts.simps duration_text_def)
next
  case (Cons x xs)
  obtain n u where x: "x = (n, u)" by force
  have "duration_text xs = [] \<or> is_digit (hd (duration_text xs))"
  proof (cases xs)
    case (Cons y ys)
    then have "hd (duration_text xs) \<in> set (dec (fst y))" by (simp add: duration_text_def case_prod_beta hd_append)
    then show ?thesis using dec_digits by blast
  qed (simp add: duration_text_def)
  then have p: "duration_part (duration_text (x # xs)) = Some (word_of_nat (n * unit_of u), duration_text xs)"
    using duration_part_text [of u n "duration_text xs"] Cons.prems by (simp add: x duration_text_def)
  have "\<not> 2 ^ 63 < (word_of_nat (d + n * unit_of u) :: u64)"
    by (rule not_above) (use Cons.prems(2) in \<open>simp add: x\<close>)
  moreover have "duration_text (x # xs) \<noteq> []" by (simp add: x duration_text_def)
  ultimately show ?case using Cons.IH [of "d + n * unit_of u"] Cons.prems p
    by (subst duration_parts.simps) (simp add: x add.assoc)
qed

lemma ParseDuration_text:
  assumes "set (map snd xs) \<subseteq> fst ` set unitMap" "(\<Sum>(n, u) \<leftarrow> xs. n * unit_of u) < 2 ^ 63" "xs \<noteq> []"
  shows "ParseDuration (duration_text xs) = Some (int (\<Sum>(n, u) \<leftarrow> xs. n * unit_of u))"
proof -
  let ?s = "duration_text xs" and ?v = "\<Sum>(n, u) \<leftarrow> xs. n * unit_of u"
  obtain n u ys where xs: "xs = (n, u) # ys" using assms(3) by (cases xs) auto
  have ne: "?s \<noteq> []" and "hd ?s \<in> set (dec n)" by (simp_all add: xs duration_text_def hd_append)
  then have d: "is_digit (hd ?s)" using dec_digits by blast
  have "u \<in> fst ` set unitMap" using assms(1) xs by simp
  from unit_chars [OF this] have "?s \<noteq> ''0''"
    by (cases "dec n") (auto simp: xs duration_text_def)
  moreover have "hd ?s \<noteq> CHR ''-''" "hd ?s \<noteq> CHR ''+''" using d by (auto simp: is_digit_def)
  moreover have "duration_parts 0 ?s = Some (word_of_nat ?v)" using duration_parts_text [of xs 0] assms by simp
  moreover have "\<not> 2 ^ 63 - 1 < (word_of_nat ?v :: u64)"
    using assms(2) unat_small [of ?v] by (simp add: word_less_nat_alt)
  moreover note sint_small [OF assms(2)]
  ultimately show ?thesis using ne by (simp add: ParseDuration_def Let_def)
qed

end
