(* ===== verification/Flagset.thy ===== *)
theory Flagset
  imports Prelude Duration
begin

text \<open>
  The part of the standard library's \<^verbatim>\<open>flag\<close> package that the programs use: \<^verbatim>\<open>FlagSet.Parse\<close> on a set of
  declared string, boolean and duration flags (\<open>formal\<close>), and reading the values it leaves. A repeated
  flag keeps its last value; a repeatable one collects all of them.
\<close>

datatype flag_kind = StringFlag | BoolFlag | DurationFlag

datatype flag_result = FlagHelp | FlagError | FlagsParsed "(string \<times> string) list" "string list"

definition ParseBool :: "string \<Rightarrow> bool option" where
  "ParseBool s = (if s \<in> set [''1'', ''t'', ''T'', ''TRUE'', ''true'', ''True''] then Some True
     else if s \<in> set [''0'', ''f'', ''F'', ''FALSE'', ''false'', ''False''] then Some False else None)"

text \<open>Whether a flag of the kind accepts the text (\<^verbatim>\<open>Value.Set\<close>).\<close>

definition flag_Set :: "flag_kind \<Rightarrow> string \<Rightarrow> bool" where
  "flag_Set k v = (case k of StringFlag \<Rightarrow> True | BoolFlag \<Rightarrow> ParseBool v \<noteq> None | DurationFlag \<Rightarrow> ParseDuration v \<noteq> None)"

definition split_value :: "string \<Rightarrow> string \<times> string option" where
  "split_value s = (takeWhile (\<lambda>c. c \<noteq> CHR ''='') s,
     case dropWhile (\<lambda>c. c \<noteq> CHR ''='') s of [] \<Rightarrow> None | _ # v \<Rightarrow> Some v)"

function flag_Parse :: "(string \<Rightarrow> flag_kind option) \<Rightarrow> string list \<Rightarrow> (string \<times> string) list \<Rightarrow> flag_result" where
  "flag_Parse formal [] vals = FlagsParsed vals []"
| "flag_Parse formal (s # args) vals =
    (if length s < 2 \<or> hd s \<noteq> CHR ''-'' then FlagsParsed vals (s # args)
     else if s = ''--'' then FlagsParsed vals args
     else let name = drop (if s ! 1 = CHR ''-'' then 2 else 1) s in
       if name = [] \<or> hd name = CHR ''-'' \<or> hd name = CHR ''='' then FlagError
       else (case split_value name of (name, v) \<Rightarrow>
         (case formal name of None \<Rightarrow> if name = ''help'' \<or> name = ''h'' then FlagHelp else FlagError
          | Some kind \<Rightarrow>
             (case (case v of Some x \<Rightarrow> Some (x, args)
                    | None \<Rightarrow> if kind = BoolFlag then Some (''true'', args) else (case args of [] \<Rightarrow> None | x # args \<Rightarrow> Some (x, args))) of
                None \<Rightarrow> FlagError
              | Some (x, args) \<Rightarrow> if flag_Set kind x then flag_Parse formal args (vals @ [(name, x)]) else FlagError))))"
  by pat_completeness auto
termination by (relation "measure (\<lambda>(_, args, _). length args)") (auto split: option.splits if_splits list.splits)

definition string_flag :: "(string \<times> string) list \<Rightarrow> string \<Rightarrow> string \<Rightarrow> string" where
  "string_flag vals name d = (case map_of (rev vals) name of None \<Rightarrow> d | Some v \<Rightarrow> v)"

definition bool_flag :: "(string \<times> string) list \<Rightarrow> string \<Rightarrow> bool" where
  "bool_flag vals name \<longleftrightarrow> (case map_of (rev vals) name of None \<Rightarrow> False | Some v \<Rightarrow> ParseBool v = Some True)"

definition duration_flag :: "(string \<times> string) list \<Rightarrow> string \<Rightarrow> duration \<Rightarrow> duration" where
  "duration_flag vals name d = (case Option.bind (map_of (rev vals) name) ParseDuration of None \<Rightarrow> d | Some v \<Rightarrow> v)"

definition list_flag :: "(string \<times> string) list \<Rightarrow> string \<Rightarrow> string list" where
  "list_flag vals name = map snd (filter (\<lambda>(n, _). n = name) vals)"

section \<open>Every value can be passed\<close>

text \<open>A flag written with its value, and the arguments that end the flags.\<close>

definition flag_arg :: "string \<times> string \<Rightarrow> string" where
  "flag_arg = (\<lambda>(n, v). ''--'' @ n @ ''='' @ v)"

definition flag_ok :: "(string \<Rightarrow> flag_kind option) \<Rightarrow> string \<times> string \<Rightarrow> bool" where
  "flag_ok formal = (\<lambda>(n, v). n \<noteq> [] \<and> hd n \<noteq> CHR ''-'' \<and> CHR ''='' \<notin> set n
     \<and> (case formal n of None \<Rightarrow> False | Some k \<Rightarrow> flag_Set k v))"

lemma split_value_eq [simp]: "CHR ''='' \<notin> set n \<Longrightarrow> split_value (n @ CHR ''='' # v) = (n, Some v)"
  by (induction n) (auto simp: split_value_def)

lemma flag_Parse_arg:
  assumes "flag_ok formal nv"
  shows "flag_Parse formal (flag_arg nv # args) vals = flag_Parse formal args (vals @ [nv])"
proof -
  obtain n v where nv: "nv = (n, v)" by force
  with assms have n: "n \<noteq> []" "hd n \<noteq> CHR ''-''" "CHR ''='' \<notin> set n" by (auto simp: flag_ok_def)
  then have "hd n \<noteq> CHR ''=''" by (metis hd_in_set)
  moreover obtain k where k: "formal n = Some k" "flag_Set k v" using assms by (auto simp: nv flag_ok_def split: option.splits)
  ultimately show ?thesis using n by (simp add: nv flag_arg_def hd_append)
qed

lemma flag_Parse_print:
  assumes "list_all (flag_ok formal) fs"
  shows "flag_Parse formal (map flag_arg fs @ ''--'' # rest) vals = FlagsParsed (vals @ fs) rest"
  using assms by (induction fs arbitrary: vals) (simp_all add: flag_Parse_arg del: flag_Parse.simps(2), simp)

end
