(* ===== verification/Daemon.thy ===== *)
theory Daemon
  imports Supervisor Dnsmux Control Hosttun Resolved Flagset
begin

text \<open>
  \<^verbatim>\<open>cmd/tailscale-multitaild/main.go\<close>: the daemon that puts the components together.

  \<open>daemon_run\<close> is the start of \<open>run\<close> up to the main loop, \<open>reconcile\<close> the reaction of the main loop to a change,
  \<open>daemon_handler\<close> the handler of the control socket, and \<open>shut_down\<close> the deferred calls of every exit. What the
  world contributes to one of these is an argument: a record \<open>denv\<close> of outcomes, and the kernel and the
  system bus as functions of their call logs. Each of them reads the supervisor once: the three
  snapshots that the code takes in a row are one.
\<close>

section \<open>Data\<close>

record Flags =
  config_path :: string
  state_root :: string
  validate_config :: bool
  once :: bool
  dnsListen :: string
  hostTUN :: bool
  socketPath :: string
  useResolved :: bool

definition run_formal :: "string \<Rightarrow> flag_kind option" where
  "run_formal n = (if n \<in> set [''config'', ''state-root'', ''dns-listen'', ''socket''] then Some StringFlag
     else if n \<in> set [''validate-config'', ''once'', ''host-tun'', ''debug-packets'', ''resolved''] then Some BoolFlag else None)"

definition run_flags :: "(string \<times> string) list \<Rightarrow> Flags" where
  "run_flags v = \<lparr>config_path = string_flag v ''config'' DefaultPath, state_root = string_flag v ''state-root'' DefaultStateRoot,
     validate_config = bool_flag v ''validate-config'', once = bool_flag v ''once'', dnsListen = string_flag v ''dns-listen'' [],
     hostTUN = bool_flag v ''host-tun'', socketPath = string_flag v ''socket'' [], useResolved = bool_flag v ''resolved''\<rparr>"

datatype dm_error = ConfigError config_error | SupError sup_error

record denv =
  e_decode :: "bytes \<Rightarrow> Config option"
  e_encode :: "Config \<Rightarrow> bytes option"
  e_files :: files
  e_dir :: dir
  e_store_faults :: "nat \<Rightarrow> nat \<Rightarrow> bool"
  e_now :: string
  e_root_ok :: bool
  e_root_mode_ok :: bool
  e_start :: "Profile \<Rightarrow> start_env"
  e_sort :: "(Target \<Rightarrow> Target \<Rightarrow> bool) \<Rightarrow> Target list \<Rightarrow> Target list"
  e_iter :: "(string, string) fmap \<Rightarrow> (string \<times> string) list"
  e_lease_iter :: "(string, addr) fmap \<Rightarrow> (string \<times> addr) list"
  e_leases_ok :: bool
  e_put_ok :: "nat \<Rightarrow> bool"
  e_host :: host_env
  e_udp_ok :: bool
  e_tcp_ok :: bool
  e_bus_ok :: bool
  e_query :: query_fun
  e_group :: "string option"
  e_listen_faults :: "nat \<Rightarrow> bool"
  e_login :: login_env
  e_client_ok :: bool
  e_logout_ok :: bool
  e_write_faults :: "nat \<Rightarrow> bool"
  e_tmp :: string
  e_part :: nat
  e_text :: "dm_error \<Rightarrow> string"

record Daemon =
  dm_cfg :: Config
  dm_flags :: Flags
  dm_sup :: Supervisor
  dm_host :: "HostDev option"
  dm_log :: netlog
  dm_net :: "Net option"
  dm_dns :: "Server option"
  dm_res :: "RClient option"
  dm_bus :: buslog
  dm_files :: files
  dm_sock :: "SocketServer option"
  dm_shutdown :: bool

datatype dm_outcome = Exit int "Daemon option" | Running Daemon

datatype dm_result = StatusResult "ProfileStatus list" "Target list" "(string, addr) fmap option" "MuxStats option" | AuthURL string

section \<open>Operations\<close>

definition reverseDomains :: "Config \<Rightarrow> string list" where
  "reverseDomains c = (let out = [''100.in-addr.arpa''] in
     case ParsePrefix (EffectiveIPv4CIDR c) of None \<Rightarrow> out
     | Some p \<Rightarrow> if \<not> Is4 (PAddr p) then out
       else (case As4 (PAddr (Masked p)) of None \<Rightarrow> out
         | Some a \<Rightarrow> let n = PBits p div 8 in
           if 0 < n then out @ [Join (CHR ''.'') (map (\<lambda>i. dec (unat (quad_bytes a ! (n - 1 - i)))) [0..<n]) @ ''.in-addr.arpa''] else out))"

definition pool_of :: "Config \<Rightarrow> prefix" where
  "pool_of c = (case ParsePrefix (EffectiveIPv4CIDR c) of None \<Rightarrow> Prefix NoAddr 0 | Some p \<Rightarrow> p)"

definition route_targets :: "denv \<Rightarrow> Target list \<Rightarrow> (string, addr) fmap \<Rightarrow> addr list" where
  "route_targets env ts ls = map CanonicalIP ts @ map snd (e_lease_iter env ls)"

text \<open>The device of a profile; before a profile exists its number stands for an empty device.\<close>

definition sup_tuns :: "Supervisor \<Rightarrow> tun_id \<Rightarrow> Device" where
  "sup_tuns s t = (case fmlookup (s_devices s) t of Some d \<Rightarrow> d | None \<Rightarrow> Device_New [] (Cfg_MTU (s_cfg s)) 256)"

definition daemon_leases :: "denv \<Rightarrow> Supervisor \<Rightarrow> (sup_error + (string, addr) fmap) \<times> Supervisor" where
  "daemon_leases env s = EffectiveLeases (e_sort env) (e_iter env) (e_leases_ok env) (e_put_ok env) s"

subsection \<open>Exits\<close>

text \<open>The deferred calls, last one first: revert the resolver, close the host device, close the supervisor.\<close>

definition shut_down :: "answers \<Rightarrow> bus \<Rightarrow> Daemon \<Rightarrow> Daemon" where
  "shut_down ans bus d =
    (let d = d\<lparr>dm_sock := None\<rparr>;
         d = (case dm_res d of None \<Rightarrow> d
              | Some c \<Rightarrow> (case Revert bus c (dm_bus d) of (_, c, bl) \<Rightarrow> d\<lparr>dm_res := Some c, dm_bus := bl\<rparr>));
         d = d\<lparr>dm_dns := None\<rparr>;
         d = (case dm_host d of None \<Rightarrow> d | Some h \<Rightarrow> d\<lparr>dm_host := None, dm_log := snd (Host_Close ans h (dm_log d))\<rparr>)
     in d\<lparr>dm_sup := Sup_Close (dm_sup d)\<rparr>)"

abbreviation exit_with :: "answers \<Rightarrow> bus \<Rightarrow> int \<Rightarrow> Daemon \<Rightarrow> dm_outcome" where
  "exit_with ans bus code d \<equiv> Exit code (Some (shut_down ans bus d))"

subsection \<open>Starting\<close>

definition start_host :: "answers \<Rightarrow> denv \<Rightarrow> Target list \<Rightarrow> (string, addr) fmap \<Rightarrow> Daemon \<Rightarrow> Daemon + Daemon" where
  "start_host ans env ts ls d =
    (if \<not> hostTUN (dm_flags d) then Inr d
     else let c = dm_cfg d; pool = pool_of c in
     (case Create ans (e_host env) (Interface c) (Cfg_MTU c) (RoutingTable c) pool (dm_log d) of
        (Inl _, log) \<Rightarrow> Inl (d\<lparr>dm_log := log\<rparr>)
      | (Inr h, log) \<Rightarrow> (case AddTargets ans (route_targets env ts ls) h log of
          (Some _, h, log) \<Rightarrow> Inl (d\<lparr>dm_log := snd (Host_Close ans h log)\<rparr>)
        | (None, h, log) \<Rightarrow> Inr (d\<lparr>dm_host := Some h, dm_log := log,
            dm_net := Some \<lparr>eng = Engine_Run (Engine_New (Next (PAddr (Masked pool))) ts ls (DatapathProfiles (dm_sup d))),
                            tuns = sup_tuns (dm_sup d), host_out = []\<rparr>\<rparr>))))"

text \<open>\<open>--resolved\<close> needs the host TUN and gives the DNS listener its default address.\<close>

definition listen_default :: "Daemon \<Rightarrow> Daemon option" where
  "listen_default d = (if \<not> useResolved (dm_flags d) then Some d
     else if dm_host d = None then None
     else if dnsListen (dm_flags d) = [] then
       Some (d\<lparr>dm_flags := (dm_flags d)\<lparr>dnsListen := addr_String (Next (Next (PAddr (Masked (pool_of (dm_cfg d)))))) @ '':53''\<rparr>\<rparr>)
     else Some d)"

definition start_dns :: "denv \<Rightarrow> Target list \<Rightarrow> (string, addr) fmap \<Rightarrow> Daemon \<Rightarrow> Daemon option" where
  "start_dns env ts ls d = (if dnsListen (dm_flags d) = [] then Some d
     else case Start (e_udp_ok env) (e_tcp_ok env) (Dns_New ts ls (Some (e_query env))) of
       (ok, _, srv) \<Rightarrow> if ok then Some (d\<lparr>dm_dns := Some srv\<rparr>) else None)"

text \<open>Pointing the resolver at the listener; \<open>None\<close> is the panic of \<^verbatim>\<open>netip.MustParseAddr\<close>.\<close>

definition configure_resolved :: "bus \<Rightarrow> denv \<Rightarrow> Daemon \<Rightarrow> ((resolved_error + RClient) \<times> buslog) option" where
  "configure_resolved bus env d = (case ParseAddr (hd (Split (CHR '':'') (dnsListen (dm_flags d)))) of None \<Rightarrow> None
     | Some ip \<Rightarrow> Some (Configure bus (e_bus_ok env) (case dm_host d of None \<Rightarrow> 0 | Some h \<Rightarrow> hd_link h) ip
         (DNSSuffixes (dm_sup d)) (reverseDomains (dm_cfg d)) (dm_bus d)))"

definition start_socket :: "denv \<Rightarrow> Daemon \<Rightarrow> Daemon option" where
  "start_socket env d = (if socketPath (dm_flags d) = [] then Some d
     else case Option.bind (e_group env) ParseUint32 of None \<Rightarrow> None
     | Some gid \<Rightarrow> (case Listen (e_listen_faults env) (word_of_nat gid) of None \<Rightarrow> None
         | Some sv \<Rightarrow> Some (d\<lparr>dm_sock := Some sv\<rparr>)))"

text \<open>The start after the host device.\<close>

definition start_rest :: "answers \<Rightarrow> bus \<Rightarrow> denv \<Rightarrow> Target list \<Rightarrow> (string, addr) fmap \<Rightarrow> Daemon \<Rightarrow> dm_outcome" where
  "start_rest ans bus env ts ls d = (case listen_default d of None \<Rightarrow> exit_with ans bus 1 d
    | Some d \<Rightarrow> (case start_dns env ts ls d of None \<Rightarrow> exit_with ans bus 1 d
      | Some d \<Rightarrow>
        (case (if useResolved (dm_flags d)
               then (case configure_resolved bus env d of None \<Rightarrow> Inl (2, d)
                     | Some (Inl _, bl) \<Rightarrow> Inl (1, d\<lparr>dm_bus := bl\<rparr>)
                     | Some (Inr c, bl) \<Rightarrow> Inr (d\<lparr>dm_res := Some c, dm_bus := bl\<rparr>))
               else Inr d) of
           Inl (code, d) \<Rightarrow> exit_with ans bus code d
         | Inr d \<Rightarrow> if once (dm_flags d) then exit_with ans bus 0 d
             else (case start_socket env d of None \<Rightarrow> exit_with ans bus 1 d | Some d \<Rightarrow> Running d))))"

definition start_services :: "answers \<Rightarrow> bus \<Rightarrow> denv \<Rightarrow> Daemon \<Rightarrow> dm_outcome" where
  "start_services ans bus env d =
    (if ValidateDNSSuffixes (dm_sup d) \<noteq> None then exit_with ans bus 1 d
     else let ts = Targets (Sup_Inventory (e_sort env) (dm_sup d)) in
     (case daemon_leases env (dm_sup d) of (Inl _, s) \<Rightarrow> exit_with ans bus 1 (d\<lparr>dm_sup := s\<rparr>)
      | (Inr ls, s) \<Rightarrow> (case start_host ans env ts ls (d\<lparr>dm_sup := s\<rparr>) of Inl d \<Rightarrow> exit_with ans bus 1 d
        | Inr d \<Rightarrow> start_rest ans bus env ts ls d)))"

text \<open>The daemon once its supervisor exists. If \<open>Start\<close> fails, \<open>run\<close> returns before it defers the closing of the supervisor.\<close>

definition fresh_daemon :: "denv \<Rightarrow> Flags \<Rightarrow> Config \<Rightarrow> Supervisor \<Rightarrow> Daemon" where
  "fresh_daemon env f c s = \<lparr>dm_cfg = c, dm_flags = f, dm_sup = s, dm_host = None, dm_log = [], dm_net = None, dm_dns = None, dm_res = None,
     dm_bus = [], dm_files = e_files env, dm_sock = None, dm_shutdown = False\<rparr>"

definition daemon_run :: "answers \<Rightarrow> bus \<Rightarrow> denv \<Rightarrow> string list \<Rightarrow> dm_outcome" where
  "daemon_run ans bus env argv =
    (if length argv = 2 \<and> argv ! 1 = ''--version'' then Exit 0 None
     else if length argv < 2 \<or> argv ! 1 \<noteq> ''run'' then Exit 2 None
     else case flag_Parse run_formal (drop 2 argv) [] of FlagHelp \<Rightarrow> Exit 0 None | FlagError \<Rightarrow> Exit 2 None
     | FlagsParsed v rest \<Rightarrow> let f = run_flags v in if rest \<noteq> [] then Exit 1 None
       else (case Load (e_decode env) (e_files env) (config_path f) of Inl _ \<Rightarrow> Exit 1 None
       | Inr c \<Rightarrow> if validate_config f then Exit 0 None
         else if state_root f = DefaultStateRoot \<and> \<not> HasPrefix (config_path f) ''/'' then Exit 1 None
         else (case Sup_New (e_store_faults env 0) (e_store_faults env 1) (e_store_faults env 2) (e_now env) c (state_root f) (e_dir env) of
             (Inl _, _) \<Rightarrow> Exit 1 None
           | (Inr s, _) \<Rightarrow> (case Sup_Start (e_root_ok env) (e_root_mode_ok env) (e_start env) s of
               (Some _, s) \<Rightarrow> Exit 1 (Some (fresh_daemon env f c s))
             | (None, s) \<Rightarrow> start_services ans bus env (fresh_daemon env f c s)))))"

subsection \<open>Reacting to changes\<close>

definition reconcile_resolved :: "bus \<Rightarrow> denv \<Rightarrow> Daemon \<Rightarrow> Daemon option" where
  "reconcile_resolved bus env d = (if \<not> useResolved (dm_flags d) then Some d
     else let d = (case dm_res d of None \<Rightarrow> d
            | Some c \<Rightarrow> (case Revert bus c (dm_bus d) of (_, c, bl) \<Rightarrow> d\<lparr>dm_res := Some c, dm_bus := bl\<rparr>)) in
     (case configure_resolved bus env d of None \<Rightarrow> None
      | Some (r, bl) \<Rightarrow> Some (d\<lparr>dm_res := (case r of Inl _ \<Rightarrow> None | Inr c \<Rightarrow> Some c), dm_bus := bl\<rparr>)))"

definition reconcile_datapath :: "answers \<Rightarrow> denv \<Rightarrow> Target list \<Rightarrow> (string, addr) fmap \<Rightarrow> Daemon \<Rightarrow> Daemon" where
  "reconcile_datapath ans env ts ls d =
    (let d = (case dm_host d of None \<Rightarrow> d
              | Some h \<Rightarrow> (case ReconcileTargets ans (route_targets env ts ls) h (dm_log d) of
                  (_, h, log) \<Rightarrow> d\<lparr>dm_host := Some h, dm_log := log\<rparr>));
         d = d\<lparr>dm_net := map_option (\<lambda>n. n\<lparr>eng := Update ts ls (DatapathProfiles (dm_sup d)) (eng n)\<rparr>) (dm_net d)\<rparr>
     in d\<lparr>dm_dns := map_option (Dns_Update ts ls) (dm_dns d)\<rparr>)"

definition reconcile :: "answers \<Rightarrow> bus \<Rightarrow> denv \<Rightarrow> Daemon \<Rightarrow> dm_outcome" where
  "reconcile ans bus env d =
    (if ValidateDNSSuffixes (dm_sup d) \<noteq> None then exit_with ans bus 1 d
     else let ts = Targets (Sup_Inventory (e_sort env) (dm_sup d)) in
     (case daemon_leases env (dm_sup d) of (Inl _, s) \<Rightarrow> Running (d\<lparr>dm_sup := s\<rparr>)
      | (Inr ls, s) \<Rightarrow> let d = reconcile_datapath ans env ts ls (d\<lparr>dm_sup := s\<rparr>) in
        (case reconcile_resolved bus env d of None \<Rightarrow> exit_with ans bus 2 d | Some d \<Rightarrow> Running d)))"

datatype dm_event = SignalDone | Shutdown | Change

text \<open>One turn of the main loop; \<open>None\<close> when the event is not there to be received.\<close>

definition main_loop :: "answers \<Rightarrow> bus \<Rightarrow> denv \<Rightarrow> dm_event \<Rightarrow> Daemon \<Rightarrow> dm_outcome option" where
  "main_loop ans bus env ev d = (case ev of SignalDone \<Rightarrow> Some (exit_with ans bus 0 d)
     | Shutdown \<Rightarrow> if dm_shutdown d then Some (exit_with ans bus 75 d) else None
     | Change \<Rightarrow> (case take_change (dm_sup d) of (pending, s) \<Rightarrow>
         if pending then Some (reconcile ans bus env (d\<lparr>dm_sup := s\<rparr>)) else None))"

subsection \<open>The control handler\<close>

abbreviation str_bytes :: "string \<Rightarrow> bytes" where "str_bytes s \<equiv> map of_char s"

definition failed :: "string \<Rightarrow> dm_result Response" where
  "failed e = \<lparr>OK = False, Error = e, Result = None, Restart = False\<rparr>"

definition succeeded :: "dm_result option \<Rightarrow> dm_result Response" where
  "succeeded r = \<lparr>OK = True, Error = [], Result = r, Restart = False\<rparr>"

text \<open>A supervisor with new profiles brings their devices into the datapath.\<close>

definition set_sup :: "Supervisor \<Rightarrow> Daemon \<Rightarrow> Daemon" where
  "set_sup s d = d\<lparr>dm_sup := s, dm_net := map_option (\<lambda>n. n\<lparr>tuns := (\<lambda>t. if t \<in> {s_next (dm_sup d)..<s_next s} then sup_tuns s t else tuns n t)\<rparr>) (dm_net d)\<rparr>"

definition daemon_handler :: "denv \<Rightarrow> Caller \<Rightarrow> Request \<Rightarrow> Daemon \<Rightarrow> dm_result Response \<times> Daemon" where
  "daemon_handler env caller req d =
    (if Op req = ''status'' then
       (case daemon_leases env (dm_sup d) of (l, s) \<Rightarrow>
         (succeeded (Some (StatusResult (Status (dm_sup d)) (Targets (Sup_Inventory (e_sort env) (dm_sup d)))
            (case l of Inl _ \<Rightarrow> None | Inr m \<Rightarrow> Some m) (map_option (\<lambda>n. Stats (eng n)) (dm_net d)))), d\<lparr>dm_sup := s\<rparr>))
     else if Op req = ''restart'' then ((succeeded None)\<lparr>Restart := True\<rparr>, d\<lparr>dm_shutdown := True\<rparr>)
     else if Op req = ''login'' then
       (case Load (e_decode env) (dm_files d) (config_path (dm_flags d)) of
          Inl e \<Rightarrow> (failed (e_text env (ConfigError e)), d)
        | Inr nc \<Rightarrow> (case StartConfiguredProfiles (e_start env) nc (dm_sup d) of
            (Some e, s) \<Rightarrow> (failed (e_text env (SupError e)), set_sup s d)
          | (None, s) \<Rightarrow> (case Login (e_login env) (Req_Profile req) (AuthKey req) s of
              (Inl e, s', _) \<Rightarrow> (failed (e_text env (SupError e)), (set_sup s d)\<lparr>dm_sup := s'\<rparr>)
            | (Inr u, s', _) \<Rightarrow> (succeeded (Some (AuthURL u)), (set_sup s d)\<lparr>dm_sup := s'\<rparr>))))
     else if Op req = ''logout'' then
       (case Logout (e_client_ok env) (e_logout_ok env) (Req_Profile req) (dm_sup d) of
          (Some e, s) \<Rightarrow> (failed (e_text env (SupError e)), d\<lparr>dm_sup := s\<rparr>)
        | (None, s) \<Rightarrow> (succeeded None, d\<lparr>dm_sup := s\<rparr>))
     else if Op req = ''config_write'' then
       (if \<not> Root caller then (failed ''config writes require root'', d)
        else (case Parse (e_decode env) (str_bytes (ConfigYAML req)) of Inl e \<Rightarrow> (failed (e_text env (ConfigError e)), d)
          | Inr nc \<Rightarrow> (case WriteAtomic (e_encode env) (e_write_faults env) (e_tmp env) (e_part env) (config_path (dm_flags d)) nc (dm_files d) of
              (Some e, fss) \<Rightarrow> (failed (e_text env (ConfigError e)), d\<lparr>dm_files := last fss\<rparr>)
            | (None, fss) \<Rightarrow> (succeeded None, d\<lparr>dm_files := last fss\<rparr>))))
     else (failed ''unknown operation'', d))"

section \<open>Reachable daemons\<close>

text \<open>What is assumed of the sort package and of map iteration.\<close>

definition env_ok :: "denv \<Rightarrow> bool" where
  "env_ok env \<longleftrightarrow> slice_sorter (e_sort env) \<and> iter_ok (e_iter env) \<and> iter_ok (e_lease_iter env)"

inductive daemon_reachable :: "answers \<Rightarrow> bus \<Rightarrow> Daemon \<Rightarrow> bool" for ans bus where
  started: "env_ok env \<Longrightarrow> daemon_run ans bus env argv = Running d \<Longrightarrow> daemon_reachable ans bus d"
| looped: "daemon_reachable ans bus d \<Longrightarrow> env_ok env \<Longrightarrow> main_loop ans bus env ev d = Some (Running d') \<Longrightarrow> daemon_reachable ans bus d'"
| request: "daemon_reachable ans bus d \<Longrightarrow> handle decode (daemon_handler env) gid c d = (out, d') \<Longrightarrow> daemon_reachable ans bus d'"
| watched: "daemon_reachable ans bus d \<Longrightarrow> i < length (s_profiles (dm_sup d)) \<Longrightarrow>
    daemon_reachable ans bus (d\<lparr>dm_sup := watch_event i ev inp (dm_sup d)\<rparr>)"
| lost: "daemon_reachable ans bus d \<Longrightarrow> i < length (s_profiles (dm_sup d)) \<Longrightarrow>
    daemon_reachable ans bus (d\<lparr>dm_sup := snd (watch_lost i reason dn inp (b, dm_sup d))\<rparr>)"
| from_host: "daemon_reachable ans bus d \<Longrightarrow> dm_net d = Some n \<Longrightarrow> hostStep clk sel rd n = Continue n' \<Longrightarrow>
    daemon_reachable ans bus (d\<lparr>dm_net := Some n'\<rparr>)"
| from_profile: "daemon_reachable ans bus d \<Longrightarrow> dm_net d = Some n \<Longrightarrow> (t, pid) \<in> set (loops (eng n)) \<Longrightarrow>
    profileStep clk sel wr t pid n = Continue n' \<Longrightarrow> daemon_reachable ans bus (d\<lparr>dm_net := Some n'\<rparr>)"
| node: "daemon_reachable ans bus d \<Longrightarrow> dm_net d = Some n \<Longrightarrow> dev_step (tuns n t) dev \<Longrightarrow>
    daemon_reachable ans bus (d\<lparr>dm_net := Some (n\<lparr>tuns := (tuns n)(t := dev)\<rparr>)\<rparr>)"

definition host_ok :: "answers \<Rightarrow> HostDev option \<Rightarrow> netlog \<Rightarrow> bool" where
  "host_ok ans h log = (case h of None \<Rightarrow> outstanding log = [] | Some h \<Rightarrow> host_reachable ans h log)"

definition daemon_inv :: "answers \<Rightarrow> Daemon \<Rightarrow> bool" where
  "daemon_inv ans d \<longleftrightarrow> sup_reachable (dm_sup d) \<and> (\<forall>n. dm_net d = Some n \<longrightarrow> net_reachable n)
     \<and> host_ok ans (dm_host d) (dm_log d)"

lemma sup_tuns_inv: "sup_inv s \<Longrightarrow> dev_inv (sup_tuns s t)"
  by (auto simp: sup_tuns_def sup_inv_def split: option.split)

lemma attach_many:
  assumes "net_reachable n" "\<And>t. dev_inv (f t)"
  shows "net_reachable (n\<lparr>tuns := (\<lambda>t. if t \<in> {a..<b} then f t else tuns n t)\<rparr>)"
proof (induction b)
  case 0
  then show ?case using assms(1) by simp
next
  case (Suc b)
  let ?m = "n\<lparr>tuns := (\<lambda>t. if t \<in> {a..<b} then f t else tuns n t)\<rparr>"
  show ?case
  proof (cases "a \<le> b")
    case True
    have "net_step ?m (?m\<lparr>tuns := (tuns ?m)(b := f b)\<rparr>)" using assms(2) by (rule net_step.attach)
    from net_reachable.step [OF Suc.IH this] show ?thesis
      by (rule back_subst [where P = net_reachable]) (use True in \<open>auto simp: fun_eq_iff\<close>)
  next
    case False
    then show ?thesis using Suc.IH by simp
  qed
qed

lemma set_sup_inv: "daemon_inv ans d \<Longrightarrow> sup_reachable s \<Longrightarrow> daemon_inv ans (set_sup s d)"
  using attach_many [of _ "sup_tuns s"] sup_tuns_inv [OF sup_reachable_inv]
  by (auto simp: daemon_inv_def set_sup_def simp del: atLeastLessThan_iff split: option.splits)

lemma dm_sup_inv: "daemon_inv ans d \<Longrightarrow> sup_reachable s \<Longrightarrow> daemon_inv ans (d\<lparr>dm_sup := s\<rparr>)"
  by (simp add: daemon_inv_def)

lemma daemon_handler_inv: "daemon_inv ans d \<Longrightarrow> daemon_handler env caller req d = (out, d') \<Longrightarrow> daemon_inv ans d'"
proof -
  assume inv: "daemon_inv ans d" and h: "daemon_handler env caller req d = (out, d')"
  have s: "sup_reachable (dm_sup d)" using inv by (simp add: daemon_inv_def)
  have log: "sup_reachable s'" if "Login le n k s = (r, s', p)" "StartConfiguredProfiles se nc (dm_sup d) = (q, s)" for le n k s r s' p se nc q
    using sup_reachable.login [OF sup_reachable.configured [OF s that(2)] that(1)] .
  have "daemon_inv ans (d\<lparr>dm_files := x\<rparr>)" "daemon_inv ans (d\<lparr>dm_shutdown := y\<rparr>)" for x y using inv by (simp_all add: daemon_inv_def)
  then show ?thesis
    using h inv unfolding daemon_handler_def daemon_leases_def
    by (auto split: if_splits sum.splits prod.splits option.splits intro!: dm_sup_inv set_sup_inv
        dest: log sup_reachable.configured [OF s] sup_reachable.computed [OF s] sup_reachable.logout [OF s])
qed

lemma handle_cases: "handle decode h gid c s = (out, s') \<Longrightarrow> s' = s \<or> (\<exists>caller r res. h caller r s = (res, s'))"
  by (auto simp: handle_def split: option.splits if_splits prod.splits)

lemma reconcile_datapath_inv:
  assumes "daemon_inv ans d" "inputs4 ts ls (DatapathProfiles (dm_sup d))"
  shows "daemon_inv ans (reconcile_datapath ans env ts ls d)"
proof -
  have "net_reachable (n\<lparr>eng := Update ts ls (DatapathProfiles (dm_sup d)) (eng n)\<rparr>)" if "dm_net d = Some n" for n
    using assms that net_reachable.step [OF _ net_step.update [OF assms(2)], of n] by (simp add: daemon_inv_def)
  then show ?thesis using assms(1)
    by (auto simp: daemon_inv_def host_ok_def reconcile_datapath_def Let_def split: option.splits prod.splits intro: host_reachable.reconciled)
qed

lemma reconcile_resolved_frame:
  "reconcile_resolved bus env d = Some d' \<Longrightarrow> dm_sup d' = dm_sup d \<and> dm_net d' = dm_net d \<and> dm_host d' = dm_host d \<and> dm_log d' = dm_log d
     \<and> dm_dns d' = dm_dns d \<and> dm_files d' = dm_files d"
  by (auto simp: reconcile_resolved_def Let_def split: if_splits option.splits prod.splits)

lemma datapath_inputs:
  assumes "sup_reachable s" "env_ok env" "daemon_leases env s = (Inr ls, s')"
  shows "inputs4 (Targets (Sup_Inventory (e_sort env) s)) ls (DatapathProfiles s')" "sup_reachable s'" "Sup_Inventory (e_sort env) s' = Sup_Inventory (e_sort env) s"
proof -
  have e: "s' = s\<lparr>s_store := s_store s'\<rparr>" using assms(3) EffectiveLeases_frame by (simp add: daemon_leases_def)
  have "DatapathProfiles (s\<lparr>s_store := x\<rparr>) = DatapathProfiles s" for x by (simp add: DatapathProfiles_def)
  then have d: "DatapathProfiles s' = DatapathProfiles s" using e by metis
  show "inputs4 (Targets (Sup_Inventory (e_sort env) s)) ls (DatapathProfiles s')"
    unfolding d using assms by (intro supervisor_inputs4) (auto simp: env_ok_def daemon_leases_def intro: sup_reachable_inv)
  show "sup_reachable s'" using assms(1,3) by (auto simp: daemon_leases_def intro: sup_reachable.computed)
  show "Sup_Inventory (e_sort env) s' = Sup_Inventory (e_sort env) s" using e Sup_Inventory_store by metis
qed

lemma reconcile_inv:
  assumes "daemon_inv ans d" "env_ok env" "reconcile ans bus env d = Running d'"
  shows "daemon_inv ans d'"
proof -
  have s: "sup_reachable (dm_sup d)" using assms(1) by (simp add: daemon_inv_def)
  obtain r s' where l: "daemon_leases env (dm_sup d) = (r, s')" by fastforce
  show ?thesis
  proof (cases r)
    case (Inl e)
    then have "d' = d\<lparr>dm_sup := s'\<rparr>" using assms(3) l by (auto simp: reconcile_def split: if_splits)
    then show ?thesis using assms(1) l sup_reachable.computed [OF s] by (auto simp: daemon_leases_def intro: dm_sup_inv)
  next
    case (Inr ls)
    let ?d = "reconcile_datapath ans env (Targets (Sup_Inventory (e_sort env) (dm_sup d))) ls (d\<lparr>dm_sup := s'\<rparr>)"
    have i: "daemon_inv ans ?d"
      using datapath_inputs [OF s assms(2) l [unfolded Inr]] assms(1) by (intro reconcile_datapath_inv dm_sup_inv) auto
    have "reconcile_resolved bus env ?d = Some d'" using assms(3) l Inr by (auto simp: reconcile_def Let_def split: if_splits option.splits)
    from reconcile_resolved_frame [OF this] i show ?thesis by (simp add: daemon_inv_def)
  qed
qed

section \<open>Starting and exiting\<close>

lemma valid_pool_of:
  assumes "valid_config c"
  shows "valid_pool (pool_of c)" "\<exists>n b. ParsePrefix (EffectiveIPv4CIDR c) = Some (Prefix (V4 n) b) \<and> pool_of c = Prefix (V4 n) b \<and> b \<le> 30"
  using assms by (auto simp: valid_config_def pool_of_def valid_pool_def)

lemma Is4_nat: "valid_config c \<Longrightarrow> Is4 (Next (PAddr (Masked (pool_of c))))"
  using Next_base(1) [OF valid_pool_of(1)] by simp

lemma start_host_inv:
  assumes "daemon_inv ans d" "dm_host d = None" "dm_log d = []" "dm_net d = None" "valid_config (dm_cfg d)"
    and "inputs4 ts ls (DatapathProfiles (dm_sup d))"
    and "start_host ans env ts ls d = r"
  shows "case r of Inr d' \<Rightarrow> daemon_inv ans d' | Inl d' \<Rightarrow> daemon_inv ans d'"
proof (cases "hostTUN (dm_flags d)")
  case False
  then show ?thesis using assms(1,7) by (auto simp: start_host_def)
next
  case True
  let ?pool = "pool_of (dm_cfg d)" and ?c = "dm_cfg d"
  let ?n = "\<lparr>eng = Engine_New (Next (PAddr (Masked ?pool))) ts ls (DatapathProfiles (dm_sup d)), tuns = sup_tuns (dm_sup d), host_out = []\<rparr>"
  have sup: "sup_reachable (dm_sup d)" using assms(1) by (simp add: daemon_inv_def)
  have "net_reachable ?n"
    using Is4_nat [OF assms(5)] assms(6) sup_tuns_inv [OF sup_reachable_inv [OF sup]] by (rule net_reachable.init)
  from net_reachable.step [OF this net_step.run]
  have net: "net_reachable (?n\<lparr>eng := Engine_Run (Engine_New (Next (PAddr (Masked ?pool))) ts ls (DatapathProfiles (dm_sup d)))\<rparr>)" by simp
  obtain q log where cr: "Create ans (e_host env) (Interface ?c) (Cfg_MTU ?c) (RoutingTable ?c) ?pool [] = (q, log)" by fastforce
  show ?thesis
  proof (cases q)
    case (Inl e)
    then have "r = Inl (d\<lparr>dm_log := log\<rparr>)" using assms(3,7) True cr by (simp add: start_host_def Let_def)
    then show ?thesis using Create_Inl [OF cr [unfolded Inl]] assms by (simp add: daemon_inv_def host_ok_def)
  next
    case (Inr h)
    note h = host_reachable.created [OF cr [unfolded Inr]]
    have rt: "hd_routes h = []" using Create_Inr [OF cr [unfolded Inr]] by simp
    obtain e h' log' where a: "AddTargets ans (route_targets env ts ls) h log = (e, h', log')" by (metis prod_cases3)
    note h' = host_reachable.added [OF h a rt]
    show ?thesis
    proof (cases e)
      case (Some x)
      then have "r = Inl (d\<lparr>dm_log := snd (Host_Close ans h' log')\<rparr>)" using assms(3,7) True cr Inr a by (simp add: start_host_def Let_def)
      moreover have "outstanding (snd (Host_Close ans h' log')) = []" using Host_Close_cleans [OF host_reachable_inv [OF h'], of ans] by (simp add: case_prod_beta)
      ultimately show ?thesis using assms by (simp add: daemon_inv_def host_ok_def)
    next
      case None
      then show ?thesis using assms(3,7) True cr Inr a net h' sup by (auto simp: start_host_def Let_def daemon_inv_def host_ok_def)
    qed
  qed
qed

lemma daemon_inv_cong:
  "dm_sup d' = dm_sup d \<Longrightarrow> dm_net d' = dm_net d \<Longrightarrow> dm_host d' = dm_host d \<Longrightarrow> dm_log d' = dm_log d \<Longrightarrow> daemon_inv ans d' = daemon_inv ans d"
  by (simp add: daemon_inv_def)

text \<open>Every outcome is a daemon that keeps the invariant, or what the deferred calls make of one.\<close>

definition outcome_ok :: "answers \<Rightarrow> bus \<Rightarrow> dm_outcome \<Rightarrow> bool" where
  "outcome_ok ans bus o' = (case o' of Running d \<Rightarrow> daemon_inv ans d
     | Exit c None \<Rightarrow> True | Exit c (Some d) \<Rightarrow> (\<exists>d0. daemon_inv ans d0 \<and> d = shut_down ans bus d0))"

lemma outcome_ok_simps [simp]:
  "outcome_ok ans bus (Running d) = daemon_inv ans d" "outcome_ok ans bus (Exit c None)"
  "daemon_inv ans d \<Longrightarrow> outcome_ok ans bus (exit_with ans bus c d)"
  by (auto simp: outcome_ok_def)

lemma listen_default_inv: "listen_default d = Some d' \<Longrightarrow> daemon_inv ans d' = daemon_inv ans d"
  by (rule daemon_inv_cong) (auto simp: listen_default_def split: if_splits)

lemma start_dns_inv: "start_dns env ts ls d = Some d' \<Longrightarrow> daemon_inv ans d' = daemon_inv ans d"
  by (rule daemon_inv_cong) (auto simp: start_dns_def split: if_splits prod.splits)

lemma start_socket_inv: "start_socket env d = Some d' \<Longrightarrow> daemon_inv ans d' = daemon_inv ans d"
  by (rule daemon_inv_cong) (auto simp: start_socket_def split: if_splits option.splits)

lemma daemon_inv_res [simp]: "daemon_inv ans (d\<lparr>dm_res := x\<rparr>) = daemon_inv ans d" "daemon_inv ans (d\<lparr>dm_bus := y\<rparr>) = daemon_inv ans d"
  by (simp_all add: daemon_inv_def)

lemma start_rest_ok:
  assumes "daemon_inv ans d"
  shows "outcome_ok ans bus (start_rest ans bus env ts ls d)"
proof (cases "listen_default d")
  case None
  then show ?thesis using assms by (simp add: start_rest_def)
next
  case d1: (Some d1)
  then have i1: "daemon_inv ans d1" using listen_default_inv assms by blast
  show ?thesis
  proof (cases "start_dns env ts ls d1")
    case None
    then show ?thesis using d1 i1 by (simp add: start_rest_def)
  next
    case d2: (Some d2)
    then have i2: "daemon_inv ans d2" using start_dns_inv i1 by blast
    define r where "r = (if useResolved (dm_flags d2)
               then (case configure_resolved bus env d2 of None \<Rightarrow> Inl (2 :: int, d2)
                     | Some (Inl _, bl) \<Rightarrow> Inl (1, d2\<lparr>dm_bus := bl\<rparr>)
                     | Some (Inr c, bl) \<Rightarrow> Inr (d2\<lparr>dm_res := Some c, dm_bus := bl\<rparr>))
               else Inr d2)"
    have i3: "case r of Inl (c, d3) \<Rightarrow> daemon_inv ans d3 | Inr d3 \<Rightarrow> daemon_inv ans d3"
      using i2 by (auto simp: r_def split: option.split sum.split)
    have "start_rest ans bus env ts ls d = (case r of Inl (code, d) \<Rightarrow> exit_with ans bus code d
         | Inr d \<Rightarrow> if once (dm_flags d) then exit_with ans bus 0 d
             else (case start_socket env d of None \<Rightarrow> exit_with ans bus 1 d | Some d \<Rightarrow> Running d))"
      by (simp add: start_rest_def d1 d2 r_def)
    then show ?thesis using i3 start_socket_inv
      by (cases r) (auto split: option.split)
  qed
qed

lemma start_services_ok:
  assumes "daemon_inv ans d" "dm_host d = None" "dm_log d = []" "dm_net d = None" "valid_config (dm_cfg d)" "env_ok env"
  shows "outcome_ok ans bus (start_services ans bus env d)"
proof -
  have s: "sup_reachable (dm_sup d)" using assms(1) by (simp add: daemon_inv_def)
  obtain q s' where l: "daemon_leases env (dm_sup d) = (q, s')" by fastforce
  have s': "daemon_inv ans (d\<lparr>dm_sup := s'\<rparr>)" using l sup_reachable.computed [OF s] assms(1) by (auto simp: daemon_leases_def intro: dm_sup_inv)
  show ?thesis
  proof (cases q)
    case (Inl e)
    then show ?thesis using l s' assms(1) by (simp add: start_services_def Let_def)
  next
    case (Inr ls)
    let ?ts = "Targets (Sup_Inventory (e_sort env) (dm_sup d))"
    have h: "case start_host ans env ?ts ls (d\<lparr>dm_sup := s'\<rparr>) of Inr d' \<Rightarrow> daemon_inv ans d' | Inl d' \<Rightarrow> daemon_inv ans d'"
      by (rule start_host_inv [OF s' _ _ _ _ _ refl]) (use assms datapath_inputs(1) [OF s assms(6) l [unfolded Inr]] in simp_all)
    show ?thesis
    proof (cases "start_host ans env ?ts ls (d\<lparr>dm_sup := s'\<rparr>)")
      case (Inl d1)
      then show ?thesis using h assms(1) l \<open>q = Inr ls\<close> by (simp add: start_services_def Let_def)
    next
      case (Inr d1)
      then show ?thesis using start_rest_ok [of ans d1 bus env ?ts ls] h assms(1) l \<open>q = Inr ls\<close>
        by (simp add: start_services_def Let_def)
    qed
  qed
qed

lemma fresh_daemon_inv: "sup_reachable s \<Longrightarrow> daemon_inv ans (fresh_daemon env f c s)"
  by (simp add: daemon_inv_def host_ok_def fresh_daemon_def)

lemma fresh_daemon_simps [simp]:
  "dm_cfg (fresh_daemon env f c s) = c" "dm_sup (fresh_daemon env f c s) = s" "dm_host (fresh_daemon env f c s) = None"
  "dm_log (fresh_daemon env f c s) = []" "dm_net (fresh_daemon env f c s) = None" "dm_dns (fresh_daemon env f c s) = None"
  "dm_res (fresh_daemon env f c s) = None" "dm_flags (fresh_daemon env f c s) = f" "dm_sock (fresh_daemon env f c s) = None"
  by (simp_all add: fresh_daemon_def)

text \<open>
  A failed start either closed the supervisor, or it failed before any profile was started: on the state
  root, and then the store is still open.
\<close>

definition start_failed :: "denv \<Rightarrow> Daemon \<Rightarrow> bool" where
  "start_failed env d \<longleftrightarrow> dm_host d = None \<and> dm_log d = [] \<and> dm_net d = None \<and> dm_dns d = None \<and> dm_res d = None \<and> dm_sock d = None
     \<and> (\<forall>p \<in> set (s_profiles (dm_sup d)). \<not> p_open p)
     \<and> (s_cancelled (dm_sup d) \<and> \<not> s_store_open (dm_sup d)
        \<or> \<not> (e_root_ok env \<and> e_root_mode_ok env) \<and> s_profiles (dm_sup d) = [] \<and> s_store_open (dm_sup d))"

lemma Sup_New_fresh: "Sup_New f1 f2 f3 now c root dir = (Inr s, dir') \<Longrightarrow> s_profiles s = [] \<and> s_store_open s"
  by (auto simp: Sup_New_def split: option.splits sum.splits prod.splits)

lemma start_failed_start:
  assumes "Sup_New f1 f2 f3 now c root dir = (Inr s, dir')" "Sup_Start (e_root_ok env) (e_root_mode_ok env) se s = (Some x, s')"
  shows "start_failed env (fresh_daemon env f c s')"
  using assms(2) Sup_New_fresh [OF assms(1)] by (auto simp: Sup_Start_def start_failed_def Sup_Close_def split: if_splits option.splits prod.splits)

text \<open>The outcomes of \<open>run\<close> up to the main loop.\<close>

definition run_ok :: "answers \<Rightarrow> bus \<Rightarrow> denv \<Rightarrow> dm_outcome \<Rightarrow> bool" where
  "run_ok ans bus env o' \<longleftrightarrow> outcome_ok ans bus o' \<or> (\<exists>d. o' = Exit 1 (Some d) \<and> start_failed env d)"

lemma daemon_run_ok:
  assumes "env_ok env"
  shows "run_ok ans bus env (daemon_run ans bus env argv)"
proof -
  have "run_ok ans bus env (start_services ans bus env (fresh_daemon env f c s'))"
    if "Load (e_decode env) (e_files env) (config_path f) = Inr c" "Sup_New f1 f2 f3 now c root dir = (Inr s, dir')" "Sup_Start b1 b2 se s = (None, s')"
    for c f s s' f1 f2 f3 now root dir dir' b1 b2 se
    unfolding run_ok_def
  proof (intro disjI1 start_services_ok)
    have "sup_reachable s" using that(2) by (rule sup_reachable.init)
    then show "daemon_inv ans (fresh_daemon env f c s')"
      using sup_reachable.start Sup_New_fresh [OF that(2)] that(3) by (auto intro!: fresh_daemon_inv)
    show "valid_config (dm_cfg (fresh_daemon env f c s'))"
      using that(1) by (auto simp: Load_def Parse_def simp flip: Validate_None_iff split: option.splits)
  qed (use assms in simp_all)
  moreover have "run_ok ans bus env (Exit c None)" for c by (simp add: run_ok_def)
  moreover have "run_ok ans bus env (Exit 1 (Some (fresh_daemon env f c s')))"
    if "Sup_New f1 f2 f3 now c root dir = (Inr s, dir')" "Sup_Start (e_root_ok env) (e_root_mode_ok env) se s = (Some x, s')"
    for f1 f2 f3 now c root dir s dir' se x s' f
    using start_failed_start [OF that] by (auto simp: run_ok_def)
  ultimately show ?thesis unfolding daemon_run_def Let_def
    by (auto split: if_splits flag_result.splits sum.splits prod.splits option.splits)
qed

lemma main_loop_ok:
  assumes "daemon_inv ans d" "env_ok env" "main_loop ans bus env ev d = Some o'"
  shows "outcome_ok ans bus o'"
proof -
  have s: "sup_reachable (dm_sup d)" using assms(1) by (simp add: daemon_inv_def)
  have "outcome_ok ans bus (reconcile ans bus env (d\<lparr>dm_sup := snd (take_change (dm_sup d))\<rparr>))" (is "outcome_ok _ _ (reconcile _ _ _ ?d)")
  proof (cases "reconcile ans bus env ?d")
    case (Running d')
    then show ?thesis using reconcile_inv [OF dm_sup_inv [OF assms(1) sup_reachable.change [OF s]] assms(2)] by simp
  next
    case (Exit c dd)
    have d: "daemon_inv ans ?d" by (rule dm_sup_inv [OF assms(1) sup_reachable.change [OF s]])
    have "\<exists>d0. daemon_inv ans d0 \<and> dd = Some (shut_down ans bus d0)"
    proof (cases "ValidateDNSSuffixes (dm_sup ?d) = None")
      case False
      then show ?thesis using Exit d by (auto simp: reconcile_def)
    next
      case True
      then obtain ls s' where l: "daemon_leases env (dm_sup ?d) = (Inr ls, s')"
        and dd: "dd = Some (shut_down ans bus (reconcile_datapath ans env (Targets (Sup_Inventory (e_sort env) (dm_sup ?d))) ls (?d\<lparr>dm_sup := s'\<rparr>)))"
        using Exit by (auto simp: reconcile_def Let_def split: sum.splits prod.splits option.splits)
      have "sup_reachable (dm_sup ?d)" using d by (simp add: daemon_inv_def)
      note i = datapath_inputs [OF this assms(2) l]
      have "daemon_inv ans (reconcile_datapath ans env (Targets (Sup_Inventory (e_sort env) (dm_sup ?d))) ls (?d\<lparr>dm_sup := s'\<rparr>))"
        by (rule reconcile_datapath_inv [OF dm_sup_inv [OF d i(2)]]) (use i(1) in simp)
      then show ?thesis unfolding dd by blast
    qed
    then show ?thesis by (auto simp: Exit outcome_ok_def)
  qed
  then show ?thesis using assms(1,3) by (auto simp: main_loop_def case_prod_beta split: dm_event.splits if_splits)
qed

lemma daemon_reachable_inv: "daemon_reachable ans bus d \<Longrightarrow> daemon_inv ans d"
proof (induction rule: daemon_reachable.induct)
  case (started env argv d)
  then show ?case using daemon_run_ok [of env ans bus argv] by (simp add: run_ok_def)
next
  case (looped d env ev d')
  then show ?case using main_loop_ok [of ans d env bus ev "Running d'"] by simp
next
  case (request d decode env gid c out d')
  then show ?case using handle_cases [OF request.hyps(2)] daemon_handler_inv by blast
next
  case (watched d i ev inp)
  then show ?case by (auto simp: daemon_inv_def intro: sup_reachable.event)
next
  case (lost d i reason dn inp b)
  then show ?case by (auto simp: daemon_inv_def intro: sup_reachable.lost)
next
  case (from_host d n clk sel rd n')
  then show ?case by (auto simp: daemon_inv_def intro: net_reachable.step net_step.host)
next
  case (from_profile d n t pid clk sel wr n')
  then show ?case by (auto simp: daemon_inv_def intro: net_reachable.step net_step.profile)
next
  case (node d n t dev)
  then show ?case by (auto simp: daemon_inv_def intro: net_reachable.step net_step.tun)
qed

text \<open>
  C7: the composed system stays inside the verified components. In every state the daemon reaches,
  through any order of startup, change notifications, control requests, node events and packets, the
  supervisor, the packet engine and the host device are in states their own invariants cover: the
  engine's tables and queues are within their bounds, and the kernel routes are the tracked ones.
\<close>

theorem daemon_composes:
  assumes "daemon_reachable ans bus d"
  shows "sup_inv (dm_sup d)
    \<and> (\<forall>n. dm_net d = Some n \<longrightarrow> net_reachable n \<and> maplen (flows (eng n)) \<le> 65536 \<and> maplen (fragments (eng n)) \<le> 8192
         \<and> (\<forall>t. length (toEngine (tuns n t)) \<le> depth (tuns n t)))
    \<and> (case dm_host d of None \<Rightarrow> outstanding (dm_log d) = []
       | Some h \<Rightarrow> mset (outstanding (dm_log d)) = mset (hd_routes h) \<and> (\<forall>r \<in> set (hd_routes h). narrow h r))"
proof -
  have inv: "daemon_inv ans d" using assms by (rule daemon_reachable_inv)
  then have "sup_inv (dm_sup d)" by (auto simp: daemon_inv_def intro: sup_reachable_inv)
  moreover have "net_reachable n \<and> maplen (flows (eng n)) \<le> 65536 \<and> maplen (fragments (eng n)) \<le> 8192 \<and> (\<forall>t. length (toEngine (tuns n t)) \<le> depth (tuns n t))"
    if "dm_net d = Some n" for n
  proof -
    have r: "net_reachable n" using inv that by (simp add: daemon_inv_def)
    from net_reachable_inv [OF this] show ?thesis using r by (simp add: net_inv_def engine_inv_def dev_inv_def)
  qed
  moreover have "case dm_host d of None \<Rightarrow> outstanding (dm_log d) = []
       | Some h \<Rightarrow> mset (outstanding (dm_log d)) = mset (hd_routes h) \<and> (\<forall>r \<in> set (hd_routes h). narrow h r)"
    using inv host_reachable_inv by (auto simp: daemon_inv_def host_ok_def host_inv_def split: option.split)
  ultimately show ?thesis by blast
qed

lemma shut_down_clean:
  assumes "daemon_inv ans d"
  shows "outstanding (dm_log (shut_down ans bus d)) = [] \<and> dm_host (shut_down ans bus d) = None
    \<and> s_cancelled (dm_sup (shut_down ans bus d)) \<and> \<not> s_store_open (dm_sup (shut_down ans bus d))
    \<and> (\<forall>p \<in> set (s_profiles (dm_sup (shut_down ans bus d))). \<not> p_open p)
    \<and> (\<forall>c. dm_res (shut_down ans bus d) = Some c \<longrightarrow> \<not> conn c)"
proof -
  have "outstanding (snd (Host_Close ans h (dm_log d))) = []" if "dm_host d = Some h" for h
  proof -
    have "host_reachable ans h (dm_log d)" using assms that by (simp add: daemon_inv_def host_ok_def)
    from Host_Close_cleans [OF host_reachable_inv [OF this], of ans] show ?thesis by (simp add: case_prod_beta)
  qed
  moreover have "outstanding (dm_log d) = []" if "dm_host d = None" using assms that by (simp add: daemon_inv_def host_ok_def)
  ultimately have "outstanding (dm_log (shut_down ans bus d)) = []"
    by (auto simp: shut_down_def Let_def split: option.split prod.split)
  moreover have "\<forall>c. dm_res (shut_down ans bus d) = Some c \<longrightarrow> \<not> conn c"
    by (auto simp: shut_down_def Let_def Revert_def buscall_def split: option.splits prod.splits if_splits)
  ultimately show ?thesis
    by (auto simp: shut_down_def Let_def Sup_Close_def split: option.splits prod.splits)
qed

text \<open>Startup gets as far as making a supervisor.\<close>

definition makes_supervisor :: "denv \<Rightarrow> string list \<Rightarrow> bool" where
  "makes_supervisor env argv \<longleftrightarrow> 2 \<le> length argv \<and> argv ! 1 = ''run'' \<and> (\<exists>v c s dir. flag_Parse run_formal (drop 2 argv) [] = FlagsParsed v []
     \<and> Load (e_decode env) (e_files env) (config_path (run_flags v)) = Inr c \<and> \<not> validate_config (run_flags v)
     \<and> (state_root (run_flags v) \<noteq> DefaultStateRoot \<or> HasPrefix (config_path (run_flags v)) ''/'')
     \<and> Sup_New (e_store_faults env 0) (e_store_faults env 1) (e_store_faults env 2) (e_now env) c (state_root (run_flags v)) (e_dir env) = (Inr s, dir))"

lemma start_rest_state: "start_rest ans bus env ts ls d \<noteq> Exit code None"
  by (auto simp: start_rest_def split: option.split sum.split prod.split)

lemma start_services_state: "start_services ans bus env d \<noteq> Exit code None"
  by (auto simp: start_services_def Let_def start_rest_state split: option.split sum.split prod.split)

lemma daemon_run_state: "daemon_run ans bus env argv = Exit code None \<Longrightarrow> \<not> makes_supervisor env argv"
  unfolding makes_supervisor_def daemon_run_def Let_def
  by (auto simp: start_services_state split: if_splits prod.splits option.splits simp del: flag_Parse.simps)

lemma main_loop_state: "main_loop ans bus env ev d \<noteq> Some (Exit code None)"
  by (auto simp: main_loop_def reconcile_def Let_def split: dm_event.split prod.split sum.split option.split)

text \<open>
  C9: what a return of \<open>run\<close> leaves behind. Whether it returns from startup, on a signal, on a restart request or
  on a fatal conflict, or the main goroutine panics: either it returned before it made a supervisor, or
  the daemon has asked the kernel to delete every route it
  added, the host device is gone, all profiles are closed and the resolver connection is closed; and the supervisor
  is cancelled with its store closed, with one exception: when startup fails on the state root, \<open>run\<close> returns
  before the closing of the supervisor is deferred, and the store is left open, with no profile started. (A panic in a
  packet loop ends the process without the deferred calls; it is not a return of \<open>run\<close>.)
\<close>

theorem daemon_exit_clean:
  assumes "env_ok env"
    and "daemon_run ans bus env argv = Exit code r \<or> daemon_reachable ans bus d \<and> main_loop ans bus env ev d = Some (Exit code r)"
  shows "case r of None \<Rightarrow> daemon_run ans bus env argv = Exit code None \<and> \<not> makes_supervisor env argv
    | Some d' \<Rightarrow>
    outstanding (dm_log d') = [] \<and> dm_host d' = None \<and> (\<forall>p \<in> set (s_profiles (dm_sup d')). \<not> p_open p) \<and> (\<forall>c. dm_res d' = Some c \<longrightarrow> \<not> conn c)
    \<and> (s_cancelled (dm_sup d') \<and> \<not> s_store_open (dm_sup d')
       \<or> daemon_run ans bus env argv = Exit 1 (Some d') \<and> \<not> (e_root_ok env \<and> e_root_mode_ok env) \<and> s_profiles (dm_sup d') = [] \<and> s_store_open (dm_sup d'))"
proof (cases r)
  case None
  then show ?thesis using assms(2) daemon_run_state main_loop_state by auto
next
  case (Some d')
  have "outcome_ok ans bus (Exit code (Some d')) \<or> daemon_run ans bus env argv = Exit 1 (Some d') \<and> start_failed env d'"
    using assms(2)
  proof
    assume "daemon_run ans bus env argv = Exit code r"
    with daemon_run_ok [OF assms(1), of ans bus argv] Some show ?thesis by (auto simp: run_ok_def)
  next
    assume "daemon_reachable ans bus d \<and> main_loop ans bus env ev d = Some (Exit code r)"
    then show ?thesis using main_loop_ok [OF daemon_reachable_inv assms(1)] Some by blast
  qed
  then show ?thesis using shut_down_clean Some by (auto simp: outcome_ok_def start_failed_def)
qed

section \<open>Who may change the configuration\<close>

lemma daemon_handler_files: "Op r \<noteq> ''config_write'' \<Longrightarrow> dm_files (snd (daemon_handler env caller r d)) = dm_files d"
  by (simp add: daemon_handler_def set_sup_def split: sum.split prod.split option.split)

text \<open>
  C8: only root changes the configuration. If serving a connection of the control socket changes the
  configuration file, then the kernel reported user 0 for the peer, the request was a \<^verbatim>\<open>config_write\<close>, and
  the file now holds the encoding of a valid configuration.
\<close>

theorem config_write_needs_root:
  assumes "handle decode (daemon_handler env) gid c d = (out, d')"
    and "fmlookup (dm_files d') (config_path (dm_flags d)) \<noteq> fmlookup (dm_files d) (config_path (dm_flags d))"
    and "e_tmp env |\<notin>| fmdom (dm_files d)" "e_tmp env \<noteq> config_path (dm_flags d)" "e_tmp env \<noteq> config_path (dm_flags d) @ ''.lock''"
  shows "\<exists>cr nc. peercred c = Some cr \<and> cred_uid cr = 0 \<and> (\<exists>r. decode (take 1048576 (incoming c)) = Some r \<and> Op r = ''config_write''
      \<and> Parse (e_decode env) (str_bytes (ConfigYAML r)) = Inr nc)
    \<and> valid_config nc \<and> fmlookup (dm_files d') (config_path (dm_flags d)) = e_encode env nc"
proof -
  obtain caller r where h: "authorized c gid = Some caller" "decode (take 1048576 (incoming c)) = Some r" "d' = snd (daemon_handler env caller r d)"
    using assms(1,2) by (auto simp: handle_def split: option.splits if_splits prod.splits)
  have "dm_files d' \<noteq> dm_files d" using assms(2) by auto
  then have op: "Op r = ''config_write''" using daemon_handler_files h(3) by blast
  obtain nc res fss where w: "Op r = ''config_write''" "Root caller" "Parse (e_decode env) (str_bytes (ConfigYAML r)) = Inr nc"
    "WriteAtomic (e_encode env) (e_write_faults env) (e_tmp env) (e_part env) (config_path (dm_flags d)) nc (dm_files d) = (res, fss)" "dm_files d' = last fss"
    using assms(2) h(3) op by (auto simp: daemon_handler_def split: if_splits sum.splits prod.splits option.splits)
  note a = WriteAtomic_path [OF assms(3-5) w(4)]
  have "valid_config nc \<and> fmlookup (dm_files d') (config_path (dm_flags d)) = e_encode env nc" using a assms(2) w(5) by auto
  then show ?thesis using authorized_trusted [OF h(1)] h(2) w(1-3) by auto
qed

section \<open>The parts agree after a change\<close>

lemma EffectiveLeases_inj:
  assumes "iter_ok iter" "EffectiveLeases srt iter rok pok s = (Inr out, s')" "fmlookup out k = Some ip" "fmlookup out k' = Some ip"
  shows "k = k'"
  using assms(1,2)
proof (rule EffectiveLeases_Inr)
  fix a a' ls
  assume "alloc_inv a'" "\<And>k. fmlookup out k = (if k \<in> set (inv_keys srt s) then fmlookup (leases a') k else None)"
  then show ?thesis using assms(3,4) by (metis alloc_inv_def option.distinct(1) option.inject)
qed

lemma EffectiveLeases_leased:
  assumes "iter_ok iter" "EffectiveLeases srt iter rok pok s = (Inr out, s')" "k \<in> set (inv_keys srt s)"
  shows "\<exists>ip. fmlookup out k = Some ip"
  using assms(1,2)
proof (rule EffectiveLeases_Inr)
  fix a a' ls
  assume "\<And>k. fmlookup (leases a') k = None \<longleftrightarrow> fmlookup (leases a) k = None \<and> k \<notin> set (inv_keys srt s)"
    "\<And>k. fmlookup out k = (if k \<in> set (inv_keys srt s) then fmlookup (leases a') k else None)"
  then show ?thesis using assms(3) by (metis not_None_eq)
qed

lemma Update_byEffective: "fmlookup (byEffective (Update ts ls ps e)) a = find (\<lambda>b. Effective b = a) (rev (bindings ps ls ts))"
  by (simp add: Update_def Let_def New_lookup)

lemma bound_target:
  assumes "t \<in> set ts" "fmlookup ls (target_Key t) = Some ip" "IsValid ip" "ProfileID t \<in> DP_ID ` set ps"
    and "\<And>k k'. fmlookup ls k = Some ip \<Longrightarrow> fmlookup ls k' = Some ip \<Longrightarrow> k = k'"
  shows "\<exists>b. find (\<lambda>b. Effective b = ip) (rev (bindings ps ls ts)) = Some b \<and> Effective b = ip \<and> target_Key (B_Target b) = target_Key t"
proof -
  have "find (\<lambda>p. DP_ID p = ProfileID t) (rev ps) \<noteq> None" using assms(4) by (auto simp: find_None_iff)
  then obtain b where "bind ps ls t = Some b" "Effective b = ip" using assms(2,3) by (auto simp: bind_def mapget_def Let_def)
  then have "b \<in> set (rev (bindings ps ls ts))" "Effective b = ip" using assms(1) by (auto simp: bindings_mem)
  then obtain b' where b': "find (\<lambda>b. Effective b = ip) (rev (bindings ps ls ts)) = Some b'"
    by (metis (mono_tags, lifting) find_None_iff not_None_eq)
  then have "b' \<in> set (bindings ps ls ts)" "Effective b' = ip" by (auto dest: find_Some_mem)
  then have "fmlookup ls (target_Key (B_Target b')) = Some ip" by (auto simp: bindings_mem dest: bind_Some)
  then show ?thesis using b' \<open>Effective b' = ip\<close> assms(2,5) by blast
qed

text \<open>
  C5: after a change the parts agree. When the main loop handles a change and the leases are computed, then
  for every target of a running profile: it has a lease; the packet engine sends packets to that address
  to (a target with) the same key; the DNS responder answers with that address; and, if the kernel took
  all routes, the address and the target's canonical address are both routed to the host device.
\<close>

theorem change_keeps_parts_consistent:
  assumes "daemon_reachable ans bus d" "env_ok env" "main_loop ans bus env Change d = Some (Running d')"
    and "daemon_leases env (snd (take_change (dm_sup d))) = (Inr ls, s)" "ts = Targets (Sup_Inventory (e_sort env) (dm_sup d))"
    and "t \<in> set ts" "ProfileID t \<in> DP_ID ` set (DatapathProfiles (dm_sup d))"
  shows "\<exists>ip. fmlookup ls (target_Key t) = Some ip
    \<and> (\<forall>n. dm_net d = Some n \<longrightarrow> (\<exists>n' b. dm_net d' = Some n' \<and> lookup_binding (eng n') ip = Some b \<and> target_Key (B_Target b) = target_Key t))
    \<and> (\<forall>sv. dm_dns d = Some sv \<longrightarrow> (\<exists>sv'. dm_dns d' = Some sv' \<and> targets sv' = ts \<and> effective_of (effective sv') t = ip))
    \<and> (\<forall>h. dm_host d = Some h \<longrightarrow> fst (ReconcileTargets ans (route_targets env ts ls) h (dm_log d)) = None
         \<longrightarrow> (\<exists>h'. dm_host d' = Some h' \<and> {host_route h ip, host_route h (CanonicalIP t)} \<subseteq> set (hd_routes h')))"
proof -
  let ?s = "snd (take_change (dm_sup d))" and ?ps = "DatapathProfiles (dm_sup d)"
  have inv: "daemon_inv ans d" using assms(1) by (rule daemon_reachable_inv)
  have chg: "Sup_Inventory srt ?s = Sup_Inventory srt (dm_sup d)" "DatapathProfiles ?s = ?ps" for srt
    by (simp_all add: take_change_def Sup_Inventory_def inv_profiles_def DatapathProfiles_def)
  have sr: "sup_reachable ?s" using inv by (auto simp: daemon_inv_def intro: sup_reachable.change)
  note l = assms(4) [unfolded daemon_leases_def]
  have it: "iter_ok (e_iter env)" "iter_ok (e_lease_iter env)" "slice_sorter (e_sort env)" using assms(2) by (auto simp: env_ok_def)
  have s: "DatapathProfiles s = ?ps"
  proof -
    have "DatapathProfiles (x\<lparr>s_store := y\<rparr>) = DatapathProfiles x" for x y by (simp add: DatapathProfiles_def)
    then show ?thesis using EffectiveLeases_frame [OF l] chg(2) by metis
  qed
  let ?d = "reconcile_datapath ans env ts ls (d\<lparr>dm_sup := s\<rparr>)"
  have "reconcile_resolved bus env ?d = Some d'"
    using assms(3,4,5) by (auto simp: main_loop_def case_prod_beta reconcile_def Let_def chg split: if_splits option.splits)
  note fr = reconcile_resolved_frame [OF this]
  have "target_Key t \<in> set (inv_keys (e_sort env) ?s)" using assms(5,6) chg(1) by simp
  then obtain ip where ip: "fmlookup ls (target_Key t) = Some ip" using EffectiveLeases_leased [OF it(1) l] by blast
  have in4: "inputs4 ts ls ?ps" using datapath_inputs(1) [OF sr assms(2,4)] s assms(5) chg(1) by simp
  then have ip4: "Is4 ip" "Is4 (CanonicalIP t)" using ip assms(6) by (auto simp: inputs4_def)
  have valid: "IsValid ip" using ip4(1) by (auto simp: IsValid_def)
  obtain b where b: "find (\<lambda>b. Effective b = ip) (rev (bindings ?ps ls ts)) = Some b" "target_Key (B_Target b) = target_Key t"
    using bound_target [OF assms(6) ip valid assms(7)] EffectiveLeases_inj [OF it(1) l] by blast
  have net: "\<exists>n' b. dm_net d' = Some n' \<and> lookup_binding (eng n') ip = Some b \<and> target_Key (B_Target b) = target_Key t" if "dm_net d = Some n" for n
    using that fr b by (auto simp: reconcile_datapath_def Let_def s lookup_binding_def Update_byEffective split: option.split prod.split)
  have dns: "\<exists>sv'. dm_dns d' = Some sv' \<and> targets sv' = ts \<and> effective_of (effective sv') t = ip" if "dm_dns d = Some sv" for sv
    using that fr ip by (auto simp: reconcile_datapath_def Let_def Dns_Update_def effective_of_def mapget_def split: option.split prod.split)
  have host: "\<exists>h'. dm_host d' = Some h' \<and> {host_route h ip, host_route h (CanonicalIP t)} \<subseteq> set (hd_routes h')"
    if h: "dm_host d = Some h" and ok: "fst (ReconcileTargets ans (route_targets env ts ls) h (dm_log d)) = None" for h
  proof -
    obtain h' log' where r: "ReconcileTargets ans (route_targets env ts ls) h (dm_log d) = (None, h', log')" using ok by (metis prod.collapse)
    from add_targets_run [OF r [unfolded ReconcileTargets_def AddTargets_def]]
    have rt: "hd_routes h' = map (host_route h) (targets4 {||} (route_targets env ts ls))" by auto
    have "map_of (e_lease_iter env ls) (target_Key t) = Some ip" using it(2) ip by (simp add: iter_ok_def)
    then have "ip \<in> snd ` set (e_lease_iter env ls)" by (metis image_eqI map_of_SomeD snd_conv)
    then have "{ip, CanonicalIP t} \<subseteq> set (targets4 {||} (route_targets env ts ls))"
      using assms(6) ip4 by (auto simp: targets4_set route_targets_def)
    moreover have "dm_host d' = Some h'" using fr h r by (simp add: reconcile_datapath_def Let_def)
    ultimately show ?thesis using rt by auto
  qed
  show ?thesis using ip net dns host by blast
qed

section \<open>Reverse zones\<close>

lemma Contains4_octets:
  assumes "Contains (Prefix (V4 n) b) (V4 m)" "b \<le> 32" "i < b div 8"
  shows "quad_bytes (IPv4BytesFromNum (n AND NOT (mask (32 - b)))) ! i = quad_bytes (IPv4BytesFromNum m) ! i"
proof -
  have d: "drop_bit (32 - b) m = drop_bit (32 - b) n"
    using assms(1) unfolding Contains4_iff by (simp add: word_unat_eq_iff unat_drop_bit_eq drop_bit_nat_def)
  have bits: "bit m k = bit n k" if "32 - b \<le> k" for k
    using arg_cong [OF d, of "\<lambda>w. bit w (k - (32 - b))"] that by (simp add: bit_simps)
  have "i < 4" using assms(2,3) by simp
  have "quad_bytes (IPv4BytesFromNum w) ! i = ucast (drop_bit (24 - 8 * i) w)" for w
    using \<open>i < 4\<close> by (auto simp: IPv4BytesFromNum_def less_Suc_eq numeral_eq_Suc)
  moreover have "ucast (drop_bit (24 - 8 * i) (n AND NOT (mask (32 - b)))) = (ucast (drop_bit (24 - 8 * i) m) :: byte)"
  proof (rule bit_word_eqI)
    fix j assume "j < LENGTH(8)"
    moreover have "32 - b \<le> 24 - 8 * i + j" using assms(3) by simp
    ultimately show "bit (ucast (drop_bit (24 - 8 * i) (n AND NOT (mask (32 - b)))) :: byte) j = bit (ucast (drop_bit (24 - 8 * i) m) :: byte) j"
      using bits [of "24 - 8 * i + j"] by (auto simp: bit_simps)
  qed
  ultimately show ?thesis by simp
qed

text \<open>
  Reverse lookups of effective addresses reach the DNS responder: for a pool of at least 8 prefix bits,
  the reverse name of every address of the pool lies, at a label boundary, in one of the zones that are
  routed to it.
\<close>

lemma reverse_zone_covers_pool:
  assumes "valid_config c" "Contains (pool_of c) (V4 m)" "8 \<le> PBits (pool_of c)"
  shows "\<exists>zone \<in> set (reverseDomains c). \<exists>l. in_addr_arpa (addr_String (V4 m)) = l @ zone @ ''.'' \<and> (l = [] \<or> last l = CHR ''.'')"
proof -
  obtain n b where p: "ParsePrefix (EffectiveIPv4CIDR c) = Some (Prefix (V4 n) b)" "pool_of c = Prefix (V4 n) b" "b \<le> 30"
    using valid_pool_of(2) [OF assms(1)] by blast
  define k where "k = b div 8"
  have k: "k = 1 \<or> k = 2 \<or> k = 3" using assms(3) p by (auto simp: k_def)
  obtain q1 q2 q3 q4 where q: "IPv4BytesFromNum m = (q1, q2, q3, q4)" by (cases "IPv4BytesFromNum m")
  let ?base = "IPv4BytesFromNum (n AND NOT (mask (32 - b)))"
  have oct: "quad_bytes ?base ! i = quad_bytes (q1, q2, q3, q4) ! i" if "i < k" for i
    using Contains4_octets [of n b m i] assms(2) p that by (simp add: k_def q)
  let ?zone = "Join (CHR ''.'') (map (\<lambda>i. dec (unat (quad_bytes ?base ! (k - 1 - i)))) [0..<k]) @ ''.in-addr.arpa''"
  have z: "?zone \<in> set (reverseDomains c)" using p k by (auto simp: reverseDomains_def Let_def k_def)
  have arpa: "in_addr_arpa (addr_String (V4 m)) = dec (unat q4) @ ''.'' @ dec (unat q3) @ ''.'' @ dec (unat q2) @ ''.'' @ dec (unat q1) @ ''.in-addr.arpa.''"
    using q by (simp add: in_addr_arpa_def Split_string4)
  have "\<exists>l. in_addr_arpa (addr_String (V4 m)) = l @ ?zone @ ''.'' \<and> (l = [] \<or> last l = CHR ''.'')"
    using k
  proof (elim disjE)
    assume "k = 1"
    then show ?thesis unfolding arpa using oct by (intro exI [of _ "dec (unat q4) @ ''.'' @ dec (unat q3) @ ''.'' @ dec (unat q2) @ ''.''"]) simp
  next
    assume "k = 2"
    then show ?thesis unfolding arpa using oct [of 0] oct [of 1]
      by (intro exI [of _ "dec (unat q4) @ ''.'' @ dec (unat q3) @ ''.''"]) (simp add: numeral_eq_Suc)
  next
    assume "k = 3"
    then show ?thesis unfolding arpa using oct [of 0] oct [of 1] oct [of 2]
      by (intro exI [of _ "dec (unat q4) @ ''.''"]) (simp add: numeral_eq_Suc)
  qed
  with z show ?thesis by blast
qed

section \<open>Examples\<close>

definition ex_argv :: "string list" where
  "ex_argv = [''tailscale-multitaild'', ''run'', ''--config'', ''/c'', ''--host-tun'', ''--dns-listen=127.0.0.1:53'']"

definition ex_flags :: Flags where
  "ex_flags = \<lparr>config_path = ''/c'', state_root = DefaultStateRoot, validate_config = False, once = False, dnsListen = ''127.0.0.1:53'',
     hostTUN = True, socketPath = [], useResolved = False\<rparr>"

lemma ex_argv_flags: "\<exists>v. flag_Parse run_formal (drop 2 ex_argv) [] = FlagsParsed v [] \<and> run_flags v = ex_flags"
  "length ex_argv = 6" "ex_argv ! 1 = ''run''"
proof -
  have "(case flag_Parse run_formal (drop 2 ex_argv) [] of FlagsParsed v rest \<Rightarrow> rest = [] \<and> run_flags v = ex_flags | _ \<Rightarrow> False)" by code_simp
  then show "\<exists>v. flag_Parse run_formal (drop 2 ex_argv) [] = FlagsParsed v [] \<and> run_flags v = ex_flags" by (auto split: flag_result.splits)
qed (simp_all add: ex_argv_def)

definition ex_denv :: denv where
  "ex_denv = \<lparr>e_decode = (\<lambda>_. Some ex_cfg), e_encode = (\<lambda>_. Some [1]), e_files = fmupd ''/c'' [] fmempty,
     e_dir = fmupd db_name (Database ex_db) fmempty, e_store_faults = (\<lambda>_ _. False), e_now = [], e_root_ok = True, e_root_mode_ok = True,
     e_start = (\<lambda>_. ex_env), e_sort = insertionSort, e_iter = sorted_iter, e_lease_iter = sorted_iter, e_leases_ok = True, e_put_ok = (\<lambda>_. True),
     e_host = ex_host_env, e_udp_ok = True, e_tcp_ok = True, e_bus_ok = True, e_query = (\<lambda>_ _ _. None), e_group = None,
     e_listen_faults = (\<lambda>_. False), e_login = \<lparr>le_client = False, le_prefs = None, le_start = False, le_watch = False, le_interactive = False,
       le_polls = [], le_refresh = \<lparr>lc_ok = False, lc_status = None, lc_services = None\<rparr>, le_urls = []\<rparr>,
     e_client_ok = True, e_logout_ok = True, e_write_faults = (\<lambda>_. False), e_tmp = ''/t'', e_part = 0, e_text = (\<lambda>_. ''error'')\<rparr>"

definition bus_ok :: bus where "bus_ok log c = True"

lemma ex_env_ok: "env_ok ex_denv"
  by (simp add: env_ok_def ex_denv_def go_sort.slice_sorter_axioms sorted_iter_ok)

lemma ex_start: "Sup_Start True True (\<lambda>_. ex_env) ex_sup = (None, ex_run)" "s_changes ex_run" "ValidateDNSSuffixes ex_run = None"
proof -
  have "fst (Sup_Start True True (\<lambda>_. ex_env) ex_sup) = None \<and> s_changes (snd (Sup_Start True True (\<lambda>_. ex_env) ex_sup))"
    by (simp add: Sup_Start_def ex_sup_def startProfile_def ex_env_def Let_def refresh_def notify_def ex_cfg_def ex_status_def)
  then show "Sup_Start True True (\<lambda>_. ex_env) ex_sup = (None, ex_run)" "s_changes ex_run" by (simp_all add: ex_run_def prod_eq_iff)
  show "ValidateDNSSuffixes ex_run = None"
    by (simp add: ValidateDNSSuffixes_def ex_run_eq split: option.split)
qed

lemma all_ok_AddTargets: "fst (AddTargets all_ok ips d log) = None"
proof -
  have "fst (add_targets all_ok sn ips d log) = None" for sn
    by (induction ips arbitrary: sn d log) (simp_all add: netcall_def all_ok_def)
  then show ?thesis by (simp add: AddTargets_def)
qed

lemma ex_host_created: "\<exists>h log. Create all_ok ex_host_env (Interface ex_cfg) (Cfg_MTU ex_cfg) (RoutingTable ex_cfg) (pool_of ex_cfg) [] = (Inr h, log)"
proof -
  have p: "pool_of ex_cfg = ex_pool" by code_simp
  have "CheckPoolOverlap ex_host_env (Interface ex_cfg) (RoutingTable ex_cfg) ex_pool = None" by code_simp
  then show ?thesis
    unfolding p Create_def ex_checks by (simp add: ex_host_env_def netcall_def all_ok_def Host_setup_def ex_pool_def Let_def)
qed

definition ex_daemon0 :: Daemon where
  "ex_daemon0 = \<lparr>dm_cfg = ex_cfg, dm_flags = ex_flags, dm_sup = ex_run, dm_host = None, dm_log = [], dm_net = None, dm_dns = None, dm_res = None,
     dm_bus = [], dm_files = fmupd ''/c'' [] fmempty, dm_sock = None, dm_shutdown = False\<rparr>"

lemma ex_leases: "daemon_leases ex_denv ex_run = (Inr (fmupd ''p1/node/n1/100.64.0.9'' (V4 180355077) fmempty), ex_run)"
  using ex_run_leases by (simp add: daemon_leases_def ex_denv_def)

lemma ex_start_host:
  "\<exists>h log n. start_host all_ok ex_denv ts ls ex_daemon0 = Inr (ex_daemon0\<lparr>dm_host := Some h, dm_log := log, dm_net := Some n\<rparr>)"
proof -
  obtain h log where c: "Create all_ok ex_host_env (Interface ex_cfg) (Cfg_MTU ex_cfg) (RoutingTable ex_cfg) (pool_of ex_cfg) [] = (Inr h, log)"
    using ex_host_created by blast
  obtain h' log' where a: "AddTargets all_ok (route_targets ex_denv ts ls) h log = (None, h', log')"
    using all_ok_AddTargets [of "route_targets ex_denv ts ls" h log] by (metis prod.collapse)
  have "e_host ex_denv = ex_host_env" "hostTUN ex_flags" by (simp_all add: ex_denv_def ex_flags_def)
  then show ?thesis using c a by (auto simp: start_host_def ex_daemon0_def Let_def)
qed

lemma ex_daemon: "\<exists>d h log n sv. daemon_run all_ok bus_ok ex_denv ex_argv = Running d
    \<and> d = ex_daemon0\<lparr>dm_host := Some h, dm_log := log, dm_net := Some n, dm_dns := Some sv\<rparr>"
proof -
  let ?ts = "Targets (Sup_Inventory (e_sort ex_denv) ex_run)" and ?ls = "fmupd ''p1/node/n1/100.64.0.9'' (V4 180355077) fmempty"
  obtain h log n where sh: "start_host all_ok ex_denv ?ts ?ls ex_daemon0 = Inr (ex_daemon0\<lparr>dm_host := Some h, dm_log := log, dm_net := Some n\<rparr>)"
    using ex_start_host by blast
  have ld: "Load (e_decode ex_denv) (e_files ex_denv) (config_path ex_flags) = Inr ex_cfg"
    by (simp add: Load_def Parse_def ex_denv_def ex_flags_def ex_cfg_valid)
  have f: "\<not> validate_config ex_flags" "state_root ex_flags = DefaultStateRoot" "HasPrefix (config_path ex_flags) ''/''"
    "\<not> useResolved ex_flags" "\<not> once ex_flags" "socketPath ex_flags = []" "dnsListen ex_flags \<noteq> []"
    by (simp_all add: ex_flags_def HasPrefix_def)
  have e: "e_store_faults ex_denv i = (\<lambda>_. False)" "e_now ex_denv = []" "e_dir ex_denv = fmupd db_name (Database ex_db) fmempty"
    "e_root_ok ex_denv" "e_root_mode_ok ex_denv" "e_start ex_denv = (\<lambda>_. ex_env)" "e_files ex_denv = fmupd ''/c'' [] fmempty"
    "e_udp_ok ex_denv" "e_tcp_ok ex_denv" for i
    by (simp_all add: ex_denv_def)
  have "start_services all_ok bus_ok ex_denv ex_daemon0 = start_rest all_ok bus_ok ex_denv ?ts ?ls (ex_daemon0\<lparr>dm_host := Some h, dm_log := log, dm_net := Some n\<rparr>)"
  proof -
    have s: "dm_sup ex_daemon0 = ex_run" "ex_daemon0\<lparr>dm_sup := ex_run\<rparr> = ex_daemon0" by (simp_all add: ex_daemon0_def)
    show ?thesis unfolding start_services_def s(1) ex_leases Let_def prod.case sum.case s(2) sh using ex_start(3) by simp
  qed
  also have "\<exists>sv. \<dots> = Running (ex_daemon0\<lparr>dm_host := Some h, dm_log := log, dm_net := Some n, dm_dns := Some sv\<rparr>)"
  proof -
    have fl: "dm_flags ex_daemon0 = ex_flags" by (simp add: ex_daemon0_def)
    show ?thesis by (auto simp: start_rest_def listen_default_def start_dns_def Start_def start_socket_def fl f e)
  qed
  finally obtain sv where "start_services all_ok bus_ok ex_denv ex_daemon0 = Running (ex_daemon0\<lparr>dm_host := Some h, dm_log := log, dm_net := Some n, dm_dns := Some sv\<rparr>)"
    by blast
  moreover have "daemon_run all_ok bus_ok ex_denv ex_argv = start_services all_ok bus_ok ex_denv ex_daemon0"
    using ex_argv_flags by (auto simp: daemon_run_def ld f e(1-6) ex_sup_New ex_start(1)) (simp add: ex_daemon0_def e(7) fresh_daemon_def)
  ultimately show ?thesis by auto
qed

lemma ex_daemon_reachable:
  obtains d h log n sv where "daemon_reachable all_ok bus_ok d" "d = ex_daemon0\<lparr>dm_host := Some h, dm_log := log, dm_net := Some n, dm_dns := Some sv\<rparr>"
  using ex_daemon daemon_reachable.started [OF ex_env_ok, of all_ok bus_ok] by metis

theorem daemon_composes_witness:
  "\<exists>d n. daemon_reachable all_ok bus_ok d \<and> dm_net d = Some n \<and> maplen (flows (eng n)) \<le> 65536"
proof -
  obtain d h log n sv where d: "daemon_reachable all_ok bus_ok d" "d = ex_daemon0\<lparr>dm_host := Some h, dm_log := log, dm_net := Some n, dm_dns := Some sv\<rparr>"
    by (rule ex_daemon_reachable)
  then have "dm_net d = Some n" by simp
  with daemon_composes [OF d(1)] d(1) show ?thesis by blast
qed

theorem daemon_exit_clean_witness:
  "\<exists>d d'. daemon_reachable all_ok bus_ok d \<and> dm_host d \<noteq> None \<and> main_loop all_ok bus_ok ex_denv SignalDone d = Some (Exit 0 (Some d'))
     \<and> outstanding (dm_log d') = []"
proof -
  obtain d h log n sv where d: "daemon_reachable all_ok bus_ok d" "d = ex_daemon0\<lparr>dm_host := Some h, dm_log := log, dm_net := Some n, dm_dns := Some sv\<rparr>"
    by (rule ex_daemon_reachable)
  have m: "main_loop all_ok bus_ok ex_denv SignalDone d = Some (Exit 0 (Some (shut_down all_ok bus_ok d)))" by (simp add: main_loop_def)
  have "outstanding (dm_log (shut_down all_ok bus_ok d)) = []"
    using daemon_exit_clean [OF ex_env_ok disjI2 [OF conjI [OF d(1) m]]] by simp
  moreover have "dm_host d \<noteq> None" using d(2) by simp
  ultimately show ?thesis using d(1) m by blast
qed

theorem config_write_needs_root_witness:
  "\<exists>d'. handle (\<lambda>_. Some \<lparr>Op = ''config_write'', Req_Profile = [], AuthKey = [], ConfigYAML = ''x''\<rparr>) (daemon_handler ex_denv) 5 root_conn ex_daemon0
      = (Some (succeeded None), d') \<and> fmlookup (dm_files d') ''/c'' = Some [1]"
proof -
  let ?req = "\<lparr>Op = ''config_write'', Req_Profile = [], AuthKey = [], ConfigYAML = ''x''\<rparr>"
  let ?fss = "WriteAtomic (\<lambda>_. Some [1]) (\<lambda>_. False) ''/t'' 0 ''/c'' ex_cfg (fmupd ''/c'' [] fmempty)"
  let ?d = "ex_daemon0\<lparr>dm_files := last (snd ?fss)\<rparr>"
  have w: "?fss = (None, snd ?fss)" "fmlookup (last (snd ?fss)) ''/c'' = Some [1]"
    using ex_cfg_valid by (simp_all add: WriteAtomic_def Let_def Marshal_def)
  have h: "handle (\<lambda>_. Some ?req) (daemon_handler ex_denv) 5 root_conn ex_daemon0 = (Some (succeeded None), ?d)"
  proof -
    have "daemon_handler ex_denv caller ?req ex_daemon0 = (succeeded None, ?d)" if "Root caller" for caller
      using that w(1) ex_cfg_valid
      by (simp add: daemon_handler_def Parse_def ex_denv_def ex_daemon0_def ex_flags_def del: of_char_eq_iff) (auto split: prod.split)
    then show ?thesis by (simp add: handle_def authorized_def root_conn_def validRequest_def)
  qed
  have p: "config_path (dm_flags ex_daemon0) = ''/c''" "dm_files ex_daemon0 = fmupd ''/c'' [] fmempty" "e_tmp ex_denv = ''/t''" "e_encode ex_denv nc = Some [1]" for nc
    by (simp_all add: ex_daemon0_def ex_flags_def ex_denv_def)
  have "fmlookup (dm_files ?d) (config_path (dm_flags ex_daemon0)) \<noteq> fmlookup (dm_files ex_daemon0) (config_path (dm_flags ex_daemon0))"
    using w(2) by (simp add: p)
  from config_write_needs_root [OF h this] have "fmlookup (dm_files ?d) ''/c'' = Some [1]" by (auto simp: p)
  with h show ?thesis by blast
qed

theorem change_keeps_parts_consistent_witness:
  "\<exists>d d' n' b. daemon_reachable all_ok bus_ok d \<and> main_loop all_ok bus_ok ex_denv Change d = Some (Running d') \<and> dm_net d' = Some n'
     \<and> lookup_binding (eng n') (V4 180355077) = Some b"
proof -
  obtain d h log n sv where d: "daemon_reachable all_ok bus_ok d" "d = ex_daemon0\<lparr>dm_host := Some h, dm_log := log, dm_net := Some n, dm_dns := Some sv\<rparr>"
    by (rule ex_daemon_reachable)
  have dd: "dm_sup d = ex_run" "dm_flags d = ex_flags" "dm_net d = Some n" by (simp_all add: d(2) ex_daemon0_def)
  let ?s = "snd (take_change ex_run)" and ?ls = "fmupd ''p1/node/n1/100.64.0.9'' (V4 180355077) fmempty"
  have "Sup_Inventory srt (x\<lparr>s_changes := y\<rparr>) = Sup_Inventory srt x" for srt x y by (simp add: Sup_Inventory_def inv_profiles_def)
  then have "fst (daemon_leases ex_denv (ex_run\<lparr>s_changes := False\<rparr>)) = fst (daemon_leases ex_denv ex_run)"
    by (simp add: daemon_leases_def EffectiveLeases_def split: sum.split prod.split)
  then obtain s2 where l: "daemon_leases ex_denv ?s = (Inr ?ls, s2)"
    unfolding ex_leases take_change_def by (metis fst_conv prod.collapse snd_conv)
  have v: "ValidateDNSSuffixes ?s = None" using ex_start(3) by (simp add: take_change_def ValidateDNSSuffixes_def)
  have nr: "\<not> useResolved ex_flags" by (simp add: ex_flags_def)
  obtain d' where m: "main_loop all_ok bus_ok ex_denv Change d = Some (Running d')"
  proof -
    have "reconcile_resolved bus_ok ex_denv x = Some x" if "dm_flags x = ex_flags" for x using that nr by (simp add: reconcile_resolved_def)
    moreover have "dm_flags (reconcile_datapath all_ok ex_denv ts ls x) = dm_flags x" for ts ls x
      by (simp add: reconcile_datapath_def Let_def split: option.split prod.split)
    ultimately show thesis using that l v ex_start(2) dd
      by (simp add: main_loop_def case_prod_beta reconcile_def Let_def take_change_def)
  qed
  obtain t where t: "t \<in> set (Targets (Sup_Inventory (e_sort ex_denv) (dm_sup d)))" "target_Key t = ''p1/node/n1/100.64.0.9''"
    using ex_run_inventory dd(1) by (auto simp: ex_denv_def)
  have "ProfileID t \<in> DP_ID ` set (DatapathProfiles (dm_sup d))"
  proof -
    obtain p where p: "p \<in> set (s_profiles ex_run)" "ProfileID t = Prof_ID (p_cfg p)"
      using inv_targets_mem [OF go_sort.slice_sorter_axioms, of t ex_run] t(1) dd(1) by (auto simp: ex_denv_def)
    have "State (p_status p) = ''Running''" "find Is4 (IPs (p_status p)) = Some (V4 1681915905)"
      using p(1) by (auto simp: ex_run_eq setStatusAndTargets_def ex_status_def Let_def)
    then have "\<lparr>DP_ID = Prof_ID (p_cfg p), SelfIPv4 = V4 1681915905, DP_Tun = p_tun p\<rparr> \<in> set (DatapathProfiles (dm_sup d))"
      unfolding DatapathProfiles_mem dd(1) using p(1) by blast
    then show ?thesis using p(2) by force
  qed
  from change_keeps_parts_consistent [OF d(1) ex_env_ok m l [folded dd(1)] refl t(1) this] t(2) dd(3)
  show ?thesis using d(1) m by auto
qed

end
