(* ===== verification/Sync.thy ===== *)
theory Sync
  imports Daemon
begin

text \<open>
  No change is lost: how the change channel of the supervisor keeps the forwarding tables of the packet engine
  and of the DNS responder in step with the profiles, with all goroutines interleaved.

  Here a login, a logout and a reaction of the main loop are not single steps. The step relation \<open>background\<close> has
  one step for each write of a profile, each notification, each turn of the loop of \<open>StartConfiguredProfiles\<close>
  and each appending to the list of profiles, for any number of logins at once; \<open>loop_step\<close> reads the
  supervisor anew each time the main loop does.

  A change does get lost in three situations, which \<open>lossless\<close> runs exclude one by one: the leases cannot be
  computed (the main loop drops the change); \<open>StartConfiguredProfiles\<close> fails after it has listed a profile (it
  returns without its final notification); and a profile comes back between the two writes of its logout.

  The locale \<open>notifying\<close> is the contract between those who change the supervisor and the main loop, which reads it.
\<close>

section \<open>The contract of the change channel\<close>

locale notifying =
  fixes view :: "'s \<Rightarrow> 'v"
    and owes :: "'s \<Rightarrow> bool"
    and step :: "'s \<Rightarrow> 's \<Rightarrow> bool"
  assumes announces: "step s t \<Longrightarrow> owes t \<or> \<not> owes s \<and> view t = view s"
begin

lemma steps_announce: "step\<^sup>*\<^sup>* s t \<Longrightarrow> owes t \<or> \<not> owes s \<and> view t = view s"
proof (induction rule: rtranclp_induct)
  case (step t u)
  then show ?case using announces [OF step(2)] by auto
qed simp

lemma never_forgotten: "step\<^sup>*\<^sup>* s t \<Longrightarrow> owes s \<Longrightarrow> owes t"
  using steps_announce by blast

lemma still_current: "step\<^sup>*\<^sup>* s t \<Longrightarrow> \<not> owes t \<Longrightarrow> view t = view s"
  using steps_announce by blast

end

section \<open>Tables in step with the profiles\<close>

definition sup_view :: "Supervisor \<Rightarrow> DatapathProfile list \<times> InvProfile list" where
  "sup_view s = (DatapathProfiles s, inv_profiles s)"

definition forwarding :: "Engine \<Rightarrow> addr \<times> (addr, Binding) fmap \<times> (string, Binding) fmap \<times> (addr, Binding) fmap \<times> (string, addr) fmap" where
  "forwarding e = (nat_addr e, byEffective e, byInbound e, raw e, selfByProfile e)"

definition tables :: "Daemon \<Rightarrow> _" where
  "tables d = (map_option (\<lambda>n. forwarding (eng n)) (dm_net d), map_option (\<lambda>sv. (targets sv, effective sv)) (dm_dns d))"

definition current :: "Target list \<Rightarrow> Supervisor \<Rightarrow> bool" where
  "current ts s \<longleftrightarrow> (\<exists>srt. slice_sorter srt \<and> ts = Targets (Sup_Inventory srt s))"

text \<open>
  In step: the engine forwards and the responder answers exactly by the targets and the running profiles that the
  supervisor has now, with one lease table for both, which has a lease for exactly these targets.
\<close>

definition in_sync :: "Daemon \<Rightarrow> bool" where
  "in_sync d \<longleftrightarrow> (\<exists>ts ls. current ts (dm_sup d) \<and> fset (fmdom ls) = target_Key ` set ts
     \<and> (\<forall>n. dm_net d = Some n \<longrightarrow> forwarding (eng n) = forwarding (Engine_New (nat_addr (eng n)) ts ls (DatapathProfiles (dm_sup d))))
     \<and> (\<forall>sv. dm_dns d = Some sv \<longrightarrow> targets sv = ts \<and> effective sv = ls))"

section \<open>The goroutines\<close>

text \<open>
  A login in the loop of \<open>StartConfiguredProfiles\<close>: at its head (and whether it has listed a profile), or with a
  profile that is started and not yet listed. The main loop: waiting, or between two of its reads.
\<close>

datatype login_pc = Looping bool "string fset" "Profile list" | Unlisted bool "string fset" "Profile list" sprofile

datatype loop_pc = Waiting | Taken | Checked | HasTargets "Target list" | HasLeases "Target list" "(string, addr) fmap"

text \<open>
  The daemon; how many writes have not been announced yet; the logins under way; the logouts between
  their two writes; and the main loop.
\<close>

record Conc =
  c_dm :: Daemon
  c_owed :: nat
  c_logins :: "login_pc list"
  c_logouts :: "nat list"
  c_loop :: loop_pc

abbreviation c_sup :: "Conc \<Rightarrow> Supervisor" where "c_sup c \<equiv> dm_sup (c_dm c)"

definition on_sup :: "(Supervisor \<Rightarrow> Supervisor) \<Rightarrow> Conc \<Rightarrow> Conc" where
  "on_sup f c = c\<lparr>c_dm := (c_dm c)\<lparr>dm_sup := f (c_sup c)\<rparr>\<rparr>"

text \<open>What \<open>degrade\<close> and \<open>refresh\<close> make of a profile.\<close>

definition profile_write :: "sprofile \<Rightarrow> sprofile \<Rightarrow> bool" where
  "profile_write p p' \<longleftrightarrow> (\<exists>reason. p' = degrade reason p) \<or> (\<exists>inp. refresh inp p = Some p')"

inductive background :: "Conc \<Rightarrow> Conc \<Rightarrow> bool" where
  written: "i < length (s_profiles (c_sup c)) \<Longrightarrow> profile_write (s_profiles (c_sup c) ! i) p' \<Longrightarrow>
    background c ((on_sup (with_profile i (\<lambda>_. p')) c)\<lparr>c_owed := Suc (c_owed c)\<rparr>)"
| announced: "c_owed c = Suc n \<Longrightarrow> background c ((on_sup notify c)\<lparr>c_owed := n\<rparr>)"
| logout_first: "profileByName name (c_sup c) = Some i \<Longrightarrow>
    background c ((on_sup (with_profile i (degrade ''explicitly logged out'')) c)\<lparr>c_owed := Suc (c_owed c), c_logouts := i # c_logouts c\<rparr>)"
| logout_second: "i \<in> set (c_logouts c) \<Longrightarrow> State (p_status (s_profiles (c_sup c) ! i)) \<noteq> ''Running'' \<Longrightarrow>
    background c ((on_sup (with_profile i (\<lambda>p. p\<lparr>p_status := (p_status p)\<lparr>State := ''NeedsLogin''\<rparr>\<rparr>)) c)\<lparr>c_logouts := remove1 i (c_logouts c)\<rparr>)"
| login_begin: "Load (e_decode (env :: denv)) (dm_files (c_dm c)) (config_path (dm_flags (c_dm c))) = Inr nc \<Longrightarrow> Validate nc = None \<Longrightarrow>
    background c (c\<lparr>c_logins := Looping False (fset_of_list (map (\<lambda>p. Prof_ID (p_cfg p)) (s_profiles (c_sup c)))) (Profiles nc) # c_logins c\<rparr>)"
| login_skip: "c_logins c = xs @ Looping b ex (pc # pcs) # ys \<Longrightarrow> Prof_ID pc |\<in>| ex \<Longrightarrow>
    background c (c\<lparr>c_logins := xs @ Looping b ex pcs # ys\<rparr>)"
| login_start: "c_logins c = xs @ Looping b ex (pc # pcs) # ys \<Longrightarrow> Prof_ID pc |\<notin>| ex \<Longrightarrow> startProfile se pc (c_sup c) = (Inr p, s') \<Longrightarrow>
    background c (c\<lparr>c_dm := set_sup s' (c_dm c), c_logins := xs @ Unlisted b ex pcs p # ys\<rparr>)"
| login_failed: "c_logins c = xs @ Looping False ex (pc # pcs) # ys \<Longrightarrow> Prof_ID pc |\<notin>| ex \<Longrightarrow> startProfile se pc (c_sup c) = (Inl e, s') \<Longrightarrow>
    background c (c\<lparr>c_dm := set_sup s' (c_dm c), c_logins := xs @ ys\<rparr>)"
| login_watched: "c_logins c = xs @ Unlisted b ex pcs p # ys \<Longrightarrow> profile_write p p' \<Longrightarrow>
    background c (c\<lparr>c_logins := xs @ Unlisted b ex pcs p' # ys, c_owed := Suc (c_owed c)\<rparr>)"
| login_listed: "c_logins c = xs @ Unlisted b ex pcs p # ys \<Longrightarrow>
    background c ((on_sup (\<lambda>s. s\<lparr>s_profiles := s_profiles s @ [p]\<rparr>) c)\<lparr>c_logins := xs @ Looping True (finsert (Prof_ID (p_cfg p)) ex) pcs # ys\<rparr>)"
| login_done: "c_logins c = xs @ Looping b ex [] # ys \<Longrightarrow> background c ((on_sup notify c)\<lparr>c_logins := xs @ ys\<rparr>)"
| request: "handle decode (daemon_handler env) gid con (c_dm c) = (out, d') \<Longrightarrow>
    (\<And>r. decode (take 1048576 (incoming con)) = Some r \<Longrightarrow> Op r \<noteq> ''login'' \<and> Op r \<noteq> ''logout'') \<Longrightarrow> background c (c\<lparr>c_dm := d'\<rparr>)"
| from_host: "dm_net (c_dm c) = Some n \<Longrightarrow> hostStep clk sel rd n = Continue n' \<Longrightarrow> background c (c\<lparr>c_dm := (c_dm c)\<lparr>dm_net := Some n'\<rparr>\<rparr>)"
| from_profile: "dm_net (c_dm c) = Some n \<Longrightarrow> profileStep clk sel wr t pid n = Continue n' \<Longrightarrow>
    background c (c\<lparr>c_dm := (c_dm c)\<lparr>dm_net := Some n'\<rparr>\<rparr>)"
| node: "dm_net (c_dm c) = Some n \<Longrightarrow> dev_step (tuns n t) dev \<Longrightarrow>
    background c (c\<lparr>c_dm := (c_dm c)\<lparr>dm_net := Some (n\<lparr>tuns := (tuns n)(t := dev)\<rparr>)\<rparr>\<rparr>)"

text \<open>The main loop, one read at a time. The leases are computed from a reading of their own.\<close>

inductive loop_step :: "answers \<Rightarrow> bus \<Rightarrow> Conc \<Rightarrow> Conc \<Rightarrow> bool" for ans bus where
  taken: "c_loop c = Waiting \<Longrightarrow> take_change (c_sup c) = (True, s) \<Longrightarrow> loop_step ans bus c ((on_sup (\<lambda>_. s) c)\<lparr>c_loop := Taken\<rparr>)"
| checked: "c_loop c = Taken \<Longrightarrow> ValidateDNSSuffixes (c_sup c) = None \<Longrightarrow> loop_step ans bus c (c\<lparr>c_loop := Checked\<rparr>)"
| has_targets: "c_loop c = Checked \<Longrightarrow> env_ok env \<Longrightarrow>
    loop_step ans bus c (c\<lparr>c_loop := HasTargets (Targets (Sup_Inventory (e_sort env) (c_sup c)))\<rparr>)"
| has_leases: "c_loop c = HasTargets ts \<Longrightarrow> env_ok env \<Longrightarrow> daemon_leases env (c_sup c) = (Inr ls, s) \<Longrightarrow>
    loop_step ans bus c ((on_sup (\<lambda>_. s) c)\<lparr>c_loop := HasLeases ts ls\<rparr>)"
| updated: "c_loop c = HasLeases ts ls \<Longrightarrow> env_ok env \<Longrightarrow> reconcile_resolved bus env (reconcile_datapath ans env ts ls (c_dm c)) = Some d' \<Longrightarrow>
    loop_step ans bus c (c\<lparr>c_dm := d', c_loop := Waiting\<rparr>)"

inductive lossless :: "answers \<Rightarrow> bus \<Rightarrow> Conc \<Rightarrow> bool" for ans bus where
  started: "env_ok env \<Longrightarrow> daemon_run ans bus env argv = Running d \<Longrightarrow>
    lossless ans bus \<lparr>c_dm = d, c_owed = 0, c_logins = [], c_logouts = [], c_loop = Waiting\<rparr>"
| others: "lossless ans bus c \<Longrightarrow> background c c' \<Longrightarrow> lossless ans bus c'"
| main: "lossless ans bus c \<Longrightarrow> loop_step ans bus c c' \<Longrightarrow> lossless ans bus c'"

text \<open>
  A notification is owed: it is in the channel, or a goroutine has written and not announced yet, or a login
  has listed a profile and will announce at its end.
\<close>

fun dirty :: "login_pc \<Rightarrow> bool" where
  "dirty (Looping b _ _) = b"
| "dirty (Unlisted b _ _ _) = b"

definition owing :: "Conc \<Rightarrow> bool" where
  "owing c \<longleftrightarrow> s_changes (c_sup c) \<or> 0 < c_owed c \<or> list_ex dirty (c_logins c)"

lemma on_sup_simps [simp]:
  "c_dm (on_sup f c) = (c_dm c)\<lparr>dm_sup := f (c_sup c)\<rparr>" "c_owed (on_sup f c) = c_owed c" "c_logins (on_sup f c) = c_logins c"
  "c_logouts (on_sup f c) = c_logouts c" "c_loop (on_sup f c) = c_loop c"
  by (simp_all add: on_sup_def)

lemma sup_frames [simp]:
  "s_changes (with_profile i f s) = s_changes s" "s_changes (notify s)" "sup_view (notify s) = sup_view s"
  "s_changes (s\<lparr>s_profiles := ps\<rparr>) = s_changes s" "sup_view (s\<lparr>s_changes := b\<rparr>) = sup_view s"
  by (simp_all add: with_profile_def notify_def sup_view_def DatapathProfiles_def inv_profiles_def)

lemma set_sup_frames [simp]: "tables (set_sup s d) = tables d" "dm_sup (set_sup s d) = s" "dm_flags (set_sup s d) = dm_flags d"
  by (simp_all add: set_sup_def tables_def option.map_comp comp_def)

lemma tables_frames [simp]:
  "tables (d\<lparr>dm_sup := s\<rparr>) = tables d" "tables (d\<lparr>dm_files := fs\<rparr>) = tables d" "tables (d\<lparr>dm_shutdown := b\<rparr>) = tables d"
  by (simp_all add: tables_def)

section \<open>Everyone announces\<close>

lemma leases_view: "daemon_leases env s = (r, s') \<Longrightarrow> sup_view s' = sup_view s \<and> s_changes s' = s_changes s"
proof -
  assume "daemon_leases env s = (r, s')"
  then have e: "s' = s\<lparr>s_store := s_store s'\<rparr>" unfolding daemon_leases_def by (rule EffectiveLeases_frame)
  have "sup_view (s\<lparr>s_store := x\<rparr>) = sup_view s \<and> s_changes (s\<lparr>s_store := x\<rparr>) = s_changes s" for x
    by (simp add: sup_view_def DatapathProfiles_def inv_profiles_def)
  then show ?thesis using e by metis
qed

lemma startProfile_view:
  "startProfile se pc s = (r, s') \<Longrightarrow> (case r of Inr _ \<Rightarrow> s_changes s' | Inl _ \<Rightarrow> s_changes s' = s_changes s \<and> sup_view s' = sup_view s)"
  by (auto simp: startProfile_def Let_def notify_def sup_view_def DatapathProfiles_def inv_profiles_def split: if_splits option.splits)

lemma map_filter_update: "f x' = f (xs ! i) \<Longrightarrow> i < length xs \<Longrightarrow> List.map_filter f (xs[i := x']) = List.map_filter f xs"
proof (induction xs arbitrary: i)
  case (Cons x xs)
  show ?case
  proof (cases i)
    case (Suc j)
    then have "List.map_filter f (xs[j := x']) = List.map_filter f xs" using Cons by simp
    then show ?thesis using Suc by (simp add: map_filter_simps split: option.split)
  qed (use Cons in \<open>simp add: map_filter_simps\<close>)
qed simp

text \<open>The second write of a logout changes nothing that others see, unless the profile is running again.\<close>

lemma logout_view:
  assumes "State (p_status (s_profiles s ! i)) \<noteq> ''Running''"
  shows "sup_view (with_profile i (\<lambda>p. p\<lparr>p_status := (p_status p)\<lparr>State := ''NeedsLogin''\<rparr>\<rparr>) s) = sup_view s"
proof (cases "i < length (s_profiles s)")
  case True
  have "(map (\<lambda>p. (p_cfg p, p_targets p)) (s_profiles s))[i := (p_cfg p, p_targets p)] = map (\<lambda>p. (p_cfg p, p_targets p)) (s_profiles s)"
    if "p = s_profiles s ! i" for p using True by (intro nth_equalityI) (simp_all add: that nth_list_update)
  moreover have inv: "inv_profiles t = map (\<lambda>(order, c, ts). \<lparr>P_ID = Prof_ID c, P_Name = Prof_Name c, P_Order = int order, P_Targets = ts\<rparr>)
      (enumerate 0 (map (\<lambda>p. (p_cfg p, p_targets p)) (s_profiles t)))" for t
    by (simp add: inv_profiles_def enumerate_map_upt enumerate_eq_zip zip_map2 comp_def case_prod_unfold)
  ultimately show ?thesis using assms True
    by (simp add: sup_view_def inv with_profile_def map_update) (simp add: DatapathProfiles_def map_filter_update)
qed (simp add: with_profile_def list_update_beyond)

lemma handler_quiet:
  assumes "daemon_handler env caller req d = (out, d')" "Op req \<noteq> ''login''" "Op req \<noteq> ''logout''"
  shows "tables d' = tables d \<and> sup_view (dm_sup d') = sup_view (dm_sup d) \<and> s_changes (dm_sup d') = s_changes (dm_sup d) \<and> dm_flags d' = dm_flags d"
  using assms by (auto simp: daemon_handler_def split: if_splits prod.splits sum.splits option.splits dest: leases_view)

lemma request_quiet:
  assumes "handle decode (daemon_handler env) gid con d = (out, d')"
    "\<And>r. decode (take 1048576 (incoming con)) = Some r \<Longrightarrow> Op r \<noteq> ''login'' \<and> Op r \<noteq> ''logout''"
  shows "tables d' = tables d \<and> sup_view (dm_sup d') = sup_view (dm_sup d) \<and> s_changes (dm_sup d') = s_changes (dm_sup d) \<and> dm_flags d' = dm_flags d"
proof (cases "d' = d")
  case False
  then obtain caller r res where "decode (take 1048576 (incoming con)) = Some r" "daemon_handler env caller r d = (res, d')"
    using assms(1) by (auto simp: handle_def split: option.splits if_splits prod.splits)
  then show ?thesis using assms(2) handler_quiet [of env caller r d res d'] by blast
qed simp

lemma hostStep_forwarding: "hostStep clk sel rd n = Continue n' \<Longrightarrow> forwarding (eng n') = forwarding (eng n)"
  using traffic_tables [OF traffic.host [where ok = "\<lambda>_. True"]] by (simp add: same_tables_def forwarding_def)

lemma profileStep_forwarding: "profileStep clk sel wr t pid n = Continue n' \<Longrightarrow> forwarding (eng n') = forwarding (eng n)"
  using traffic_tables [OF traffic.profile [where ok = "\<lambda>_. True"]] by (simp add: same_tables_def forwarding_def)

lemma background_frame:
  "background c c' \<Longrightarrow> tables (c_dm c') = tables (c_dm c) \<and> dm_flags (c_dm c') = dm_flags (c_dm c) \<and> c_loop c' = c_loop c"
proof (induction rule: background.induct)
  case (request decode env gid con c out d')
  then show ?case using request_quiet [OF request.hyps(1)] by simp
next
  case (from_host c n clk sel rd n')
  then show ?case by (simp add: tables_def hostStep_forwarding)
next
  case (from_profile c n clk sel wr t pid n')
  then show ?case by (simp add: tables_def profileStep_forwarding)
next
  case (node c n t dev)
  then show ?case by (simp add: tables_def)
qed simp_all

lemma background_announces: "background c c' \<Longrightarrow> owing c' \<or> \<not> owing c \<and> sup_view (c_sup c') = sup_view (c_sup c)"
proof (induction rule: background.induct)
  case (logout_second i c)
  then show ?case using logout_view [OF logout_second(2)] by (auto simp: owing_def)
next
  case (login_start c xs b ex pc pcs ys se p s')
  then show ?case using startProfile_view [OF login_start(3)] by (simp add: owing_def)
next
  case (login_failed c xs ex pc pcs ys se e s')
  then show ?case using startProfile_view [OF login_failed(3)] by (auto simp: owing_def)
next
  case (request decode env gid con c out d')
  then show ?case using request_quiet [OF request.hyps(1)] by (auto simp: owing_def)
qed (auto simp: owing_def)

interpretation sup_channel: notifying "\<lambda>c. sup_view (c_sup c)" owing background
  by unfold_locales (rule background_announces)

section \<open>The main loop puts the tables in step\<close>

lemma view_parts:
  "sup_view s' = sup_view s \<Longrightarrow> DatapathProfiles s' = DatapathProfiles s"
  "sup_view s' = sup_view s \<Longrightarrow> Sup_Inventory srt s' = Sup_Inventory srt s"
  "sup_view s' = sup_view s \<Longrightarrow> current ts s' = current ts s"
  by (simp_all add: sup_view_def Sup_Inventory_def current_def)

lemma in_sync_cong:
  assumes "tables d' = tables d" "sup_view (dm_sup d') = sup_view (dm_sup d)"
  shows "in_sync d' \<longleftrightarrow> in_sync d"
proof -
  have "(\<forall>n. dm_net x = Some n \<longrightarrow> forwarding (eng n) = forwarding (Engine_New (nat_addr (eng n)) ts ls ps))
      \<longleftrightarrow> pred_option (\<lambda>f. f = forwarding (Engine_New (fst f) ts ls ps)) (fst (tables x))"
    "(\<forall>sv. dm_dns x = Some sv \<longrightarrow> targets sv = ts \<and> effective sv = ls) \<longleftrightarrow> pred_option ((=) (ts, ls)) (snd (tables x))" for x ts ls ps
    by (cases "dm_net x"; simp add: tables_def forwarding_def) (cases "dm_dns x"; auto simp: tables_def)
  then show ?thesis unfolding in_sync_def view_parts [OF assms(2)] by (simp add: assms(1))
qed

lemma current_keys: "current ts s \<Longrightarrow> slice_sorter srt \<Longrightarrow> target_Key ` set ts = set (inv_keys srt s)"
  by (auto simp: current_def Sup_Inventory_def Build_fields slice_sorter.srt_set)

text \<open>The lease table has a lease for exactly the targets of the reading it was computed from.\<close>

lemma leases_dom:
  assumes "env_ok env" "daemon_leases env s = (Inr ls, s')"
  shows "fset (fmdom ls) = set (inv_keys (e_sort env) s)"
proof -
  have it: "iter_ok (e_iter env)" using assms(1) by (simp add: env_ok_def)
  note l = assms(2) [unfolded daemon_leases_def]
  have "fmlookup ls k = None" if "k \<notin> set (inv_keys (e_sort env) s)" for k
    using it l by (rule EffectiveLeases_Inr) (use that in auto)
  moreover have "fmlookup ls k \<noteq> None" if "k \<in> set (inv_keys (e_sort env) s)" for k
    using EffectiveLeases_leased [OF it l that] by auto
  ultimately show ?thesis by (metis fmdom_notI fmlookup_dom_iff not_None_eq subsetI subset_antisym)
qed

lemma Update_forwarding:
  "nat_addr (Update ts ls ps e) = nat_addr e" "forwarding (Update ts ls ps e) = forwarding (Engine_New (nat_addr e) ts ls ps)"
  by (simp_all add: Update_def Let_def forwarding_def purgeProfiles_def)

lemma reconciled_in_sync:
  assumes "reconcile_resolved bus env (reconcile_datapath ans env ts ls d) = Some d'" "current ts (dm_sup d)" "fset (fmdom ls) = target_Key ` set ts"
  shows "dm_sup d' = dm_sup d \<and> in_sync d'"
proof -
  note fr = reconcile_resolved_frame [OF assms(1)]
  have "dm_sup d' = dm_sup d" "dm_net d' = map_option (\<lambda>n. n\<lparr>eng := Update ts ls (DatapathProfiles (dm_sup d)) (eng n)\<rparr>) (dm_net d)"
    "dm_dns d' = map_option (Dns_Update ts ls) (dm_dns d)"
    using fr by (auto simp: reconcile_datapath_def Let_def split: option.splits prod.splits)
  then show ?thesis unfolding in_sync_def using assms(2,3)
    by (intro conjI exI [of _ ts] exI [of _ ls]) (auto simp: Update_forwarding Dns_Update_def Let_def)
qed

lemma start_host_tables:
  assumes "start_host ans env ts ls d = Inr d'" "dm_net d = None"
  shows "dm_sup d' = dm_sup d \<and> dm_dns d' = dm_dns d
    \<and> (\<forall>n. dm_net d' = Some n \<longrightarrow> forwarding (eng n) = forwarding (Engine_New (nat_addr (eng n)) ts ls (DatapathProfiles (dm_sup d))))"
  using assms by (auto simp: start_host_def Let_def Engine_Run_def forwarding_def split: if_splits sum.splits prod.splits option.splits)

lemma start_dns_tables:
  "start_dns env ts ls d = Some d' \<Longrightarrow> dm_dns d = None \<Longrightarrow>
    dm_sup d' = dm_sup d \<and> dm_net d' = dm_net d \<and> (\<forall>sv. dm_dns d' = Some sv \<longrightarrow> targets sv = ts \<and> effective sv = ls)"
  by (auto simp: start_dns_def Start_def split: if_splits)

lemma start_rest_tables:
  assumes "start_rest ans bus env ts ls d = Running d'" "dm_dns d = None"
  shows "dm_sup d' = dm_sup d \<and> dm_net d' = dm_net d \<and> (\<forall>sv. dm_dns d' = Some sv \<longrightarrow> targets sv = ts \<and> effective sv = ls)"
proof -
  obtain d1 where d1: "listen_default d = Some d1" using assms(1) by (auto simp: start_rest_def split: option.splits)
  then have f1: "dm_sup d1 = dm_sup d" "dm_net d1 = dm_net d" "dm_dns d1 = None" using assms(2) by (auto simp: listen_default_def split: if_splits)
  obtain d2 where d2: "start_dns env ts ls d1 = Some d2" using assms(1) d1 by (auto simp: start_rest_def split: option.splits)
  have "dm_sup d' = dm_sup d2 \<and> dm_net d' = dm_net d2 \<and> dm_dns d' = dm_dns d2"
    using assms(1) d1 d2
    by (auto simp: start_rest_def start_socket_def split: if_splits option.splits sum.splits prod.splits)
  then show ?thesis using start_dns_tables [OF d2 f1(3)] f1 by simp
qed

lemma started_in_sync:
  assumes "env_ok env" "daemon_run ans bus env argv = Running d"
  shows "in_sync d"
proof -
  obtain d0 where d0: "start_services ans bus env d0 = Running d" "dm_net d0 = None" "dm_dns d0 = None"
    using assms(2) by (auto simp: daemon_run_def Let_def split: if_splits flag_result.splits sum.splits prod.splits option.splits)
  let ?ts = "Targets (Sup_Inventory (e_sort env) (dm_sup d0))"
  obtain ls s' d1 where l: "daemon_leases env (dm_sup d0) = (Inr ls, s')" "start_host ans env ?ts ls (d0\<lparr>dm_sup := s'\<rparr>) = Inr d1"
    "start_rest ans bus env ?ts ls d1 = Running d"
    using d0(1) by (auto simp: start_services_def Let_def split: if_splits sum.splits prod.splits)
  have h: "dm_sup d1 = s'" "dm_dns d1 = None"
    "\<And>n. dm_net d1 = Some n \<Longrightarrow> forwarding (eng n) = forwarding (Engine_New (nat_addr (eng n)) ?ts ls (DatapathProfiles s'))"
    using start_host_tables [OF l(2)] d0 by auto
  have "current ?ts (dm_sup d0)" using assms(1) by (auto simp: current_def env_ok_def)
  then have "current ?ts s'" using view_parts(3) leases_view [OF l(1)] by blast
  moreover have "fset (fmdom ls) = target_Key ` set ?ts" using leases_dom [OF assms(1) l(1)] by simp
  ultimately show ?thesis unfolding in_sync_def using start_rest_tables [OF l(3) h(2)] h
    by (intro exI [of _ ?ts] exI [of _ ls]) auto
qed

text \<open>The resolver is pointed at an address that parses, or startup would have panicked.\<close>

definition resolver_addr :: "Daemon \<Rightarrow> bool" where
  "resolver_addr d \<longleftrightarrow> (useResolved (dm_flags d) \<longrightarrow> ParseAddr (hd (Split (CHR '':'') (dnsListen (dm_flags d)))) \<noteq> None)"

lemma started_resolver_addr:
  assumes "daemon_run ans bus env argv = Running d"
  shows "resolver_addr d"
proof -
  obtain ts ls d0 where "start_rest ans bus env ts ls d0 = Running d"
    using assms by (auto simp: daemon_run_def start_services_def Let_def split: if_splits flag_result.splits sum.splits prod.splits option.splits)
  then show ?thesis
    by (auto simp: start_rest_def start_socket_def configure_resolved_def resolver_addr_def split: if_splits option.splits sum.splits prod.splits)
qed

lemma reconcile_flags: "reconcile_resolved bus env (reconcile_datapath ans env ts ls d) = Some d' \<Longrightarrow> dm_flags d' = dm_flags d"
  by (auto simp: reconcile_resolved_def reconcile_datapath_def Let_def split: if_splits option.splits prod.splits)

section \<open>No change is lost\<close>

text \<open>What the main loop holds is current, or a notification is owed.\<close>

definition sync_inv :: "Conc \<Rightarrow> bool" where
  "sync_inv c \<longleftrightarrow> resolver_addr (c_dm c) \<and> (owing c \<or> (case c_loop c of Waiting \<Rightarrow> in_sync (c_dm c) | Taken \<Rightarrow> True | Checked \<Rightarrow> True
     | HasTargets ts \<Rightarrow> current ts (c_sup c) | HasLeases ts ls \<Rightarrow> current ts (c_sup c) \<and> fset (fmdom ls) = target_Key ` set ts))"

lemma background_inv:
  assumes "background c c'" "sync_inv c"
  shows "sync_inv c'"
proof (cases "owing c'")
  case True
  then show ?thesis using assms(2) background_frame [OF assms(1)] by (simp add: sync_inv_def resolver_addr_def)
next
  case False
  then have v: "\<not> owing c" "sup_view (c_sup c') = sup_view (c_sup c)"
    using sup_channel.announces [OF assms(1)] by blast+
  note f = background_frame [OF assms(1)]
  show ?thesis using assms(2) v(1) f in_sync_cong [OF _ v(2)] view_parts(3) [OF v(2)]
    by (simp add: sync_inv_def resolver_addr_def cong: loop_pc.case_cong)
qed

lemma loop_step_inv: "loop_step ans bus c c' \<Longrightarrow> sync_inv c \<Longrightarrow> sync_inv c'"
proof (induction rule: loop_step.induct)
  case (has_targets c env)
  then show ?case by (auto simp: sync_inv_def current_def env_ok_def resolver_addr_def)
next
  case (has_leases c ts env ls s)
  note v = leases_view [OF has_leases(3)]
  have "fset (fmdom ls) = target_Key ` set ts" if "current ts (c_sup c)"
    using that leases_dom [OF has_leases(2,3)] current_keys has_leases(2) by (metis env_ok_def)
  then show ?case using has_leases v view_parts(3) [of s "c_sup c" ts] by (auto simp: sync_inv_def owing_def resolver_addr_def)
next
  case (updated c ts ls env d')
  have "dm_sup d' = c_sup c"
    using reconcile_resolved_frame [OF updated(3)] by (auto simp: reconcile_datapath_def Let_def split: option.splits prod.splits)
  then show ?case using updated reconciled_in_sync [OF updated(3)] reconcile_flags [OF updated(3)]
    by (auto simp: sync_inv_def owing_def resolver_addr_def)
qed (auto simp: sync_inv_def owing_def resolver_addr_def)

lemma lossless_inv: "lossless ans bus c \<Longrightarrow> sync_inv c"
proof (induction rule: lossless.induct)
  case (started env argv d)
  then show ?case using started_in_sync started_resolver_addr by (auto simp: sync_inv_def)
qed (auto intro: background_inv loop_step_inv)

text \<open>The steps of the main loop, when nothing interrupts them, are the function \<open>main_loop\<close>.\<close>

lemma main_loop_steps:
  assumes "main_loop ans bus env Change (c_dm c) = Some (Running d')" "env_ok env" "c_loop c = Waiting"
    "daemon_leases env (snd (take_change (c_sup c))) = (Inr ls, s)"
  shows "(loop_step ans bus)\<^sup>*\<^sup>* c (c\<lparr>c_dm := d'\<rparr>)"
proof -
  let ?s = "snd (take_change (c_sup c))" and ?ts = "Targets (Sup_Inventory (e_sort env) (snd (take_change (c_sup c))))"
  let ?c1 = "(on_sup (\<lambda>_. ?s) c)\<lparr>c_loop := Taken\<rparr>" and ?c2 = "(on_sup (\<lambda>_. ?s) c)\<lparr>c_loop := Checked\<rparr>"
    and ?c3 = "(on_sup (\<lambda>_. ?s) c)\<lparr>c_loop := HasTargets ?ts\<rparr>" and ?c4 = "(on_sup (\<lambda>_. s) c)\<lparr>c_loop := HasLeases ?ts ls\<rparr>"
  have m: "take_change (c_sup c) = (True, ?s)" "ValidateDNSSuffixes ?s = None"
    "reconcile_resolved bus env (reconcile_datapath ans env ?ts ls ((c_dm c)\<lparr>dm_sup := s\<rparr>)) = Some d'"
    using assms(1,4) by (auto simp: main_loop_def take_change_def reconcile_def Let_def split: if_splits option.splits)
  have "loop_step ans bus c ?c1" using loop_step.taken [OF assms(3) m(1)] .
  moreover have "loop_step ans bus ?c1 ?c2" using loop_step.checked [of ?c1 ans bus] m(2) by simp
  moreover have "loop_step ans bus ?c2 ?c3" using loop_step.has_targets [of ?c2 env ans bus] assms(2) by simp
  moreover have "loop_step ans bus ?c3 ?c4" using loop_step.has_leases [of ?c3 ?ts env ls s ans bus] assms(2,4) by (simp add: on_sup_def)
  moreover have "loop_step ans bus ?c4 (?c4\<lparr>c_dm := d', c_loop := Waiting\<rparr>)"
    by (rule loop_step.updated [OF _ assms(2)]) (use m(3) in simp_all)
  moreover have "?c4\<lparr>c_dm := d', c_loop := Waiting\<rparr> = c\<lparr>c_dm := d'\<rparr>" using assms(3) by (simp add: on_sup_def)
  ultimately show ?thesis by (metis (no_types, lifting) converse_rtranclp_into_rtranclp rtranclp.rtrancl_refl)
qed

text \<open>One notification from the node, as the supervisor handles it, is a run of the finer steps.\<close>

lemma watch_event_steps:
  assumes "i < length (s_profiles (c_sup c))"
  shows "background\<^sup>*\<^sup>* c (on_sup (watch_event i ev inp) c)"
proof -
  have step: "background\<^sup>*\<^sup>* c (on_sup (\<lambda>s. notify (with_profile i (\<lambda>_. p') s)) c)" if "profile_write (s_profiles (c_sup c) ! i) p'" for p'
  proof -
    let ?c1 = "(on_sup (with_profile i (\<lambda>_. p')) c)\<lparr>c_owed := Suc (c_owed c)\<rparr>"
    have "background c ?c1" using assms that by (rule background.written)
    moreover have "background ?c1 ((on_sup notify ?c1)\<lparr>c_owed := c_owed c\<rparr>)" by (rule background.announced) simp
    ultimately have "background\<^sup>*\<^sup>* c ((on_sup notify ?c1)\<lparr>c_owed := c_owed c\<rparr>)" by (meson r_into_rtranclp rtranclp.rtrancl_into_rtrancl)
    then show ?thesis by (simp add: on_sup_def)
  qed
  have d: "on_sup (sup_degrade i r) c = on_sup (\<lambda>s. notify (with_profile i (\<lambda>_. degrade r (s_profiles (c_sup c) ! i)) s)) c" for r
    by (simp add: on_sup_def sup_degrade_def with_profile_def)
  have r: "background\<^sup>*\<^sup>* c (on_sup (sup_refresh i inp) c)"
  proof (cases "refresh inp (s_profiles (c_sup c) ! i)")
    case None
    then show ?thesis by (simp add: on_sup_def sup_refresh_def)
  next
    case (Some p')
    then show ?thesis using step [of p'] by (auto simp: on_sup_def sup_refresh_def profile_write_def)
  qed
  have n: "background\<^sup>*\<^sup>* c (on_sup (\<lambda>s. if b then sup_refresh i inp s else s) c)" for b
    using r by (cases b) (simp_all add: on_sup_def)
  then show ?thesis using r step [of "degrade _ (s_profiles (c_sup c) ! i)"]
    by (cases ev) (auto simp: watch_event_def [abs_def] d profile_write_def)
qed

lemma change_handled:
  assumes "s_changes (dm_sup d)" "resolver_addr d" "ValidateDNSSuffixes (dm_sup d) = None" "env_ok env"
    and "daemon_leases env (snd (take_change (dm_sup d))) = (Inr ls, s)"
  shows "\<exists>d'. main_loop ans bus env Change d = Some (Running d') \<and> in_sync d'"
proof -
  let ?s = "snd (take_change (dm_sup d))"
  let ?ts = "Targets (Sup_Inventory (e_sort env) ?s)"
  have v: "ValidateDNSSuffixes ?s = None" using assms(3) by (simp add: take_change_def ValidateDNSSuffixes_def)
  have "reconcile_resolved bus env x \<noteq> None" if "dm_flags x = dm_flags d" for x
    using that assms(2) by (auto simp: reconcile_resolved_def configure_resolved_def resolver_addr_def Let_def split: option.splits prod.splits)
  moreover have "dm_flags (reconcile_datapath ans env ?ts ls (d\<lparr>dm_sup := s\<rparr>)) = dm_flags d"
    by (simp add: reconcile_datapath_def Let_def split: option.split prod.split)
  ultimately obtain d' where d': "reconcile_resolved bus env (reconcile_datapath ans env ?ts ls (d\<lparr>dm_sup := s\<rparr>)) = Some d'" by blast
  then have m: "main_loop ans bus env Change d = Some (Running d')"
    using assms(1,5) v by (simp add: main_loop_def case_prod_beta reconcile_def Let_def take_change_def)
  have "current ?ts ?s" using assms(4) unfolding current_def env_ok_def by blast
  then have "current ?ts s" using view_parts(3) [OF conjunct1 [OF leases_view [OF assms(5)]]] by simp
  then have "in_sync d'" using reconciled_in_sync [OF d'] leases_dom [OF assms(4,5)] by simp
  with m show ?thesis by blast
qed

text \<open>
  C6: no change is lost. Take any interleaving of the goroutines in which none of the three losses listed at the
  top happens, and any moment at which the main loop waits and the packet engine or the DNS responder does not work
  by the supervisor's current profiles and targets. Then a notification is owed: it is in the channel, or a
  goroutine is about to send it after its write, or a login in progress will send it at its end; and nothing
  but the main loop takes it away. Once it is in the channel, and if no two running profiles claim one DNS suffix and the
  leases can be computed, the main loop handles it without an exit or a panic, and afterwards engine and
  responder work exactly by the current profiles and targets, with one lease for each target.
\<close>

theorem no_change_lost:
  assumes "lossless ans bus c" "c_loop c = Waiting" "\<not> in_sync (c_dm c)"
  shows "owing c \<and> (\<forall>c'. background\<^sup>*\<^sup>* c c' \<longrightarrow> owing c')
    \<and> (\<forall>env ls s. s_changes (c_sup c) \<and> env_ok env \<and> ValidateDNSSuffixes (c_sup c) = None
        \<and> daemon_leases env (snd (take_change (c_sup c))) = (Inr ls, s) \<longrightarrow>
      (\<exists>d'. main_loop ans bus env Change (c_dm c) = Some (Running d') \<and> in_sync d'))"
proof -
  have inv: "sync_inv c" using assms(1) by (rule lossless_inv)
  then have o: "owing c" using assms(2,3) by (simp add: sync_inv_def)
  moreover have "owing c'" if "background\<^sup>*\<^sup>* c c'" for c' using sup_channel.never_forgotten [OF that o] .
  moreover have "resolver_addr (c_dm c)" using inv by (simp add: sync_inv_def)
  ultimately show ?thesis using change_handled by blast
qed

text \<open>A lease computation that fails loses the change: it has been taken, and the tables are the old ones.\<close>

lemma lease_failure_forgets:
  assumes "s_changes (dm_sup d)" "ValidateDNSSuffixes (dm_sup d) = None" "daemon_leases env (snd (take_change (dm_sup d))) = (Inl e, s)"
  shows "\<exists>d'. main_loop ans bus env Change d = Some (Running d') \<and> tables d' = tables d \<and> sup_view (dm_sup d') = sup_view (dm_sup d)
    \<and> \<not> s_changes (dm_sup d')"
proof -
  have v: "ValidateDNSSuffixes (snd (take_change (dm_sup d))) = None" "sup_view (snd (take_change (dm_sup d))) = sup_view (dm_sup d)"
    "\<not> s_changes (snd (take_change (dm_sup d)))"
    using assms(2) by (simp_all add: take_change_def ValidateDNSSuffixes_def)
  have "main_loop ans bus env Change d = Some (Running (d\<lparr>dm_sup := s\<rparr>))"
    using assms v by (simp add: main_loop_def case_prod_beta reconcile_def Let_def take_change_def)
  then show ?thesis using leases_view [OF assms(3)] v by simp
qed

text \<open>A start that fails after a profile was listed loses the change: nobody announces the listed profile any more.\<close>

lemma failed_start_forgets:
  assumes "c_logins c = [Looping True ex (pc # pcs)]" "\<not> s_changes (c_sup c)" "c_owed c = 0" "startProfile se pc (c_sup c) = (Inl e, s')"
  shows "\<not> owing (c\<lparr>c_dm := set_sup s' (c_dm c), c_logins := []\<rparr>)"
  using assms startProfile_view [OF assms(4)] by (simp add: owing_def)

section \<open>Examples\<close>

text \<open>A profile loses its node: it is degraded, and until the change is handled the engine still forwards for it.\<close>

lemma no_targets_no_leases:
  assumes "EffectiveLeases srt iter rok pok s = (Inr ls, s1)" "s_cfg s2 = s_cfg s" "s_store s2 = s_store s" "inv_keys srt s2 = []"
  shows "EffectiveLeases srt iter rok pok s2 = (Inr fmempty, s2)"
proof -
  obtain a m a' where "Allocator_New (EffectiveIPv4CIDR (s_cfg s)) = Inr a" "Leases rok (s_store s) = Inr m" "reserve_all (iter m) a = Inr a'"
    using assms(1) by (auto simp: EffectiveLeases_def split: sum.splits)
  then show ?thesis using assms(2-4) by (simp add: EffectiveLeases_def Allocate_def)
qed

lemma ex_lost:
  assumes "s = watch_event 0 (ErrMessage ''gone'') inp ex_run"
  shows "s_changes s" "ValidateDNSSuffixes s = None" "DatapathProfiles s = []" "DatapathProfiles ex_run \<noteq> []"
    "daemon_leases ex_denv (snd (take_change s)) = (Inr fmempty, snd (take_change s))"
proof -
  let ?p = "s_profiles ex_run ! 0"
  have s: "s_profiles s = [degrade ''gone'' ?p]" "s_cfg s = s_cfg ex_run" "s_store s = s_store ex_run"
    by (simp_all add: assms watch_event_def sup_degrade_def notify_def with_profile_def ex_run_eq)
  show "s_changes s" by (simp add: assms watch_event_def sup_degrade_def)
  show "ValidateDNSSuffixes s = None" by (simp add: ValidateDNSSuffixes_def s split: option.split)
  show "DatapathProfiles s = []" by (simp add: DatapathProfiles_def s degrade_def Let_def map_filter_def)
  show "DatapathProfiles ex_run \<noteq> []"
    by (simp add: DatapathProfiles_def ex_run_eq setStatusAndTargets_def ex_status_def Let_def map_filter_def IsValid_def)
  have "inv_keys insertionSort (snd (take_change s)) = []"
    by (simp add: Sup_Inventory_def Build_fields take_change_def inv_profiles_def s degrade_def all_targets_def insertionSort_def)
  then show "daemon_leases ex_denv (snd (take_change s)) = (Inr fmempty, snd (take_change s))"
    using no_targets_no_leases [OF ex_run_leases, of "snd (take_change s)"] s by (simp add: daemon_leases_def ex_denv_def take_change_def)
qed

lemma lossless_background: "background\<^sup>*\<^sup>* c c' \<Longrightarrow> lossless ans bus c \<Longrightarrow> lossless ans bus c'"
  by (induction rule: rtranclp_induct) (auto intro: lossless.others)

theorem no_change_lost_witness:
  "\<exists>c d'. lossless all_ok bus_ok c \<and> \<not> in_sync (c_dm c) \<and> main_loop all_ok bus_ok ex_denv Change (c_dm c) = Some (Running d') \<and> in_sync d'"
proof -
  obtain d h log n sv where d: "daemon_run all_ok bus_ok ex_denv ex_argv = Running d"
    "d = ex_daemon0\<lparr>dm_host := Some h, dm_log := log, dm_net := Some n, dm_dns := Some sv\<rparr>"
    using ex_daemon by blast
  have dd: "dm_sup d = ex_run" "dm_net d = Some n" by (simp_all add: d(2) ex_daemon0_def)
  define inp where "inp = \<lparr>lc_ok = False, lc_status = None, lc_services = None\<rparr>"
  define s where "s = watch_event 0 (ErrMessage ''gone'') inp ex_run"
  define c0 where "c0 = \<lparr>c_dm = d, c_owed = 0, c_logins = [], c_logouts = [], c_loop = Waiting\<rparr>"
  define c where "c = on_sup (watch_event 0 (ErrMessage ''gone'') inp) c0"
  have cc: "c_loop c = Waiting" "c_dm c = d\<lparr>dm_sup := s\<rparr>" by (simp_all add: c_def c0_def s_def dd)
  note e = ex_lost [OF s_def]
  have "lossless all_ok bus_ok c0" unfolding c0_def by (rule lossless.started [OF ex_env_ok d(1)])
  moreover have "background\<^sup>*\<^sup>* c0 c" unfolding c_def by (rule watch_event_steps) (simp add: c0_def dd ex_run_eq)
  ultimately have l: "lossless all_ok bus_ok c" using lossless_background by blast
  have "selfByProfile (eng n) = foldl (\<lambda>m p. fmupd (DP_ID p) (SelfIPv4 p) m) fmempty (DatapathProfiles ex_run)"
    using started_in_sync [OF ex_env_ok d(1)] dd by (auto simp: in_sync_def forwarding_def)
  moreover have "foldl (\<lambda>m p. fmupd (DP_ID p) (SelfIPv4 p) m) fmempty ps \<noteq> fmempty" if "ps \<noteq> []" for ps
    using that by (cases ps rule: rev_cases) (auto dest: arg_cong [where f = fmdom])
  ultimately have behind: "\<not> in_sync (c_dm c)" using e(3,4) dd by (auto simp: cc in_sync_def forwarding_def)
  from no_change_lost [OF l cc(1) behind] have "\<exists>d'. main_loop all_ok bus_ok ex_denv Change (c_dm c) = Some (Running d') \<and> in_sync d'"
    using e(1,2,5) ex_env_ok by (auto simp: cc)
  with l behind show ?thesis by blast
qed

end
