(* ===== verification/Cli.thy ===== *)
theory Cli
  imports Daemon
begin

text \<open>
  \<^verbatim>\<open>cmd/tsmultitail/main.go\<close>: the command-line client.

  A command is a function from the configuration files, the outcome of the system calls and the replies
  of the daemon (\<open>cli_env\<close>) to an exit: \<open>Die\<close> with a reason (exit code 2) or the lines printed, together with
  the files afterwards and the requests sent. White space is ASCII white space.
\<close>

section \<open>Data\<close>

datatype cli_error = Usage | UnexpectedArguments | UnknownCommand string | AlreadyExists | NoSuchFile | CfgError config_error
  | UnknownKey string | ProfileNotFound | ReferenceNotFound | BadPosition | PositionOutOfRange | UnknownMoveOption
  | HostnameRequired | RequestFailed client_error | ConfirmLogout | ReadKeyFailed | BadFlags | RandomFailed

datatype cli_exit = Die cli_error | Print "string list"

record 'r cli_env =
  c_decode :: "bytes \<Rightarrow> Config option"
  c_encode :: "Config \<Rightarrow> bytes option"
  c_path :: string
  c_sock :: string
  c_stat :: "string \<Rightarrow> bool"
  c_dial :: bool
  c_send :: bool
  c_answer :: "Request \<Rightarrow> 'r Response option"
  c_faults :: "nat \<Rightarrow> bool"
  c_tmp :: string
  c_part :: nat

text \<open>\<open>parse\<close>: help exits with code 0 after printing the usage (on the error output), a bad flag dies.\<close>

definition cli_parse :: "(string \<Rightarrow> flag_kind option) \<Rightarrow> string list \<Rightarrow> cli_exit + (string \<times> string) list \<times> string list" where
  "cli_parse formal args = (case flag_Parse formal args [] of FlagHelp \<Rightarrow> Inl (Print []) | FlagError \<Rightarrow> Inl (Die BadFlags)
     | FlagsParsed v rest \<Rightarrow> Inr (v, rest))"

section \<open>Changing the configuration\<close>

abbreviation bytes_str :: "bytes \<Rightarrow> string" where "bytes_str b \<equiv> map (\<lambda>x. char_of (unat x)) b"

abbreviation write_request :: "bytes \<Rightarrow> Request" where
  "write_request b \<equiv> \<lparr>Op = ''config_write'', Req_Profile = [], AuthKey = [], ConfigYAML = bytes_str b\<rparr>"

definition writeConfig :: "'r cli_env \<Rightarrow> Config \<Rightarrow> files \<Rightarrow> cli_error option \<times> files \<times> Request list" where
  "writeConfig env c fs =
    (if c_stat env (c_sock env) then
       (case Marshal (c_encode env) c of None \<Rightarrow> (Some (CfgError MarshalFailed), fs, [])
        | Some b \<Rightarrow> let req = write_request b in
          (case ClientRequest (c_dial env) (c_send env) (c_answer env) req of
             Inl e \<Rightarrow> (Some (RequestFailed e), fs, if c_dial env \<and> c_send env then [req] else [])
           | Inr _ \<Rightarrow> (None, fs, [req])))
     else (case WriteAtomic (c_encode env) (c_faults env) (c_tmp env) (c_part env) (c_path env) c fs of
         (e, fss) \<Rightarrow> (map_option CfgError e, last fss, [])))"

definition finish :: "cli_error option \<times> files \<times> Request list \<Rightarrow> string list \<Rightarrow> cli_exit \<times> files \<times> Request list" where
  "finish w out = (case w of (Some e, fs, rs) \<Rightarrow> (Die e, fs, rs) | (None, fs, rs) \<Rightarrow> (Print out, fs, rs))"

subsection \<open>Scanning integers\<close>

text \<open>
  \<^verbatim>\<open>fmt.Sscan\<close> into an \<^verbatim>\<open>int\<close>: leading space, an optional sign, a base prefix, then the longest run of
  digits and underscores of that base; what follows is ignored. The token is read by \<^verbatim>\<open>strconv.ParseInt\<close>
  with base 0, which allows an underscore only between digits (or after the base prefix).
\<close>

definition digit_of :: "char \<Rightarrow> nat option" where
  "digit_of c = (if is_digit c then Some (digit_val c)
     else let n = of_char (lower_char c) :: nat in if 97 \<le> n \<and> n \<le> 102 then Some (n - 87) else None)"

definition base_digit :: "nat \<Rightarrow> char \<Rightarrow> bool" where
  "base_digit b c = (case digit_of c of None \<Rightarrow> False | Some d \<Rightarrow> d < b)"

fun underscores_ok :: "bool \<Rightarrow> string \<Rightarrow> bool" where
  "underscores_ok prev [] = True"
| "underscores_ok prev (c # cs) = (if c = CHR ''_'' then prev \<and> (case cs of [] \<Rightarrow> False | c' # _ \<Rightarrow> c' \<noteq> CHR ''_'') \<and> underscores_ok False cs
     else underscores_ok True cs)"

definition base_value :: "nat \<Rightarrow> string \<Rightarrow> nat" where
  "base_value b s = foldl (\<lambda>n c. case digit_of c of None \<Rightarrow> n | Some d \<Rightarrow> b * n + d) 0 s"

definition number_token :: "string \<Rightarrow> (nat \<times> bool \<times> string) option" where
  "number_token s = (let tok = (\<lambda>b r. takeWhile (\<lambda>c. base_digit b c \<or> c = CHR ''_'') r) in
     case s of [] \<Rightarrow> None
     | c # r \<Rightarrow> if c \<noteq> CHR ''0'' then (if tok 10 s = [] then None else Some (10, False, tok 10 s))
         else (case r of [] \<Rightarrow> Some (8, True, [])
           | p # r' \<Rightarrow> if p = CHR ''b'' \<or> p = CHR ''B'' then Some (2, True, CHR ''b'' # tok 2 r')
               else if p = CHR ''o'' \<or> p = CHR ''O'' then Some (8, True, CHR ''o'' # tok 8 r')
               else if p = CHR ''x'' \<or> p = CHR ''X'' then Some (16, True, CHR ''x'' # tok 16 r')
               else Some (8, True, tok 8 r)))"

definition Sscan :: "string \<Rightarrow> int option" where
  "Sscan s = (let s = dropWhile is_space s; neg = s \<noteq> [] \<and> hd s = CHR ''-'';
       s = (if s \<noteq> [] \<and> (hd s = CHR ''-'' \<or> hd s = CHR ''+'') then tl s else s) in
     case number_token s of None \<Rightarrow> None
     | Some (b, zero, t) \<Rightarrow>
       let marked = zero \<and> t \<noteq> [] \<and> hd t \<in> set ''box''; ds = (if marked then tl t else t) in
       if marked \<and> filter (\<lambda>c. c \<noteq> CHR ''_'') ds = [] then None
       else if \<not> underscores_ok zero ds then None
       else let n = int (base_value b ds) in
         if neg then (if n \<le> 2 ^ 63 then Some (- n) else None) else if n < 2 ^ 63 then Some n else None)"

subsection \<open>config\<close>

text \<open>A scan that fails leaves the field as it is.\<close>

definition config_set :: "string \<Rightarrow> string \<Rightarrow> Config \<Rightarrow> cli_error + Config" where
  "config_set key v c =
    (if key = ''interface'' then Inr (c\<lparr>Interface := v\<rparr>)
     else if key = ''routing-table'' then Inr (c\<lparr>RoutingTable := (case Sscan v of None \<Rightarrow> RoutingTable c | Some n \<Rightarrow> n)\<rparr>)
     else if key = ''mtu'' then Inr (c\<lparr>Cfg_MTU := (case Sscan v of None \<Rightarrow> Cfg_MTU c | Some n \<Rightarrow> n)\<rparr>)
     else if key = ''effective-ipv4-cidr'' then Inr (c\<lparr>EffectiveIPv4CIDR := v\<rparr>)
     else Inl (UnknownKey key))"

definition configCmd :: "'r cli_env \<Rightarrow> string list \<Rightarrow> files \<Rightarrow> cli_exit \<times> files \<times> Request list" where
  "configCmd env a fs = (case a of [] \<Rightarrow> (Die Usage, fs, [])
   | cmd # _ \<Rightarrow>
     if cmd = ''init'' then
       (if c_path env |\<in>| fmdom fs then (Die AlreadyExists, fs, []) else finish (writeConfig env Default fs) [c_path env])
     else if cmd = ''show'' then
       (case fmlookup fs (c_path env) of None \<Rightarrow> (Die NoSuchFile, fs, []) | Some b \<Rightarrow> (Print [bytes_str b], fs, []))
     else if cmd = ''set'' then
       (if length a \<noteq> 3 then (Die Usage, fs, [])
        else case Load (c_decode env) fs (c_path env) of Inl e \<Rightarrow> (Die (CfgError e), fs, [])
        | Inr c \<Rightarrow> (case config_set (a ! 1) (a ! 2) c of Inl e \<Rightarrow> (Die e, fs, [])
          | Inr c' \<Rightarrow> finish (writeConfig env c' fs) []))
     else (Die (UnknownCommand cmd), fs, []))"

subsection \<open>profiles\<close>

definition profileIndex :: "Config \<Rightarrow> string \<Rightarrow> nat option" where
  "profileIndex c name = index_where (\<lambda>p. EqualFold (Prof_Name p) name) (Profiles c)"

definition nilProfile :: Profile where
  "nilProfile = \<lparr>Prof_ID = [], Prof_Name = [], Hostname = [], ControlURL = [], AdvertiseTags = []\<rparr>"

definition remove_at :: "nat \<Rightarrow> 'a list \<Rightarrow> 'a list" where
  "remove_at i xs = take i xs @ drop (i + 1) xs"

text \<open>The three statements that open a gap: append a value, \<^verbatim>\<open>copy\<close> the tail one place up, assign.\<close>

definition insert_at :: "'a \<Rightarrow> nat \<Rightarrow> 'a \<Rightarrow> 'a list \<Rightarrow> 'a list" where
  "insert_at z pos x xs = (let ys = xs @ [z];
       ys = take (pos + 1) ys @ take (length ys - (pos + 1)) (drop pos ys)
     in ys[pos := x])"

definition profile_remove :: "string \<Rightarrow> Config \<Rightarrow> cli_error + Config" where
  "profile_remove name c = (case profileIndex c name of None \<Rightarrow> Inl ProfileNotFound
     | Some i \<Rightarrow> Inr (c\<lparr>Profiles := remove_at i (Profiles c)\<rparr>))"

definition profile_move :: "string \<Rightarrow> string \<Rightarrow> string \<Rightarrow> Config \<Rightarrow> cli_error + Config" where
  "profile_move name opt v c = (case profileIndex c name of None \<Rightarrow> Inl ProfileNotFound
     | Some i \<Rightarrow> let x = Profiles c ! i; c = c\<lparr>Profiles := remove_at i (Profiles c)\<rparr> in
       (case (if opt = ''--position'' then (case Sscan v of None \<Rightarrow> Inl BadPosition | Some n \<Rightarrow> Inr n)
              else if opt = ''--before'' \<or> opt = ''--after'' then
                (case profileIndex c v of None \<Rightarrow> Inl ReferenceNotFound
                 | Some j \<Rightarrow> Inr (int j + (if opt = ''--after'' then 1 else 0)))
              else Inl UnknownMoveOption) of
          Inl e \<Rightarrow> Inl e
        | Inr pos \<Rightarrow> if pos < 0 \<or> pos > int (length (Profiles c)) then Inl PositionOutOfRange
            else Inr (c\<lparr>Profiles := insert_at nilProfile (nat pos) x (Profiles c)\<rparr>)))"

definition profile_set :: "string \<Rightarrow> string \<Rightarrow> Config \<Rightarrow> cli_error + Config" where
  "profile_set name url c = (case profileIndex c name of None \<Rightarrow> Inl ProfileNotFound
     | Some i \<Rightarrow> Inr (c\<lparr>Profiles := (Profiles c)[i := (Profiles c ! i)\<lparr>ControlURL := url\<rparr>]\<rparr>))"

text \<open>A random identifier from 16 random bytes, with the version and variant bits of RFC 4122.\<close>

definition newID :: "bytes \<Rightarrow> string" where
  "newID r = (let b = r[6 := (r ! 6 AND 0x0f) OR 0x40]; b = b[8 := (b ! 8 AND 0x3f) OR 0x80];
       hex = (\<lambda>i j. concat (map hex_byte (take (j - i) (drop i b)))) in
     hex 0 4 @ ''-'' @ hex 4 6 @ ''-'' @ hex 6 8 @ ''-'' @ hex 8 10 @ ''-'' @ hex 10 16)"

definition add_formal :: "string \<Rightarrow> flag_kind option" where
  "add_formal n = (if n \<in> set [''hostname'', ''control-url'', ''advertise-tag''] then Some StringFlag else None)"

definition profile_add :: "bytes option \<Rightarrow> string \<Rightarrow> string list \<Rightarrow> Config \<Rightarrow> cli_exit + Config \<times> string" where
  "profile_add rnd name args c = (case cli_parse add_formal args of Inl x \<Rightarrow> Inl x
   | Inr (v, rest) \<Rightarrow>
     if rest \<noteq> [] then Inl (Die UnexpectedArguments)
     else if string_flag v ''hostname'' [] = [] then Inl (Die HostnameRequired)
     else case rnd of None \<Rightarrow> Inl (Die RandomFailed)
     | Some r \<Rightarrow> let x = \<lparr>Prof_ID = newID r, Prof_Name = name, Hostname = string_flag v ''hostname'' [],
           ControlURL = string_flag v ''control-url'' [], AdvertiseTags = list_flag v ''advertise-tag''\<rparr> in
         Inr (c\<lparr>Profiles := Profiles c @ [x]\<rparr>, Prof_ID x))"

definition profilesCmd :: "'r cli_env \<Rightarrow> bytes option \<Rightarrow> string list \<Rightarrow> files \<Rightarrow> cli_exit \<times> files \<times> Request list" where
  "profilesCmd env rnd a fs = (case a of [] \<Rightarrow> (Die Usage, fs, [])
   | cmd # _ \<Rightarrow> (case Load (c_decode env) fs (c_path env) of Inl e \<Rightarrow> (Die (CfgError e), fs, [])
     | Inr c \<Rightarrow>
       if cmd = ''list'' then (Print (map (\<lambda>x. Prof_Name x @ [CHR 0x09] @ Prof_ID x @ [CHR 0x09] @ Hostname x) (Profiles c)), fs, [])
       else if cmd = ''remove'' then
         (if length a \<noteq> 2 then (Die Usage, fs, [])
          else case profile_remove (a ! 1) c of Inl e \<Rightarrow> (Die e, fs, []) | Inr c' \<Rightarrow> finish (writeConfig env c' fs) [])
       else if cmd = ''move'' then
         (if length a \<noteq> 4 then (Die Usage, fs, [])
          else case profile_move (a ! 1) (a ! 2) (a ! 3) c of Inl e \<Rightarrow> (Die e, fs, []) | Inr c' \<Rightarrow> finish (writeConfig env c' fs) [])
       else if cmd = ''set'' then
         (if length a \<noteq> 4 \<or> a ! 2 \<noteq> ''--control-url'' then (Die Usage, fs, [])
          else case profile_set (a ! 1) (a ! 3) c of Inl e \<Rightarrow> (Die e, fs, []) | Inr c' \<Rightarrow> finish (writeConfig env c' fs) [])
       else if cmd = ''add'' then
         (if length a < 2 then (Die Usage, fs, [])
          else case profile_add rnd (a ! 1) (drop 2 a) c of Inl x \<Rightarrow> (x, fs, [])
          | Inr (c', i) \<Rightarrow> finish (writeConfig env c' fs) [i])
       else (Die (UnknownCommand cmd), fs, [])))"

section \<open>Talking to the daemon\<close>

definition TrimSpace :: "string \<Rightarrow> string" where
  "TrimSpace s = rev (dropWhile is_space (rev (dropWhile is_space s)))"

text \<open>\<open>stdin\<close> is what can be read, if reading succeeds.\<close>

definition login_formal :: "string \<Rightarrow> flag_kind option" where
  "login_formal n = (if n = ''auth-key-stdin'' then Some BoolFlag else None)"

definition logout_formal :: "string \<Rightarrow> flag_kind option" where
  "logout_formal n = (if n = ''yes'' then Some BoolFlag else None)"

definition profileLogin :: "dm_result cli_env \<Rightarrow> string option \<Rightarrow> string list \<Rightarrow> cli_exit \<times> Request list" where
  "profileLogin env stdin a = (case cli_parse login_formal (drop 2 a) of Inl x \<Rightarrow> (x, [])
   | Inr (v, rest) \<Rightarrow>
     if rest \<noteq> [] then (Die UnexpectedArguments, [])
     else case (if bool_flag v ''auth-key-stdin'' then map_option (\<lambda>b. TrimSpace (take 16384 b)) stdin else Some []) of
         None \<Rightarrow> (Die ReadKeyFailed, [])
       | Some key \<Rightarrow> let req = \<lparr>Op = ''login'', Req_Profile = a ! 1, AuthKey = key, ConfigYAML = []\<rparr> in
         (case ClientRequest (c_dial env) (c_send env) (c_answer env) req of
            Inl e \<Rightarrow> (Die (RequestFailed e), if c_dial env \<and> c_send env then [req] else [])
          | Inr r \<Rightarrow> (Print (case Result r of Some (AuthURL u) \<Rightarrow> if u \<noteq> [] then [u] else [] | _ \<Rightarrow> []), [req])))"

definition profileLogout :: "dm_result cli_env \<Rightarrow> string list \<Rightarrow> cli_exit \<times> Request list" where
  "profileLogout env a = (case cli_parse logout_formal (drop 2 a) of Inl x \<Rightarrow> (x, [])
   | Inr (v, rest) \<Rightarrow>
     if rest \<noteq> [] then (Die UnexpectedArguments, [])
     else if \<not> bool_flag v ''yes'' then (Die ConfirmLogout, [])
     else let req = \<lparr>Op = ''logout'', Req_Profile = a ! 1, AuthKey = [], ConfigYAML = []\<rparr> in
       (case ClientRequest (c_dial env) (c_send env) (c_answer env) req of
          Inl e \<Rightarrow> (Die (RequestFailed e), if c_dial env \<and> c_send env then [req] else [])
        | Inr _ \<Rightarrow> (Print [], [req])))"

definition profileLive :: "dm_result cli_env \<Rightarrow> string option \<Rightarrow> string list \<Rightarrow> cli_exit \<times> Request list" where
  "profileLive env stdin a = (if length a < 2 then (Die Usage, [])
     else if a ! 0 = ''login'' then profileLogin env stdin a
     else if a ! 0 = ''logout'' then profileLogout env a
     else (Die (UnknownCommand (a ! 0)), []))"

subsection \<open>The status table\<close>

record statusRow =
  row_ProfileName :: string
  row_FQDN :: string
  row_CanonicalIP :: string
  row_Online :: string

definition status_row :: "Target \<Rightarrow> statusRow" where
  "status_row t = \<lparr>row_ProfileName = ProfileName t,
     row_FQDN = (if Kind t = Service then ID t else TrimSuffix (FQDN t) ''.''),
     row_CanonicalIP = addr_String (CanonicalIP t),
     row_Online = (if Kind t = Node then (if Online t then ''online'' else ''offline'') else ''-'')\<rparr>"

text \<open>The number of runes in a string, an invalid byte counting as one: \<^verbatim>\<open>fmt\<close> pads to this count.\<close>

definition cont :: "nat \<Rightarrow> nat \<Rightarrow> char \<Rightarrow> bool" where
  "cont lo hi c \<longleftrightarrow> lo \<le> (of_char c :: nat) \<and> (of_char c :: nat) \<le> hi"

definition rune_size :: "string \<Rightarrow> nat" where
  "rune_size s = (case s of [] \<Rightarrow> 0 | c # r \<Rightarrow> let n = of_char c :: nat;
       lo = (if n = 0xE0 then 0xA0 else if n = 0xF0 then 0x90 else 0x80);
       hi = (if n = 0xED then 0x9F else if n = 0xF4 then 0x8F else 0xBF);
       k = (if 0xC2 \<le> n \<and> n \<le> 0xDF then 1 else if 0xE0 \<le> n \<and> n \<le> 0xEF then 2 else if 0xF0 \<le> n \<and> n \<le> 0xF4 then 3 else 0) in
     if k \<le> length r \<and> (k = 0 \<or> cont lo hi (hd r)) \<and> list_all (cont 0x80 0xBF) (take (k - 1) (tl r)) then k + 1 else 1)"

function rune_count :: "string \<Rightarrow> nat" where
  "rune_count [] = 0"
| "rune_count (c # r) = 1 + rune_count (drop (rune_size (c # r)) (c # r))"
  by pat_completeness auto
termination
proof (relation "measure length")
  fix c :: char and r
  have "0 < rune_size (c # r)" by (simp add: rune_size_def Let_def)
  then show "(drop (rune_size (c # r)) (c # r), c # r) \<in> measure length" by simp
qed simp

definition pad :: "nat \<Rightarrow> string \<Rightarrow> string" where
  "pad w s = s @ replicate (w - rune_count s) CHR '' ''"

definition format_row :: "nat \<times> nat \<times> nat \<times> nat \<Rightarrow> statusRow \<Rightarrow> string" where
  "format_row ws r = (case ws of (pw, fw, iw, ow) \<Rightarrow> pad pw (row_ProfileName r) @ ''  '' @ pad fw (row_FQDN r) @ ''  ''
     @ pad iw (row_CanonicalIP r) @ ''  '' @ pad ow (row_Online r))"

definition header_row :: statusRow where
  "header_row = \<lparr>row_ProfileName = ''PROFILE_NAME'', row_FQDN = ''FQDN'', row_CanonicalIP = ''CANONICAL_IP'', row_Online = ''ONLINE''\<rparr>"

definition col_width :: "(statusRow \<Rightarrow> string) \<Rightarrow> statusRow list \<Rightarrow> nat" where
  "col_width f rows = foldl (\<lambda>w r. max w (length (f r))) (length (f header_row)) rows"

definition writeStatusTable :: "Target list \<Rightarrow> string list" where
  "writeStatusTable ts = (let rows = map status_row ts;
       ws = (col_width row_ProfileName rows, col_width row_FQDN rows, col_width row_CanonicalIP rows, col_width row_Online rows)
     in map (format_row ws) (header_row # rows))"

definition status_formal :: "string \<Rightarrow> flag_kind option" where
  "status_formal n = (if n = ''json'' then Some BoolFlag else None)"

definition statusCmd :: "dm_result cli_env \<Rightarrow> (dm_result option \<Rightarrow> string) \<Rightarrow> string list \<Rightarrow> cli_exit \<times> Request list" where
  "statusCmd env json args = (case cli_parse status_formal args of Inl x \<Rightarrow> (x, [])
   | Inr (v, rest) \<Rightarrow>
     if rest \<noteq> [] then (Die UnexpectedArguments, [])
     else let req = \<lparr>Op = ''status'', Req_Profile = [], AuthKey = [], ConfigYAML = []\<rparr> in
     (case Client (c_dial env) (c_send env) (c_answer env) ''status'' of
        Inl e \<Rightarrow> (Die (RequestFailed e), if c_dial env \<and> c_send env then [req] else [])
      | Inr r \<Rightarrow> if bool_flag v ''json'' then (Print [json (Result r)], [req])
          else (Print (writeStatusTable (case Result r of Some (StatusResult _ ts _ _) \<Rightarrow> ts | _ \<Rightarrow> [])), [req])))"

section \<open>Diagnosis and dispatch\<close>

record doc_env =
  o_ifaces :: "(string \<times> string list) list"
  o_routes :: "((string \<times> nat) option \<times> int) list"
  o_perm :: "string \<Rightarrow> nat option"
  o_rp_filter :: "string option"
  o_rules :: "string option"
  o_tailscale0 :: bool

datatype doc_line = OkConfig | WarnAddress prefix string | WarnRoute prefix int | OkPool | WarnPermissions string nat
  | WarnRpFilter char | OkRpFilter | WarnRule string | WarnTailscale0

definition doctor_addrs :: "Config \<Rightarrow> prefix \<Rightarrow> (string \<times> string list) list \<Rightarrow> doc_line list" where
  "doctor_addrs c pool ifs = concat (map (\<lambda>(l, as). if l = Interface c then [] else
     List.map_filter (\<lambda>a. case ParsePrefix a of None \<Rightarrow> None
       | Some p \<Rightarrow> if Is4 (PAddr p) \<and> pool_overlaps pool p then Some (WarnAddress p l) else None) as) ifs)"

definition doctor_routes :: "Config \<Rightarrow> prefix \<Rightarrow> ((string \<times> nat) option \<times> int) list \<Rightarrow> doc_line list" where
  "doctor_routes c pool rs = List.map_filter (\<lambda>(dst, t). case dst of None \<Rightarrow> None
     | Some (s, ones) \<Rightarrow> if ones = 0 \<or> t = RoutingTable c then None
         else (case ParsePrefix s of None \<Rightarrow> None
           | Some p \<Rightarrow> if pool_overlaps pool p then Some (WarnRoute p t) else None)) rs"

definition doctor_dirs :: "doc_env \<Rightarrow> Profile list \<Rightarrow> doc_line list" where
  "doctor_dirs env ps = List.map_filter (\<lambda>p. let d = StateDir p DefaultStateRoot in
     case o_perm env d of None \<Rightarrow> None | Some m \<Rightarrow> if m mod 64 \<noteq> 0 then Some (WarnPermissions d m) else None) ps"

definition doctor :: "(bytes \<Rightarrow> Config option) \<Rightarrow> files \<Rightarrow> string \<Rightarrow> doc_env \<Rightarrow> cli_error + doc_line list" where
  "doctor decode fs path env = (case Load decode fs path of Inl e \<Rightarrow> Inl (CfgError e)
   | Inr c \<Rightarrow> let pool = pool_of c; ov = doctor_addrs c pool (o_ifaces env) @ doctor_routes c pool (o_routes env) in
     Inr ([OkConfig] @ ov @ (if ov = [] then [OkPool] else []) @ doctor_dirs env (Profiles c)
       @ (case o_rp_filter env of Some (b # _) \<Rightarrow> if b \<noteq> CHR ''0'' then [WarnRpFilter b] else [OkRpFilter] | _ \<Rightarrow> [OkRpFilter])
       @ (case o_rules env of None \<Rightarrow> [] | Some out \<Rightarrow> map WarnRule (filter (\<lambda>l. HasPrefix l ''526'') (Split (CHR 0x0A) out)))
       @ (if o_tailscale0 env then [WarnTailscale0] else [])))"

text \<open>What the subcommands find besides the arguments, and how results are rendered.\<close>

record cli_in =
  i_random :: "bytes option"
  i_stdin :: "string option"
  i_render :: "dm_result option \<Rightarrow> string"
  i_doc :: doc_env
  i_lines :: "doc_line list \<Rightarrow> string list"
  i_version :: string

definition main_formal :: "string \<Rightarrow> flag_kind option" where
  "main_formal n = (if n = ''config'' \<or> n = ''socket'' then Some StringFlag else if n = ''version'' then Some BoolFlag else None)"

definition cli_command :: "dm_result cli_env \<Rightarrow> cli_in \<Rightarrow> string list \<Rightarrow> files \<Rightarrow> cli_exit \<times> files \<times> Request list" where
  "cli_command env i a fs =
    (case a of [] \<Rightarrow> (Die Usage, fs, [])
     | cmd # r \<Rightarrow>
       if cmd = ''validate'' then
         (case Load (c_decode env) fs (c_path env) of Inl e \<Rightarrow> (Die (CfgError e), fs, [])
          | Inr c \<Rightarrow> (Print [''valid: '' @ c_path env @ '' ('' @ dec (length (Profiles c)) @ '' profiles)''], fs, []))
       else if cmd = ''example-config'' then
         (Print (case Marshal (c_encode env) Default of None \<Rightarrow> [] | Some b \<Rightarrow> [bytes_str b]), fs, [])
       else if cmd = ''config'' then configCmd env r fs
       else if cmd = ''profiles'' then
         (if r \<noteq> [] \<and> (hd r = ''login'' \<or> hd r = ''logout'')
          then (case profileLive env (i_stdin i) r of (x, rs) \<Rightarrow> (x, fs, rs))
          else profilesCmd env (i_random i) r fs)
       else if cmd = ''doctor'' then
         (case doctor (c_decode env) fs (c_path env) (i_doc i) of Inl e \<Rightarrow> (Die e, fs, []) | Inr ls \<Rightarrow> (Print (i_lines i ls), fs, []))
       else if cmd = ''status'' then (case statusCmd env (i_render i) r of (x, rs) \<Rightarrow> (x, fs, rs))
       else if cmd = ''daemon'' then
         (if length a \<noteq> 2 \<or> a ! 1 \<noteq> ''restart'' then (Die Usage, fs, [])
          else let req = \<lparr>Op = ''restart'', Req_Profile = [], AuthKey = [], ConfigYAML = []\<rparr> in
            (case Client (c_dial env) (c_send env) (c_answer env) ''restart'' of
               Inl e \<Rightarrow> (Die (RequestFailed e), fs, if c_dial env \<and> c_send env then [req] else [])
             | Inr _ \<Rightarrow> (Print [], fs, [req])))
       else (Die (UnknownCommand cmd), fs, []))"

definition cli_main :: "dm_result cli_env \<Rightarrow> cli_in \<Rightarrow> string list \<Rightarrow> files \<Rightarrow> cli_exit \<times> files \<times> Request list" where
  "cli_main env i args fs = (case cli_parse main_formal args of Inl x \<Rightarrow> (x, fs, [])
   | Inr (v, a) \<Rightarrow>
     let env = env\<lparr>c_path := string_flag v ''config'' DefaultPath, c_sock := string_flag v ''socket'' ''/run/tailscale-multitail/control.sock''\<rparr> in
     if bool_flag v ''version'' then (if a \<noteq> [] then (Die Usage, fs, []) else (Print [i_version i], fs, []))
     else cli_command env i a fs)"

section \<open>Moving profiles\<close>

text \<open>Appending, copying and assigning inserts the element.\<close>

lemma insert_at_append: "insert_at z (length xs) x (xs @ ys) = xs @ x # ys"
  by (cases ys) (simp_all add: insert_at_def Let_def list_update_append)

lemma insert_at_eq: "pos \<le> length xs \<Longrightarrow> insert_at z pos x xs = take pos xs @ x # drop pos xs"
  using insert_at_append [of z "take pos xs" x "drop pos xs"] by simp

lemma remove_at_props:
  assumes "i < length xs"
  shows "mset (remove_at i xs) + {#xs ! i#} = mset xs" "length (remove_at i xs) = length xs - 1" "set (remove_at i xs) \<subseteq> set xs"
proof -
  have "xs = take i xs @ xs ! i # drop (i + 1) xs" using assms by (simp add: id_take_nth_drop)
  then have "mset xs = mset (take i xs @ xs ! i # drop (i + 1) xs)" by simp
  then show "mset (remove_at i xs) + {#xs ! i#} = mset xs" by (simp add: remove_at_def)
  show "length (remove_at i xs) = length xs - 1" using assms by (simp add: remove_at_def)
  show "set (remove_at i xs) \<subseteq> set xs" by (auto simp: remove_at_def dest: in_set_takeD in_set_dropD)
qed

text \<open>
  Moving a profile moves only it: on success the first profile with the name (ignoring case) is taken
  out and put back at the requested place - the given position, or directly before or after the
  reference - so that the others keep their order, no profile is lost, duplicated or changed, and
  nothing else of the configuration changes. A position that does not exist is refused.
\<close>

lemma profile_move_spec:
  assumes "profile_move name opt v c = Inr c'"
  shows "\<exists>i x rest pos. profileIndex c name = Some i \<and> x = Profiles c ! i \<and> rest = remove_at i (Profiles c) \<and> pos \<le> length rest
    \<and> c' = c\<lparr>Profiles := take pos rest @ x # drop pos rest\<rparr> \<and> mset (Profiles c') = mset (Profiles c)
    \<and> (opt = ''--position'' \<longrightarrow> Sscan v = Some (int pos))
    \<and> (opt = ''--before'' \<longrightarrow> pos < length rest \<and> EqualFold (Prof_Name (rest ! pos)) v)
    \<and> (opt = ''--after'' \<longrightarrow> 0 < pos \<and> EqualFold (Prof_Name (rest ! (pos - 1))) v)"
proof -
  obtain i where i: "profileIndex c name = Some i" using assms by (auto simp: profile_move_def split: option.splits)
  then have il: "i < length (Profiles c)" by (simp add: profileIndex_def index_where_bound)
  let ?x = "Profiles c ! i" and ?rest = "remove_at i (Profiles c)"
  let ?p = "if opt = ''--position'' then (case Sscan v of None \<Rightarrow> Inl BadPosition | Some n \<Rightarrow> Inr n)
      else if opt = ''--before'' \<or> opt = ''--after'' then
        (case profileIndex (c\<lparr>Profiles := ?rest\<rparr>) v of None \<Rightarrow> Inl ReferenceNotFound
         | Some j \<Rightarrow> Inr (int j + (if opt = ''--after'' then 1 else 0)))
      else Inl UnknownMoveOption"
  obtain pos where pos: "?p = Inr pos" "0 \<le> pos" "pos \<le> int (length ?rest)" "c' = c\<lparr>Profiles := insert_at nilProfile (nat pos) ?x ?rest\<rparr>"
    using assms i unfolding profile_move_def by (auto simp: Let_def split: sum.splits if_splits)
  have le: "nat pos \<le> length ?rest" using pos(2,3) by linarith
  have c': "c' = c\<lparr>Profiles := take (nat pos) ?rest @ ?x # drop (nat pos) ?rest\<rparr>" using pos(4) insert_at_eq [OF le] by simp
  have "mset (take n xs @ x # drop n xs) = mset xs + {#x#}" for n x and xs :: "Profile list"
    by (metis add_mset_add_single append_take_drop_id mset.simps(2) mset_append union_mset_add_mset_right)
  then have m: "mset (Profiles c') = mset (Profiles c)" using remove_at_props(1) [OF il] by (simp add: c')
  have posn: "opt = ''--position'' \<longrightarrow> Sscan v = Some (int (nat pos))" using pos(1,2) by (auto split: option.splits)
  have ref: "j < length ?rest \<and> EqualFold (Prof_Name (?rest ! j)) v" if "profileIndex (c\<lparr>Profiles := ?rest\<rparr>) v = Some j" for j
    using that index_where_bound by (fastforce simp: profileIndex_def)
  have "opt = ''--before'' \<longrightarrow> nat pos < length ?rest \<and> EqualFold (Prof_Name (?rest ! nat pos)) v"
    using pos(1) ref by (auto split: option.splits)
  moreover have "opt = ''--after'' \<longrightarrow> 0 < nat pos \<and> EqualFold (Prof_Name (?rest ! (nat pos - 1))) v"
    using pos(1) ref by (auto split: option.splits simp: nat_add_distrib)
  ultimately show ?thesis using i c' le m posn by blast
qed

section \<open>Identifiers\<close>

lemma high_nibble: "unat b div 16 = unat (drop_bit 4 b)" for b :: byte
  by (simp add: unat_drop_bit_eq drop_bit_nat_def)

lemma version_nibble: "unat ((b AND 0x0f) OR 0x40 :: byte) div 16 = 4"
proof -
  have "drop_bit 4 ((b AND 0x0f) OR 0x40) = (4 :: byte)" by (simp add: drop_bit_and drop_bit_or)
  then show ?thesis by (simp only: high_nibble) simp
qed

lemma variant_nibble: "unat ((b AND 0x3f) OR 0x80 :: byte) div 16 \<in> {8, 9, 10, 11}"
proof -
  have d: "drop_bit 4 ((b AND 0x3f) OR 0x80) = (drop_bit 4 b AND 3) OR (8 :: byte)" by (simp add: drop_bit_and drop_bit_or)
  have "drop_bit 4 b AND 3 \<in> {0, 1, 2, 3 :: byte}"
  proof -
    have "drop_bit 4 b AND 3 = take_bit 2 (drop_bit 4 b)" by (simp add: take_bit_eq_mask mask_numeral)
    then have "unat (drop_bit 4 b AND 3) < 4" by (simp add: unsigned_take_bit_eq take_bit_nat_less_exp [of 2, simplified])
    then have "unat (drop_bit 4 b AND 3) \<in> {0, 1, 2, 3}" by auto
    then show ?thesis by (auto simp: word_unat_eq_iff)
  qed
  then have "unat (drop_bit 4 ((b AND 0x3f) OR 0x80) :: byte) \<in> {8, 9, 10, 11}" unfolding d by auto
  then show ?thesis by (simp only: high_nibble)
qed

lemma list16: "length r = 16 \<Longrightarrow> \<exists>b0 b1 b2 b3 b4 b5 b6 b7 b8 b9 b10 b11 b12 b13 b14 b15. r = [b0, b1, b2, b3, b4, b5, b6, b7, b8, b9, b10, b11, b12, b13, b14, b15]"
  by (simp add: numeral_eq_Suc length_Suc_conv) blast

definition is_hex_char :: "char \<Rightarrow> bool" where "is_hex_char c \<longleftrightarrow> (\<exists>n < 16. c = digit_char n)"

lemma is_hex_digit [simp]: "n < 16 \<Longrightarrow> is_hex_char (digit_char n)"
  by (auto simp: is_hex_char_def)

lemma hex_nibbles: "unat b div 16 < 16" "unat b mod 16 < 16" for b :: byte
  using unat_byte_lt [of b] by simp_all

lemma digit_chars: "digit_char 4 = CHR ''4''" "digit_char 8 = CHR ''8''" "digit_char 9 = CHR ''9''" "digit_char 10 = CHR ''a''" "digit_char 11 = CHR ''b''"
  by code_simp+

lemma digit_char_not: "n < 16 \<Longrightarrow> digit_char n \<noteq> CHR ''-''" "n < 16 \<Longrightarrow> digit_char n \<noteq> CHR ''.''"
  using of_char_digit_char [of n] by (auto split: if_splits)

lemma newID_eq:
  assumes "r = [b0, b1, b2, b3, b4, b5, b6, b7, b8, b9, b10, b11, b12, b13, b14, b15]"
  shows "newID r = hex_byte b0 @ hex_byte b1 @ hex_byte b2 @ hex_byte b3 @ ''-'' @ hex_byte b4 @ hex_byte b5 @ ''-''
    @ hex_byte ((b6 AND 0x0f) OR 0x40) @ hex_byte b7 @ ''-'' @ hex_byte ((b8 AND 0x3f) OR 0x80) @ hex_byte b9 @ ''-''
    @ hex_byte b10 @ hex_byte b11 @ hex_byte b12 @ hex_byte b13 @ hex_byte b14 @ hex_byte b15"
  by (simp add: assms newID_def Let_def)

text \<open>
  C37: identifiers of new profiles are well formed: 36 characters, hexadecimal except for the four dashes,
  with the version and variant digits of a random UUID; they are plain path elements, so the state
  directory of a profile created by the client lies directly below the state root; and two of them are
  equal only if the random bytes agree outside the six fixed bits.
\<close>

theorem newID_well_formed:
  assumes "length r = 16"
  shows "length (newID r) = 36 \<and> (\<forall>i < 36. if i \<in> {8, 13, 18, 23} then newID r ! i = CHR ''-'' else is_hex_char (newID r ! i))
    \<and> newID r ! 14 = CHR ''4'' \<and> newID r ! 19 \<in> set ''89ab'' \<and> plain_elem (newID r)
    \<and> (\<forall>r'. length r' = 16 \<longrightarrow> newID r' = newID r \<longrightarrow> (\<forall>i < 16. if i = 6 then r' ! i AND 0x0f = r ! i AND 0x0f
         else if i = 8 then r' ! i AND 0x3f = r ! i AND 0x3f else r' ! i = r ! i))"
proof -
  obtain b0 b1 b2 b3 b4 b5 b6 b7 b8 b9 b10 b11 b12 b13 b14 b15 where r: "r = [b0, b1, b2, b3, b4, b5, b6, b7, b8, b9, b10, b11, b12, b13, b14, b15]"
    using list16 [OF assms] by blast
  note id = newID_eq [OF r]
  have len: "length (newID r) = 36" by (simp add: id hex_byte_def)
  have chars: "\<forall>i \<in> set [0..<36]. if i \<in> {8, 13, 18, 23} then newID r ! i = CHR ''-'' else is_hex_char (newID r ! i)"
    by (simp add: id hex_byte_def upt_conv_Cons hex_nibbles)
  have v: "newID r ! 14 = CHR ''4''" by (simp add: id hex_byte_def version_nibble digit_chars)
  have "newID r ! 19 = digit_char (unat ((b8 AND 0x3f) OR 0x80) div 16)" by (simp add: id hex_byte_def)
  with variant_nibble [of b8] have w: "newID r ! 19 \<in> set ''89ab''" by (auto simp: digit_chars)
  have "CHR ''/'' \<notin> set (newID r)" by (auto simp: id hex_byte_def hex_nibbles digit_char_not_slash)
  then have p: "plain_elem (newID r)" using len by (auto simp: plain_elem_def)
  have inj: "\<forall>i \<in> set [0..<16]. if i = 6 then r' ! i AND 0x0f = r ! i AND 0x0f else if i = 8 then r' ! i AND 0x3f = r ! i AND 0x3f else r' ! i = r ! i"
    if "length r' = 16" "newID r' = newID r" for r'
  proof -
    note l = that(1) and eq = that(2)
    obtain c0 c1 c2 c3 c4 c5 c6 c7 c8 c9 c10 c11 c12 c13 c14 c15 where r': "r' = [c0, c1, c2, c3, c4, c5, c6, c7, c8, c9, c10, c11, c12, c13, c14, c15]"
      using list16 [OF l] by blast
    have hl: "length (hex_byte x) = 2" for x by (simp add: hex_byte_def)
    have e: "c0 = b0" "c1 = b1" "c2 = b2" "c3 = b3" "c4 = b4" "c5 = b5" "(c6 AND 0x0f) OR 0x40 = (b6 AND 0x0f) OR 0x40" "c7 = b7"
      "(c8 AND 0x3f) OR 0x80 = (b8 AND 0x3f) OR 0x80" "c9 = b9" "c10 = b10" "c11 = b11" "c12 = b12" "c13 = b13" "c14 = b14" "c15 = b15"
      using eq by (simp_all add: id newID_eq [OF r'] append_eq_append_conv hl)
    have "c6 AND 0x0f = b6 AND 0x0f" using arg_cong [OF e(7), of "\<lambda>x. x AND 0x0f"] by (simp add: bit.conj_disj_distrib2 and.assoc)
    moreover have "c8 AND 0x3f = b8 AND 0x3f" using arg_cong [OF e(9), of "\<lambda>x. x AND 0x3f"] by (simp add: bit.conj_disj_distrib2 and.assoc)
    ultimately show ?thesis using e by (simp add: r r' upt_conv_Cons)
  qed
  have inj': "\<forall>r'. length r' = 16 \<longrightarrow> newID r' = newID r \<longrightarrow> (\<forall>i < 16. if i = 6 then r' ! i AND 0x0f = r ! i AND 0x0f
      else if i = 8 then r' ! i AND 0x3f = r ! i AND 0x3f else r' ! i = r ! i)" using inj by simp
  show ?thesis by (intro conjI len v w p inj') (use chars in simp)
qed

theorem newID_well_formed_witness:
  "length (replicate 16 (0xff :: byte)) = 16 \<and> length (newID (replicate 16 0xff)) = 36 \<and> newID (replicate 16 0xff) ! 14 = CHR ''4''
   \<and> plain_elem (newID (replicate 16 0xff))"
proof -
  have "length (replicate 16 (0xff :: byte)) = 16" by simp
  from newID_well_formed [OF this] show ?thesis by simp
qed

definition ex_move :: Config where
  "ex_move = Default\<lparr>Profiles := [nilProfile\<lparr>Prof_ID := ''1'', Prof_Name := ''work'', Hostname := ''h''\<rparr>,
     nilProfile\<lparr>Prof_ID := ''2'', Prof_Name := ''home'', Hostname := ''h''\<rparr>, nilProfile\<lparr>Prof_ID := ''3'', Prof_Name := ''lab'', Hostname := ''h''\<rparr>]\<rparr>"

section \<open>What the client changes and asks\<close>

definition request_ok :: "'r cli_env \<Rightarrow> Request \<Rightarrow> bool" where
  "request_ok env r \<longleftrightarrow> Op r \<in> {''status'', ''restart'', ''login'', ''logout'', ''config_write''} \<and> length (AuthKey r) \<le> 16384
     \<and> (AuthKey r \<noteq> [] \<longrightarrow> Op r = ''login'')
     \<and> (ConfigYAML r \<noteq> [] \<longrightarrow> Op r = ''config_write'' \<and> (\<exists>c b. c_encode env c = Some b \<and> ConfigYAML r = bytes_str b))"

text \<open>The effect of a command: at most one of a local write of a valid configuration and a request.\<close>

definition cli_effect :: "'r cli_env \<Rightarrow> files \<Rightarrow> cli_exit \<times> files \<times> Request list \<Rightarrow> bool" where
  "cli_effect env fs = (\<lambda>(x, fs', rs).
     (fmlookup fs' (c_path env) = fmlookup fs (c_path env)
      \<or> (\<exists>out. x = Print out) \<and> \<not> c_stat env (c_sock env) \<and> (\<exists>c b. valid_config c \<and> c_encode env c = Some b \<and> fmlookup fs' (c_path env) = Some b))
     \<and> (\<forall>q. q \<notin> {c_path env, c_path env @ ''.lock'', c_tmp env} \<longrightarrow> fmlookup fs' q = fmlookup fs q)
     \<and> (rs = [] \<or> fs' = fs \<and> (\<exists>r. rs = [r] \<and> request_ok env r)))"

lemma cli_effect_none [simp]: "cli_effect env fs (x, fs, [])"
  by (simp add: cli_effect_def)

lemma cli_effect_request [intro]: "request_ok env r \<Longrightarrow> cli_effect env fs (x, fs, [r])"
  by (simp add: cli_effect_def)

lemma cli_effect_if: "cli_effect env fs p \<Longrightarrow> cli_effect env fs q \<Longrightarrow> cli_effect env fs (if b then p else q)"
  by simp

lemma cli_effect_sum: "(\<And>x. cli_effect env fs (f x)) \<Longrightarrow> (\<And>y. cli_effect env fs (g y)) \<Longrightarrow> cli_effect env fs (case s of Inl x \<Rightarrow> f x | Inr y \<Rightarrow> g y)"
  by (cases s) simp_all

lemma cli_effect_option: "cli_effect env fs p \<Longrightarrow> (\<And>y. cli_effect env fs (g y)) \<Longrightarrow> cli_effect env fs (case s of None \<Rightarrow> p | Some y \<Rightarrow> g y)"
  by (cases s) simp_all

lemma cli_effect_list: "cli_effect env fs p \<Longrightarrow> (\<And>y ys. cli_effect env fs (g y ys)) \<Longrightarrow> cli_effect env fs (case s of [] \<Rightarrow> p | y # ys \<Rightarrow> g y ys)"
  by (cases s) simp_all

lemma cli_effect_prod: "(\<And>x y. cli_effect env fs (g x y)) \<Longrightarrow> cli_effect env fs (case s of (x, y) \<Rightarrow> g x y)"
  by (cases s) simp_all

lemmas cli_effects = cli_effect_none cli_effect_if cli_effect_sum cli_effect_option cli_effect_list

lemma WriteAtomic_others:
  assumes "WriteAtomic encode fault tmp part path c fs = (r, states)" "q \<notin> {path, path @ ''.lock'', tmp}"
  shows "fmlookup (last states) q = fmlookup fs q"
  using assms unfolding WriteAtomic_def Let_def by (auto split: if_splits option.splits)

lemma WriteAtomic_encoded: "WriteAtomic encode fault tmp part path c fs = (None, states) \<Longrightarrow> encode c \<noteq> None"
  unfolding WriteAtomic_def Let_def Marshal_def by (auto split: if_splits option.splits)

lemma writeConfig_effect:
  assumes "c_tmp env |\<notin>| fmdom fs" "c_tmp env \<noteq> c_path env" "c_tmp env \<noteq> c_path env @ ''.lock''"
  shows "cli_effect env fs (finish (writeConfig env c fs) out)"
proof (cases "c_stat env (c_sock env)")
  case True
  have "request_ok env \<lparr>Op = ''config_write'', Req_Profile = [], AuthKey = [], ConfigYAML = bytes_str b\<rparr>" if "Marshal (c_encode env) c = Some b" for b
    using that by (auto simp: request_ok_def Marshal_def)
  with True show ?thesis
    by (auto simp: writeConfig_def finish_def Let_def split: option.splits sum.splits)
next
  case False
  obtain e fss where w: "WriteAtomic (c_encode env) (c_faults env) (c_tmp env) (c_part env) (c_path env) c fs = (e, fss)" by force
  note p = WriteAtomic_path [OF assms w] and o = WriteAtomic_others [OF w]
  show ?thesis
  proof (cases e)
    case None
    have "valid_config c" "fmlookup (last fss) (c_path env) = c_encode env c" using p None by simp_all
    moreover have "c_encode env c \<noteq> None" using w None WriteAtomic_encoded by fastforce
    ultimately show ?thesis using False None o by (auto simp: writeConfig_def w finish_def cli_effect_def)
  next
    case (Some x)
    then show ?thesis using False p o by (auto simp: writeConfig_def w finish_def cli_effect_def)
  qed
qed

lemma TrimSpace_length: "length (TrimSpace s) \<le> length s"
  using length_dropWhile_le [of is_space s] length_dropWhile_le [of is_space "rev (dropWhile is_space s)"] by (simp add: TrimSpace_def)

lemma profileLive_effect: "profileLive env stdin a = (x, rs) \<Longrightarrow> cli_effect env fs (x, fs, rs)"
proof -
  have k: "length (TrimSpace (take 16384 b)) \<le> 16384" for b using TrimSpace_length [of "take 16384 b"] by simp
  have "cli_effect env fs (x, fs, rs)" if "profileLogin env stdin a = (x, rs)"
  proof -
    have "request_ok env \<lparr>Op = ''login'', Req_Profile = p, AuthKey = key, ConfigYAML = []\<rparr>" if "length key \<le> 16384" for p key
      using that by (simp add: request_ok_def)
    with that show ?thesis unfolding profileLogin_def Let_def
      by (auto simp: k split: sum.splits prod.splits if_splits option.splits)
  qed
  moreover have "cli_effect env fs (x, fs, rs)" if "profileLogout env a = (x, rs)"
  proof -
    have "request_ok env \<lparr>Op = ''logout'', Req_Profile = a ! 1, AuthKey = [], ConfigYAML = []\<rparr>" by (simp add: request_ok_def)
    with that show ?thesis unfolding profileLogout_def Let_def
      by (auto split: sum.splits prod.splits if_splits)
  qed
  ultimately show "profileLive env stdin a = (x, rs) \<Longrightarrow> cli_effect env fs (x, fs, rs)"
    by (auto simp: profileLive_def split: if_splits)
qed

lemma simple_request: "op \<in> {''status'', ''restart''} \<Longrightarrow> request_ok env \<lparr>Op = op, Req_Profile = [], AuthKey = [], ConfigYAML = []\<rparr>"
  by (auto simp: request_ok_def)

lemma statusCmd_effect: "statusCmd env json a = (x, rs) \<Longrightarrow> cli_effect env fs (x, fs, rs)"
  unfolding statusCmd_def Let_def
  by (auto intro: simple_request split: sum.splits prod.splits if_splits)

lemma cli_command_effect:
  assumes "c_tmp env |\<notin>| fmdom fs" "c_tmp env \<noteq> c_path env" "c_tmp env \<noteq> c_path env @ ''.lock''"
  shows "cli_effect env fs (cli_command env i a fs)"
proof -
  note w = writeConfig_effect [OF assms]
  have "cli_effect env fs (configCmd env r fs)" for r unfolding configCmd_def by (intro cli_effects w)
  moreover have "cli_effect env fs (profilesCmd env rnd r fs)" for rnd r unfolding profilesCmd_def by (intro cli_effects cli_effect_prod w)
  moreover have "cli_effect env fs (case profileLive env s r of (x, rs) \<Rightarrow> (x, fs, rs))" for s r
    by (cases "profileLive env s r") (simp add: profileLive_effect)
  moreover have "cli_effect env fs (case statusCmd env j r of (x, rs) \<Rightarrow> (x, fs, rs))" for j r
    by (cases "statusCmd env j r") (simp add: statusCmd_effect)
  moreover have "cli_effect env fs (x, fs, if b then [\<lparr>Op = ''restart'', Req_Profile = [], AuthKey = [], ConfigYAML = []\<rparr>] else [])" for b x
    by (auto intro: simple_request)
  moreover from this [of _ True] have "cli_effect env fs (x, fs, [\<lparr>Op = ''restart'', Req_Profile = [], AuthKey = [], ConfigYAML = []\<rparr>])" for x
    by simp
  ultimately show ?thesis unfolding cli_command_def Let_def by (intro cli_effects)
qed

definition cli_path :: "string list \<Rightarrow> string" where
  "cli_path args = (case cli_parse main_formal args of Inl _ \<Rightarrow> DefaultPath | Inr (v, _) \<Rightarrow> string_flag v ''config'' DefaultPath)"

text \<open>
  C10: the client changes the configuration only to a valid one: whatever its arguments, the file that
  \<^verbatim>\<open>--config\<close> names is untouched or, when the command succeeded, holds the encoding of a valid
  configuration; no other file but the lock and the temporary file changes; and a command that talks to
  the daemon changes no file and sends one request of a known operation, with an auth key of at most
  16384 bytes only in a login and a configuration only in a \<^verbatim>\<open>config_write\<close>.
\<close>

theorem cli_writes_valid_config:
  assumes "c_tmp env |\<notin>| fmdom fs" "c_tmp env \<noteq> cli_path args" "c_tmp env \<noteq> cli_path args @ ''.lock''"
    and "cli_main env i args fs = (x, fs', rs)"
  shows "(fmlookup fs' (cli_path args) = fmlookup fs (cli_path args)
      \<or> rs = [] \<and> (\<exists>out. x = Print out) \<and> (\<exists>c b. valid_config c \<and> c_encode env c = Some b \<and> fmlookup fs' (cli_path args) = Some b))
    \<and> (\<forall>q. q \<notin> {cli_path args, cli_path args @ ''.lock'', c_tmp env} \<longrightarrow> fmlookup fs' q = fmlookup fs q)
    \<and> (rs = [] \<or> fs' = fs \<and> (\<exists>r. rs = [r] \<and> Op r \<in> {''status'', ''restart'', ''login'', ''logout'', ''config_write''}
         \<and> length (AuthKey r) \<le> 16384 \<and> (AuthKey r \<noteq> [] \<longrightarrow> Op r = ''login'') \<and> (ConfigYAML r \<noteq> [] \<longrightarrow> Op r = ''config_write'')))"
proof (cases "cli_parse main_formal args")
  case (Inl y)
  then show ?thesis using assms(4) by (simp add: cli_main_def)
next
  case (Inr va)
  then obtain v a where va: "cli_parse main_formal args = Inr (v, a)" by (cases va) auto
  let ?env = "env\<lparr>c_path := string_flag v ''config'' DefaultPath, c_sock := string_flag v ''socket'' ''/run/tailscale-multitail/control.sock''\<rparr>"
  have p: "c_path ?env = cli_path args" by (simp add: cli_path_def va)
  have "cli_effect ?env fs (cli_command ?env i a fs)"
    by (rule cli_command_effect) (use assms(1-3) p in simp_all)
  then have "cli_effect ?env fs (x, fs', rs)"
    using assms(4) by (auto simp: cli_main_def va Let_def split: if_splits)
  moreover have "c_encode ?env = c_encode env" "c_tmp ?env = c_tmp env" by simp_all
  ultimately show ?thesis unfolding cli_effect_def request_ok_def p by auto
qed

section \<open>Alignment of the status table\<close>

text \<open>A space is a rune of its own, also after an incomplete sequence.\<close>

lemma not_cont_space: "0x80 \<le> l \<Longrightarrow> \<not> cont l u CHR '' ''"
  by (simp add: cont_def)

lemma continued_space:
  assumes "0x80 \<le> l"
  shows "Suc m \<le> length (r @ CHR '' '' # t) \<and> cont l u (hd (r @ CHR '' '' # t)) \<and> list_all (cont 0x80 0xBF) (take m (tl (r @ CHR '' '' # t)))
     \<longleftrightarrow> Suc m \<le> length r \<and> cont l u (hd r) \<and> list_all (cont 0x80 0xBF) (take m (tl r))"
proof (cases r)
  case Nil
  then show ?thesis using not_cont_space [OF assms] by simp
next
  case (Cons x xs)
  have "\<not> list_all (cont 0x80 0xBF) (take m (xs @ CHR '' '' # t))" if "length xs < m"
    using that not_cont_space [of "0x80" "0xBF"] by (cases "m - length xs") simp_all
  then show ?thesis using Cons by (cases "length xs < m") auto
qed

lemma rune_size_space: "rune_size (c # r @ CHR '' '' # t) = rune_size (c # r)"
proof -
  have k: "(k \<le> length (r @ CHR '' '' # t) \<and> (k = 0 \<or> cont l u (hd (r @ CHR '' '' # t))) \<and> list_all (cont 0x80 0xBF) (take (k - 1) (tl (r @ CHR '' '' # t))))
      \<longleftrightarrow> (k \<le> length r \<and> (k = 0 \<or> cont l u (hd r)) \<and> list_all (cont 0x80 0xBF) (take (k - 1) (tl r)))" if "0x80 \<le> l" for k l u
    using continued_space [OF that] by (cases k) auto
  show ?thesis unfolding rune_size_def Let_def list.case by (subst k) simp_all
qed

lemma rune_size_bounds: "0 < rune_size (c # r)" "rune_size (c # r) \<le> Suc (length r)"
  by (simp_all add: rune_size_def Let_def)

lemma rune_count_space: "rune_count (s @ CHR '' '' # t) = rune_count s + 1 + rune_count t"
proof (induction s rule: rune_count.induct)
  case 1
  have "rune_size (CHR '' '' # t) = 1" by (simp add: rune_size_def Let_def)
  then show ?case by simp
next
  case (2 c r)
  have "drop (rune_size (c # r)) ((c # r) @ CHR '' '' # t) = drop (rune_size (c # r)) (c # r) @ CHR '' '' # t"
    using rune_size_bounds(2) [of c r] by (simp only: drop_append) simp
  with 2 show ?case by (simp add: rune_size_space)
qed

lemma rune_count_spaces: "rune_count (s @ replicate n CHR '' '') = rune_count s + n"
proof (induction n arbitrary: s)
  case (Suc n)
  then show ?case using Suc [of "[]"] by (simp add: rune_count_space)
qed simp

lemma rune_count_le: "rune_count s \<le> length s"
proof (induction s rule: rune_count.induct)
  case (2 c r)
  then show ?case using rune_size_bounds [of c r] by (simp only: rune_count.simps length_drop list.size)
qed simp

lemma rune_count_pad: "length s \<le> w \<Longrightarrow> rune_count (pad w s) = w"
  using rune_count_le [of s] by (simp add: pad_def rune_count_spaces)

lemma col_width_ge:
  "length (f header_row) \<le> col_width f rows" "r \<in> set rows \<Longrightarrow> length (f r) \<le> col_width f rows"
proof -
  have "w \<le> foldl (\<lambda>w r. max w (length (f r))) w rows \<and> (\<forall>r \<in> set rows. length (f r) \<le> foldl (\<lambda>w r. max w (length (f r))) w rows)" for w
    by (induction rows arbitrary: w) (auto simp: max.coboundedI2 intro: order_trans [OF max.cobounded1] order_trans [OF max.cobounded2])
  then show "length (f header_row) \<le> col_width f rows" "r \<in> set rows \<Longrightarrow> length (f r) \<le> col_width f rows" by (simp_all add: col_width_def)
qed

text \<open>
  The table is aligned: one line per target below the header, all of the same width counted in
  characters, for any names (also ones that are not ASCII or not even UTF-8).
\<close>

lemma status_table_aligned:
  "length (writeStatusTable ts) = length ts + 1 \<and> (\<forall>l \<in> set (writeStatusTable ts). \<forall>m \<in> set (writeStatusTable ts). rune_count l = rune_count m)"
proof -
  let ?rows = "map status_row ts"
  let ?w = "\<lambda>f. col_width f ?rows"
  have "rune_count (format_row (?w row_ProfileName, ?w row_FQDN, ?w row_CanonicalIP, ?w row_Online) r)
      = ?w row_ProfileName + ?w row_FQDN + ?w row_CanonicalIP + ?w row_Online + 6" if "r \<in> set (header_row # ?rows)" for r
  proof -
    have "length (f r) \<le> ?w f" for f using that col_width_ge [where f = f and rows = ?rows] by (cases "r = header_row") auto
    then have p: "rune_count (pad (?w f) (f r)) = ?w f" for f by (simp add: rune_count_pad)
    have two: "rune_count (s @ '' '' @ '' '' @ t) = rune_count s + 2 + rune_count t" for s t
      by (simp add: rune_count_space rune_count_space [of "[]", simplified])
    show ?thesis unfolding format_row_def prod.case
      by (simp only: two [simplified, unfolded append_Cons append_Nil] append_Cons append_Nil p)
  qed
  then have "\<forall>l \<in> set (writeStatusTable ts). rune_count l = ?w row_ProfileName + ?w row_FQDN + ?w row_CanonicalIP + ?w row_Online + 6"
    unfolding writeStatusTable_def Let_def by auto
  then show ?thesis by (simp add: writeStatusTable_def Let_def)
qed

section \<open>The two ways of writing\<close>

lemma byte_char [simp]: "of_char (char_of (unat x)) = x" for x :: byte
proof -
  have "of_char (char_of (unat x)) = (of_nat (of_char (char_of (unat x))) :: byte)" by (rule of_nat_of_char [symmetric])
  also have "\<dots> = of_nat (unat x)" using unat_byte_lt [of x] by simp
  finally show ?thesis by simp
qed

lemma str_bytes_bytes_str [simp]: "map (of_char \<circ> (\<lambda>x. char_of (unat x))) b = b" for b :: bytes
  by (simp add: comp_def)

lemma config_write_handled:
  assumes "peercred cn = Some cr" "cred_uid cr = 0" "syscall_conn cn" "\<And>k. deadline_ok cn k"
    and "rdecode (take 1048576 (incoming cn)) = Some req" "validRequest req" "Op req = ''config_write''"
  shows "\<exists>caller. Root caller \<and> handle rdecode (daemon_handler denv) gid cn d = (let (r, d') = daemon_handler denv caller req d in (Some r, d'))"
proof -
  obtain caller where "authorized cn gid = Some caller" "Root caller"
    using assms(1-3) by (auto simp: authorized_def)
  then show ?thesis using assms(4-6) by (auto simp: handle_def split: prod.split)
qed

text \<open>
  C11: a change goes the same way with and without a daemon: for root, when the decoder inverts the encoder
  and the configuration fits into a request, writing through the control socket of a daemon that uses the
  same file succeeds exactly when a direct write does, and leaves the same content in the
  configuration file; the client itself touches no file.
\<close>

theorem socket_write_equals_local:
  assumes conn: "peercred cn = Some cr" "cred_uid cr = 0" "syscall_conn cn" "\<And>k. deadline_ok cn k"
      "\<And>b. c_encode env c = Some b \<Longrightarrow> rdecode (take 1048576 (incoming cn)) = Some (write_request b)"
    and daemon: "config_path (dm_flags d) = c_path env" "dm_files d = fs"
      "e_encode denv = c_encode env" "e_write_faults denv = c_faults env" "e_tmp denv = c_tmp env" "e_part denv = c_part env"
    and client: "c_stat env (c_sock env)" "c_dial env" "c_send env"
      "\<And>b. c_encode env c = Some b \<Longrightarrow> c_answer env (write_request b) = fst (handle rdecode (daemon_handler denv) gid cn d)"
    and codec: "\<And>b. c_encode env c = Some b \<Longrightarrow> length b \<le> 1048576 \<and> e_decode denv b = Some c"
    and tmp: "c_tmp env |\<notin>| fmdom fs" "c_tmp env \<noteq> c_path env" "c_tmp env \<noteq> c_path env @ ''.lock''"
    and via: "writeConfig env c fs = (e, fs', rs)"
    and direct: "writeConfig (env\<lparr>c_stat := (\<lambda>_. False)\<rparr>) c fs = (e0, fs0, rs0)"
  shows "fs' = fs \<and> (e = None \<longleftrightarrow> e0 = None) \<and> (c_encode env c = None \<longrightarrow> e \<noteq> None)
    \<and> (c_encode env c \<noteq> None \<longrightarrow> (\<exists>b. c_encode env c = Some b \<and> rs = [write_request b])
         \<and> fmlookup (dm_files (snd (handle rdecode (daemon_handler denv) gid cn d))) (c_path env) = fmlookup fs0 (c_path env))"
proof -
  obtain w fss where w: "WriteAtomic (c_encode env) (c_faults env) (c_tmp env) (c_part env) (c_path env) c fs = (w, fss)" by force
  have local: "e0 = map_option CfgError w" "fs0 = last fss" using direct by (simp_all add: writeConfig_def w)
  show ?thesis
  proof (cases "c_encode env c")
    case None
    then have "w \<noteq> None" using w WriteAtomic_encoded by fastforce
    with None via client(1) local show ?thesis by (auto simp: writeConfig_def Marshal_def)
  next
    case (Some b)
    let ?req = "write_request b"
    have valid: "validRequest ?req" using codec [OF Some] by (simp add: validRequest_def)
    obtain caller where caller: "Root caller" and h: "handle rdecode (daemon_handler denv) gid cn d
        = (let (r, d') = daemon_handler denv caller ?req d in (Some r, d'))"
      using config_write_handled [of cn cr rdecode ?req denv gid d] conn(1-4) conn(5) [OF Some] valid by auto
    have p: "Parse (e_decode denv) b = (case Validate c of Some e \<Rightarrow> Inl e | None \<Rightarrow> Inr c)"
      using codec [OF Some] by (simp add: Parse_def)
    have sent: "writeConfig env c fs = (case ClientRequest True True (c_answer env) ?req of Inl e \<Rightarrow> (Some (RequestFailed e), fs, [?req]) | Inr _ \<Rightarrow> (None, fs, [?req]))"
      using Some client(1-3) by (simp add: writeConfig_def Marshal_def Let_def split: sum.split)
    note wp = WriteAtomic_path [OF tmp w]
    show ?thesis
    proof (cases "Validate c")
      case None
      then have "daemon_handler denv caller ?req d = (case w of Some e \<Rightarrow> (failed (e_text denv (ConfigError e)), d\<lparr>dm_files := last fss\<rparr>)
          | None \<Rightarrow> (succeeded None, d\<lparr>dm_files := last fss\<rparr>))"
        using caller daemon w p by (auto simp: daemon_handler_def split: option.split)
      then show ?thesis using via Some local
        by (cases w) (auto simp: sent ClientRequest_def client(4) [OF \<open>c_encode env c = Some b\<close>] h failed_def succeeded_def)
    next
      case (Some x)
      then have "daemon_handler denv caller ?req d = (failed (e_text denv (ConfigError x)), d)"
        using caller p by (simp add: daemon_handler_def)
      moreover have "w \<noteq> None" using wp Some by (auto simp: simp flip: Validate_None_iff)
      ultimately show ?thesis using via \<open>c_encode env c = Some b\<close> local wp daemon(2)
        by (auto simp: sent ClientRequest_def client(4) [OF \<open>c_encode env c = Some b\<close>] h failed_def)
    qed
  qed
qed

section \<open>Diagnosis\<close>

definition ipv4_text :: "string \<Rightarrow> bool" where
  "ipv4_text a \<longleftrightarrow> (case ParsePrefix a of None \<Rightarrow> False | Some p \<Rightarrow> Is4 (PAddr p))"

lemma doctor_addrs_Nil:
  "doctor_addrs c pool ifs = [] \<longleftrightarrow> links_overlap (Interface c) pool (map (\<lambda>(l, as). (l, filter ipv4_text as)) ifs) = None"
proof -
  have "doctor_addrs c pool ifs = [] \<longleftrightarrow> (\<forall>(l, as) \<in> set ifs. l \<noteq> Interface c \<longrightarrow> (\<forall>a \<in> set as. \<forall>p. ParsePrefix a = Some p \<longrightarrow> Is4 (PAddr p) \<longrightarrow> \<not> pool_overlaps pool p))"
    unfolding doctor_addrs_def by (force simp: List.map_filter_def filter_empty_conv split: option.splits if_splits)
  then show ?thesis unfolding links_overlap_None by (force simp: ipv4_text_def split: option.splits)
qed

lemma doctor_routes_Nil: "doctor_routes c pool rs = [] \<longleftrightarrow> routes_overlap (RoutingTable c) pool rs = None"
  unfolding doctor_routes_def routes_overlap_None
  by (force simp: List.map_filter_def filter_empty_conv split: option.splits if_splits)

text \<open>
  C38: \<^verbatim>\<open>doctor\<close> and the daemon agree on the pool: when both see the same interfaces and routes (the
  daemon only the IPv4 addresses), \<^verbatim>\<open>doctor\<close> reports a pool without overlap exactly when the check
  that the daemon makes before it creates the device passes, and it warns of \<^verbatim>\<open>tailscale0\<close> exactly
  when the daemon would refuse to start because of it.
\<close>

theorem doctor_agrees_with_daemon:
  assumes "doctor decode fs path env = Inr out" "Load decode fs path = Inr c"
    and "link_addrs he = Some (map (\<lambda>(l, as). (l, filter ipv4_text as)) (o_ifaces env))" "route_list he = Some (o_routes env)" "tailscale0 he = o_tailscale0 env"
  shows "(OkPool \<in> set out \<longleftrightarrow> CheckPoolOverlap he (Interface c) (RoutingTable c) (pool_of c) = None)
    \<and> (WarnTailscale0 \<in> set out \<longleftrightarrow> CheckNativeTailscale he = Some NativeInterface)"
proof -
  let ?ov = "doctor_addrs c (pool_of c) (o_ifaces env) @ doctor_routes c (pool_of c) (o_routes env)"
  let ?warned = "doctor_dirs env (Profiles c)
    @ (case o_rp_filter env of Some (b # _) \<Rightarrow> if b \<noteq> CHR ''0'' then [WarnRpFilter b] else [OkRpFilter] | _ \<Rightarrow> [OkRpFilter])
    @ (case o_rules env of None \<Rightarrow> [] | Some out \<Rightarrow> map WarnRule (filter (\<lambda>l. HasPrefix l ''526'') (Split (CHR 0x0A) out)))"
  have out: "out = [OkConfig] @ ?ov @ (if ?ov = [] then [OkPool] else []) @ ?warned @ (if o_tailscale0 env then [WarnTailscale0] else [])"
    using assms(1,2) by (simp add: doctor_def Let_def)
  have "OkPool \<notin> set ?ov" "WarnTailscale0 \<notin> set ?ov"
    by (auto simp: doctor_addrs_def doctor_routes_def List.map_filter_def split: option.splits if_splits)
  moreover have "OkPool \<notin> set ?warned" "WarnTailscale0 \<notin> set ?warned"
    by (auto simp: doctor_dirs_def List.map_filter_def Let_def split: option.splits if_splits list.splits)
  moreover have "CheckPoolOverlap he (Interface c) (RoutingTable c) (pool_of c) = None \<longleftrightarrow> ?ov = []"
    using doctor_addrs_Nil doctor_routes_Nil assms(3,4) by (auto simp: CheckPoolOverlap_def split: option.split)
  moreover have "CheckNativeTailscale he = Some NativeInterface \<longleftrightarrow> tailscale0 he"
    by (auto simp: CheckNativeTailscale_def split: option.splits if_splits)
  ultimately show ?thesis using assms(5) unfolding out by auto
qed

section \<open>Examples\<close>

definition ex_cli :: "dm_result cli_env" where
  "ex_cli = \<lparr>c_decode = (\<lambda>_. Some ex_cfg), c_encode = (\<lambda>_. Some [1]), c_path = ''/c'', c_sock = ''/s'', c_stat = (\<lambda>_. False), c_dial = True, c_send = True,
     c_answer = (\<lambda>_. None), c_faults = (\<lambda>_. False), c_tmp = ''/t'', c_part = 0\<rparr>"

definition ex_doc :: doc_env where
  "ex_doc = \<lparr>o_ifaces = [(''lo'', [''127.0.0.1/8'', ''::1/128''])], o_routes = [(None, 254), (Some (''192.168.0.0/16'', 16), 254)],
     o_perm = (\<lambda>_. None), o_rp_filter = Some ''0'', o_rules = None, o_tailscale0 = False\<rparr>"

definition ex_in :: cli_in where
  "ex_in = \<lparr>i_random = Some (replicate 16 0), i_stdin = None, i_render = (\<lambda>_. []), i_doc = ex_doc, i_lines = (\<lambda>_. []), i_version = ''devel''\<rparr>"

theorem cli_writes_valid_config_witness:
  "\<exists>x fs' rs. cli_main ex_cli ex_in [''--config'', ''/c'', ''config'', ''init''] fmempty = (x, fs', rs) \<and> cli_path [''--config'', ''/c'', ''config'', ''init''] = ''/c''
     \<and> (\<exists>c b. valid_config c \<and> c_encode ex_cli c = Some b \<and> fmlookup fs' ''/c'' = Some b)"
proof -
  let ?args = "[''--config'', ''/c'', ''config'', ''init'']"
  have p: "cli_path ?args = ''/c''" by code_simp
  have "fmlookup (fst (snd (cli_main ex_cli ex_in ?args fmempty))) ''/c'' \<noteq> None"
  proof -
    have "cli_parse main_formal ?args = Inr ([(''config'', ''/c'')], [''config'', ''init''])" by code_simp
    moreover have "Validate Default = None" by code_simp
    ultimately show ?thesis
      by (simp add: cli_main_def cli_command_def configCmd_def writeConfig_def WriteAtomic_def Marshal_def finish_def ex_cli_def string_flag_def bool_flag_def Let_def)
  qed
  then obtain x fs' rs where m: "cli_main ex_cli ex_in ?args fmempty = (x, fs', rs)" and w: "fmlookup fs' ''/c'' \<noteq> None"
    by (metis fst_conv prod_cases3 snd_conv)
  have "c_tmp ex_cli |\<notin>| fmdom (fmempty :: files)" "c_tmp ex_cli \<noteq> cli_path ?args" "c_tmp ex_cli \<noteq> cli_path ?args @ ''.lock''"
    by (simp_all add: p ex_cli_def)
  from cli_writes_valid_config [OF this m, THEN conjunct1, unfolded p] w
  have "\<exists>c b. valid_config c \<and> c_encode ex_cli c = Some b \<and> fmlookup fs' ''/c'' = Some b" by (metis fmempty_lookup)
  with m p show ?thesis by blast
qed

theorem doctor_agrees_with_daemon_witness:
  "\<exists>out. doctor (\<lambda>_. Some ex_cfg) (fmupd ''/c'' [] fmempty) ''/c'' ex_doc = Inr out \<and> OkPool \<in> set out"
proof -
  let ?fs = "fmupd ''/c'' [] fmempty"
  let ?he = "ex_host_env\<lparr>link_addrs := Some [(''lo'', [''127.0.0.1/8''])], route_list := Some (o_routes ex_doc), tailscale0 := False\<rparr>"
  have l: "Load (\<lambda>_. Some ex_cfg) ?fs ''/c'' = Inr ex_cfg" by (simp add: Load_def Parse_def ex_cfg_valid)
  then obtain out where out: "doctor (\<lambda>_. Some ex_cfg) ?fs ''/c'' ex_doc = Inr out" by (simp add: doctor_def Let_def)
  have "map (\<lambda>(l, as). (l, filter ipv4_text as)) (o_ifaces ex_doc) = [(''lo'', [''127.0.0.1/8''])]" by code_simp
  then have h: "link_addrs ?he = Some (map (\<lambda>(l, as). (l, filter ipv4_text as)) (o_ifaces ex_doc))" "route_list ?he = Some (o_routes ex_doc)"
    "tailscale0 ?he = o_tailscale0 ex_doc" by (simp_all add: ex_doc_def)
  have "CheckPoolOverlap ?he (Interface ex_cfg) (RoutingTable ex_cfg) (pool_of ex_cfg) = None" by code_simp
  with doctor_agrees_with_daemon [OF out l h] out show ?thesis by blast
qed

definition ex_peer :: Conn where
  "ex_peer = \<lparr>syscall_conn = True, peercred = Some \<lparr>cred_uid = 0, cred_gid = 0, cred_pid = 1\<rparr>, proc_status = None, deadline_ok = (\<lambda>_. True), incoming = []\<rparr>"

definition ex_socket :: "dm_result cli_env" where
  "ex_socket = ex_cli\<lparr>c_stat := (\<lambda>_. True), c_answer := (\<lambda>_. fst (handle (\<lambda>_. Some (write_request [1])) (daemon_handler ex_denv) 0 ex_peer ex_daemon0))\<rparr>"

theorem socket_write_equals_local_witness:
  "\<exists>e fs' rs. writeConfig ex_socket ex_cfg (fmupd ''/c'' [] fmempty) = (e, fs', rs) \<and> fs' = fmupd ''/c'' [] fmempty \<and> rs = [write_request [1]]"
proof -
  let ?fs = "fmupd ''/c'' [] fmempty"
  obtain e fs' rs where via: "writeConfig ex_socket ex_cfg ?fs = (e, fs', rs)" by (metis prod_cases3)
  obtain e0 fs0 rs0 where direct: "writeConfig (ex_socket\<lparr>c_stat := (\<lambda>_. False)\<rparr>) ex_cfg ?fs = (e0, fs0, rs0)" by (metis prod_cases3)
  have "fs' = ?fs \<and> rs = [write_request [1]]"
    using socket_write_equals_local [where cn = ex_peer and denv = ex_denv and d = ex_daemon0 and gid = 0 and rdecode = "\<lambda>_. Some (write_request [1])"
        and cr = "\<lparr>cred_uid = 0, cred_gid = 0, cred_pid = 1\<rparr>", OF _ _ _ _ _ _ _ _ _ _ _ _ _ _ _ _ _ _ _ via direct]
    by (simp add: ex_peer_def ex_socket_def ex_cli_def ex_denv_def ex_daemon0_def ex_flags_def)
  with via show ?thesis by blast
qed

end
