(* ===== verification/Feasibility.thy ===== *)
theory Feasibility
  imports Supervisor Packet PacketTun Flagset
begin

text \<open>
  \<^verbatim>\<open>cmd/tailscale-multitail-feasibility/main.go\<close>: the check that two or three embedded nodes can exchange
  packets through the custom device and expose their inventory.

  What \<^verbatim>\<open>tsnet\<close> does is an argument. Each of its calls may answer, refuse or never return, and what it does
  depends on the context it is given: \<^verbatim>\<open>context.Background()\<close> or one with a timeout. Calls are numbered where a
  node is asked several times. On its packet device a node acts by \<open>Read\<close>, \<open>Write\<close> and \<open>Close\<close> of the theory
  PacketTun, before each operation of the program on that device. An operation that waits forever makes the
  run \<open>Blocked\<close>. Deferred calls are entries of a log.
\<close>

section \<open>Data\<close>

record fstatus =
  fs_self :: "(int \<times> string) option"
  fs_suffix :: "string option"
  fs_peers :: "PeerStatus list"

datatype 'a answer = Hangs | Refused | Reply 'a

datatype ctx = Background | WithTimeout int

record node_env =
  n_up :: "ctx \<Rightarrow> unit answer"
  n_ip :: addr
  n_client :: "nat \<Rightarrow> unit answer"
  n_status :: "ctx \<Rightarrow> nat \<Rightarrow> fstatus answer"
  n_dns :: "ctx \<Rightarrow> string \<Rightarrow> unit answer"
  n_services :: "ctx \<Rightarrow> (string \<times> addr list) list answer"
  n_close :: "unit answer"

datatype tun_act = NodeReads bool "bytes list" "nat list" nat | NodeWrites "nat \<Rightarrow> bool" "bytes list" nat | NodeCloses

datatype feas_error = MissingKeys | BadTimeout | NotIPv4 string | ServicePair | OtherKeyMissing | TempDirFailed | MakeDirFailed | ChmodFailed
  | StartFailed string | WatcherFailed | NoIPv4 addr | StatusFailed | NoNodeID | PeerChangeFailed | NoSelf | QueryFailed string
  | PeerAbsent addr | PeerIncomplete addr | ServicesFailed | InjectFailed tun_error | ReceiveFailed tun_error | ShortPacket nat
  | WrongPacket addr addr | ContextDone | NoService addr | SameSuffix

datatype pass_part = PassBase | PassExternal addr | PassOtherExternal addr | PassDistinct

datatype feas_result = Passed "pass_part list" | Failed feas_error | Blocked

datatype feas_act = MkTemp | RemoveState | Started string | Closed string | TunClosed string | WatchOpened | WatchClosed

record fenv =
  f_node :: "string \<Rightarrow> node_env"
  f_watch :: "ctx \<Rightarrow> unit answer"
  f_first :: "ctx \<Rightarrow> unit answer"
  f_next :: "ctx \<Rightarrow> nat \<Rightarrow> int list answer"
  f_expired :: "nat \<Rightarrow> bool"
  f_acts :: "string \<Rightarrow> nat \<Rightarrow> tun_act list"
  f_sel :: "string \<Rightarrow> nat \<Rightarrow> bool"
  f_late :: "string \<Rightarrow> nat \<Rightarrow> bool"
  f_mktemp :: bool
  f_mkdir :: bool
  f_chmod :: bool

record feas_args =
  a_stateDir :: string
  a_keyA :: string
  a_keyB :: string
  a_keyOther :: string
  a_externalPeer :: string
  a_otherExternalPeer :: string
  a_serviceFQDN :: string
  a_serviceIP :: string
  a_timeout :: int

section \<open>Waiting\<close>

text \<open>What a call gives the program: nothing (it never returns), an error, or a value.\<close>

type_synonym 'a outcome = "(feas_error + 'a) option"

abbreviation fails :: "feas_error \<Rightarrow> 'a outcome" where "fails e \<equiv> Some (Inl e)"
abbreviation gives :: "'a \<Rightarrow> 'a outcome" where "gives x \<equiv> Some (Inr x)"

fun await :: "feas_error \<Rightarrow> 'a answer \<Rightarrow> 'a outcome" where
  "await e Hangs = None"
| "await e Refused = fails e"
| "await e (Reply x) = gives x"

fun and_then :: "'a outcome \<Rightarrow> ('a \<Rightarrow> 'b outcome) \<Rightarrow> 'b outcome" where
  "and_then None k = None"
| "and_then (Some (Inl e)) k = fails e"
| "and_then (Some (Inr x)) k = k x"

text \<open>\<^verbatim>\<open>ctx.Done()\<close>: the background context is never done, one with a timeout when the time has passed.\<close>

definition ctx_Done :: "ctx \<Rightarrow> bool \<Rightarrow> bool" where
  "ctx_Done ctx passed \<longleftrightarrow> ctx \<noteq> Background \<and> passed"

text \<open>What the node does with its device; a \<open>Read\<close> of an empty channel waits and changes nothing.\<close>

fun node_act :: "tun_act \<Rightarrow> Device \<Rightarrow> Device" where
  "node_act (NodeReads sel bufs sizes off) d = (case Read sel d bufs sizes off of None \<Rightarrow> d | Some (_, _, _, d') \<Rightarrow> d')"
| "node_act (NodeWrites sel bufs off) d = snd (Write sel d bufs off)"
| "node_act NodeCloses d = Device_Close d"

definition node_acts :: "tun_act list \<Rightarrow> Device \<Rightarrow> Device" where
  "node_acts = fold node_act"

section \<open>Packets\<close>

function checksum_words :: "u32 \<Rightarrow> bytes \<Rightarrow> u32" where
  "checksum_words s p = (if 2 \<le> length p then checksum_words (s + ucast (be16 p 0)) (drop 2 p)
     else if length p = 1 then s + push_bit 8 (ucast (p ! 0)) else s)"
  by pat_completeness auto
termination by (relation "measure (\<lambda>(_, p). length p)") auto

declare checksum_words.simps [simp del]

definition checksum :: "bytes \<Rightarrow> u16" where
  "checksum p = NOT (ucast (fold_carries (checksum_words 0 p)))"

definition echo :: "addr \<Rightarrow> addr \<Rightarrow> u16 \<Rightarrow> bytes" where
  "echo src dst i = (let p = replicate 28 0;
       p = p[0 := 0x45, 8 := 64, 9 := 1];
       p = put16 p 2 (word_of_nat (length p));
       p = copy_at p 12 16 (AsSlice src);
       p = copy_at p 16 20 (AsSlice dst);
       p = p[20 := 8];
       p = put16 p 24 i;
       p = put16 p 22 (checksum (drop 20 p))
     in put16 p 10 (checksum (take 20 p)))"

text \<open>A packet may come when the time has passed as well; then \<^verbatim>\<open>select\<close> may take either case (\<open>late\<close>).\<close>

definition waitFor :: "ctx \<Rightarrow> bool \<Rightarrow> bool \<Rightarrow> Device \<Rightarrow> addr \<Rightarrow> addr \<Rightarrow> Device outcome" where
  "waitFor ctx late sel d wantSrc wantDst =
    (case Receive sel d of None \<Rightarrow> if ctx_Done ctx True then fails ContextDone else None
     | Some (r, d') \<Rightarrow> if ctx_Done ctx late then fails ContextDone
       else (case r of Inl e \<Rightarrow> fails (ReceiveFailed e)
         | Inr p \<Rightarrow> if length p < 20 then fails (ShortPacket (length p))
           else let src = AddrFrom4 (p ! 12, p ! 13, p ! 14, p ! 15); dst = AddrFrom4 (p ! 16, p ! 17, p ! 18, p ! 19) in
             if src \<noteq> wantSrc \<or> dst \<noteq> wantDst then fails (WrongPacket src dst) else gives d'))"

section \<open>Inventory\<close>

definition parseIPv4Flag :: "string \<Rightarrow> string \<Rightarrow> feas_error + addr" where
  "parseIPv4Flag name v = (if v = [] then Inr NoAddr
     else case ParseAddr v of None \<Rightarrow> Inl (NotIPv4 name) | Some ip \<Rightarrow> if \<not> Is4 ip then Inl (NotIPv4 name) else Inr ip)"

definition node_ipv4 :: "node_env \<Rightarrow> addr outcome" where
  "node_ipv4 n = (if \<not> Is4 (n_ip n) then fails (NoIPv4 (n_ip n)) else gives (n_ip n))"

definition node_status :: "ctx \<Rightarrow> node_env \<Rightarrow> nat \<Rightarrow> fstatus outcome" where
  "node_status ctx n k = and_then (await StatusFailed (n_client n k)) (\<lambda>_. await StatusFailed (n_status n ctx k))"

definition findPeer :: "fstatus \<Rightarrow> addr \<Rightarrow> PeerStatus option" where
  "findPeer st want = find (\<lambda>p. list_ex (\<lambda>ip. ip = want) (peer_ips p)) (fs_peers st)"

definition no_self :: "fstatus \<Rightarrow> bool" where
  "no_self st \<longleftrightarrow> (case fs_self st of None \<Rightarrow> True | Some (_, d) \<Rightarrow> d = []) \<or> (case fs_suffix st of None \<Rightarrow> True | Some s \<Rightarrow> s = [])"

definition self_name :: "fstatus \<Rightarrow> string" where
  "self_name st = (case fs_self st of None \<Rightarrow> [] | Some (_, d) \<Rightarrow> d)"

definition checkInventory :: "ctx \<Rightarrow> node_env \<Rightarrow> nat \<Rightarrow> addr \<Rightarrow> unit outcome" where
  "checkInventory ctx n k peerIP = and_then (await StatusFailed (n_client n k)) (\<lambda>_. and_then (node_status ctx n (k + 1)) (\<lambda>st.
     if no_self st then fails NoSelf
     else and_then (await (QueryFailed (self_name st)) (n_dns n ctx (self_name st))) (\<lambda>_.
       case findPeer st peerIP of None \<Rightarrow> fails (PeerAbsent peerIP)
       | Some p \<Rightarrow>
         if peer_id p = [] \<or> peer_dns p = [] \<or> peer_ips p = [] then fails (PeerIncomplete peerIP)
         else and_then (await ServicesFailed (n_services n ctx)) (\<lambda>_. gives ()))))"

definition checkOtherTailnet :: "ctx \<Rightarrow> node_env \<Rightarrow> nat \<Rightarrow> addr \<Rightarrow> string \<Rightarrow> fstatus outcome" where
  "checkOtherTailnet ctx n k expectedServiceIP serviceFQDN =
     and_then (await StatusFailed (n_client n k)) (\<lambda>_. and_then (await StatusFailed (n_status n ctx k)) (\<lambda>st.
     if no_self st then fails NoSelf
     else and_then (await (QueryFailed (self_name st)) (n_dns n ctx (self_name st))) (\<lambda>_.
       and_then (await ServicesFailed (n_services n ctx)) (\<lambda>services.
         if IsValid expectedServiceIP then
           (if \<not> list_ex (\<lambda>(_, ips). list_ex (\<lambda>ip. ip = expectedServiceIP) ips) services then fails (NoService expectedServiceIP)
            else and_then (await (QueryFailed serviceFQDN) (n_dns n ctx serviceFQDN)) (\<lambda>_. gives st))
         else gives st))))"

text \<open>
  The loop over the watcher's updates, from the \<open>k\<close>-th on: \<open>next\<close> is the watcher, with the changed peers of each update,
  and \<open>passed k\<close> says whether the time has passed when the \<open>k\<close>-th update has been looked at. A loop that
  never ends has the value \<open>None\<close>.
\<close>

partial_function (option) waitForPeerChange :: "ctx \<Rightarrow> (nat \<Rightarrow> int list answer) \<Rightarrow> (nat \<Rightarrow> bool) \<Rightarrow> int \<Rightarrow> nat \<Rightarrow> unit outcome" where
  "waitForPeerChange ctx next passed want k = (case next k of Hangs \<Rightarrow> None | Refused \<Rightarrow> fails PeerChangeFailed
     | Reply ids \<Rightarrow> if want \<in> set ids then gives ()
       else if ctx_Done ctx (passed k) then fails ContextDone else waitForPeerChange ctx next passed want (Suc k))"

declare waitForPeerChange.simps [code]

section \<open>The run\<close>

definition deferred :: "feas_act \<Rightarrow> feas_result \<times> feas_act list \<Rightarrow> feas_result \<times> feas_act list" where
  "deferred a = (\<lambda>(r, log). (r, if r = Blocked then log else log @ [a]))"

definition after :: "'a outcome \<Rightarrow> ('a \<Rightarrow> feas_result \<times> feas_act list) \<Rightarrow> feas_result \<times> feas_act list" where
  "after m k = (case m of None \<Rightarrow> (Blocked, []) | Some (Inl e) \<Rightarrow> (Failed e, []) | Some (Inr x) \<Rightarrow> k x)"

text \<open>
  \<open>start\<close>, and the rest of \<open>run\<close> with the new device, until the deferred \<^verbatim>\<open>Close\<close> of the server, which has no context. Its
  error is ignored.
\<close>

definition start :: "fenv \<Rightarrow> ctx \<Rightarrow> string \<Rightarrow> (Device \<Rightarrow> feas_result \<times> feas_act list) \<Rightarrow> feas_result \<times> feas_act list" where
  "start env ctx sfx k = (let tun = Device_New (''feasibility-'' @ sfx) 1280 128 in
     case n_up (f_node env sfx) ctx of Hangs \<Rightarrow> (Blocked, [])
     | Refused \<Rightarrow> (Failed (StartFailed sfx), [TunClosed sfx])
     | Reply _ \<Rightarrow> (case k tun of (r, log) \<Rightarrow>
         if n_close (f_node env sfx) = Hangs then (Blocked, Started sfx # log)
         else (case deferred (Closed sfx) (r, log) of (r, log) \<Rightarrow> (r, Started sfx # log))))"

definition peerWatcher :: "fenv \<Rightarrow> ctx \<Rightarrow> node_env \<Rightarrow> feas_result \<times> feas_act list \<Rightarrow> feas_result \<times> feas_act list" where
  "peerWatcher env ctx n k = after (await WatcherFailed (n_client n 0)) (\<lambda>_. after (await WatcherFailed (f_watch env ctx)) (\<lambda>_.
     case f_first env ctx of Hangs \<Rightarrow> (Blocked, [WatchOpened])
     | Refused \<Rightarrow> (Failed WatcherFailed, [WatchOpened, WatchClosed])
     | Reply _ \<Rightarrow> (case deferred WatchClosed k of (r, log) \<Rightarrow> (r, WatchOpened # log))))"

text \<open>The devices by the name of their node; a probe is injected on one of them and awaited on one.\<close>

type_synonym devices = "string \<Rightarrow> Device"

definition ping :: "fenv \<Rightarrow> ctx \<Rightarrow> string \<Rightarrow> nat \<Rightarrow> addr \<Rightarrow> addr \<Rightarrow> u16 \<Rightarrow> string \<Rightarrow> nat \<Rightarrow> addr \<Rightarrow> addr \<Rightarrow> devices \<Rightarrow> devices outcome" where
  "ping env ctx tx k src dst i rx j wantSrc wantDst devs =
    (case Inject (f_sel env tx k) (node_acts (f_acts env tx k) (devs tx)) (echo src dst i) of None \<Rightarrow> None
     | Some (Some e, _) \<Rightarrow> fails (InjectFailed e)
     | Some (None, d) \<Rightarrow> let devs = devs(tx := d) in
       and_then (waitFor ctx (f_late env rx j) (f_sel env rx j) (node_acts (f_acts env rx j) (devs rx)) wantSrc wantDst)
         (\<lambda>d. gives (devs(rx := d))))"

definition run_other :: "fenv \<Rightarrow> ctx \<Rightarrow> addr \<Rightarrow> addr \<Rightarrow> string \<Rightarrow> pass_part list \<Rightarrow> devices \<Rightarrow> pass_part list outcome" where
  "run_other env ctx otherOutside service fqdn msg devs =
     and_then (node_ipv4 (f_node env ''other'')) (\<lambda>ipC.
     and_then (if IsValid otherOutside
       then and_then (ping env ctx ''other'' 0 ipC otherOutside 0xcdef ''other'' 1 otherOutside ipC devs) (\<lambda>_. gives (msg @ [PassOtherExternal otherOutside]))
       else gives msg) (\<lambda>msg.
     and_then (checkOtherTailnet ctx (f_node env ''other'') 0 service fqdn) (\<lambda>ost.
     and_then (node_status ctx (f_node env ''a'') 3) (\<lambda>ast.
       if fs_suffix ast = None \<or> fs_suffix ast = fs_suffix ost then fails SameSuffix else gives (msg @ [PassDistinct])))))"

definition run_pings :: "fenv \<Rightarrow> ctx \<Rightarrow> addr \<Rightarrow> addr \<Rightarrow> addr \<Rightarrow> devices \<Rightarrow> pass_part list outcome" where
  "run_pings env ctx ipA ipB outside devs =
    and_then (ping env ctx ''a'' 0 ipA ipB 0x1234 ''b'' 0 ipA ipB devs) (\<lambda>devs.
    and_then (ping env ctx ''b'' 1 ipB ipA 0x5678 ''a'' 1 ipB ipA devs) (\<lambda>devs.
    if IsValid outside then and_then (ping env ctx ''a'' 2 ipA outside 0x9abc ''a'' 3 outside ipA devs) (\<lambda>_. gives [PassBase, PassExternal outside])
    else gives [PassBase]))"

definition run_inventory :: "fenv \<Rightarrow> ctx \<Rightarrow> (addr \<times> addr) outcome" where
  "run_inventory env ctx = (let a = f_node env ''a''; b = f_node env ''b'' in
     and_then (node_ipv4 a) (\<lambda>ipA. and_then (node_ipv4 b) (\<lambda>ipB. and_then (node_status ctx b 0) (\<lambda>st.
       case fs_self st of None \<Rightarrow> fails NoNodeID
       | Some (i, _) \<Rightarrow> if i = 0 then fails NoNodeID
         else and_then (waitForPeerChange ctx (f_next env ctx) (f_expired env) i 0) (\<lambda>_.
           and_then (checkInventory ctx a 1 ipB) (\<lambda>_. and_then (checkInventory ctx b 1 ipA) (\<lambda>_. gives (ipA, ipB))))))))"

text \<open>The servers, their devices and the watcher, each closed when the run returns.\<close>

definition run_nodes :: "fenv \<Rightarrow> ctx \<Rightarrow> feas_args \<Rightarrow> addr \<Rightarrow> addr \<Rightarrow> addr \<Rightarrow> feas_result \<times> feas_act list" where
  "run_nodes env ctx args outside otherOutside service =
    start env ctx ''a'' (\<lambda>tunA. peerWatcher env ctx (f_node env ''a'') (start env ctx ''b'' (\<lambda>tunB.
      after (run_inventory env ctx) (\<lambda>(ipA, ipB).
      after (run_pings env ctx ipA ipB outside (\<lambda>x. if x = ''a'' then tunA else tunB)) (\<lambda>msg.
        if a_keyOther args \<noteq> [] then start env ctx ''other'' (\<lambda>tunC.
          after (run_other env ctx otherOutside service (a_serviceFQDN args) msg (\<lambda>_. tunC)) (\<lambda>msg. (Passed msg, [])))
        else (Passed msg, []))))))"

definition run_flags_ok :: "feas_args \<Rightarrow> feas_error + addr \<times> addr \<times> addr" where
  "run_flags_ok args = (if a_keyA args = [] \<or> a_keyB args = [] then Inl MissingKeys
     else if a_timeout args \<le> 0 then Inl BadTimeout
     else case parseIPv4Flag ''external-peer'' (a_externalPeer args) of Inl e \<Rightarrow> Inl e
     | Inr outside \<Rightarrow> (case parseIPv4Flag ''other-external-peer'' (a_otherExternalPeer args) of Inl e \<Rightarrow> Inl e
     | Inr otherOutside \<Rightarrow> (case parseIPv4Flag ''service-ip'' (a_serviceIP args) of Inl e \<Rightarrow> Inl e
     | Inr service \<Rightarrow>
       if (a_serviceFQDN args = []) \<noteq> (\<not> IsValid service) then Inl ServicePair
       else if (IsValid otherOutside \<or> a_serviceFQDN args \<noteq> []) \<and> a_keyOther args = [] then Inl OtherKeyMissing
       else Inr (outside, otherOutside, service))))"

definition feas_run :: "fenv \<Rightarrow> feas_args \<Rightarrow> feas_result \<times> feas_act list" where
  "feas_run env args = (case run_flags_ok args of Inl e \<Rightarrow> (Failed e, [])
     | Inr (outside, otherOutside, service) \<Rightarrow>
       let temp = (a_stateDir args = []); before = (if temp then [MkTemp] else []) in
       if temp \<and> \<not> f_mktemp env then (Failed TempDirFailed, [])
       else if \<not> f_mkdir env then (Failed MakeDirFailed, before)
       else if \<not> f_chmod env then (Failed ChmodFailed, before)
       else let k = run_nodes env (WithTimeout (a_timeout args)) args outside otherOutside service in
         (case (if temp then deferred RemoveState k else k) of (r, log) \<Rightarrow> (r, before @ log)))"

subsection \<open>The program\<close>

definition feas_formal :: "string \<Rightarrow> flag_kind option" where
  "feas_formal n = (if n \<in> set [''state-dir'', ''external-peer'', ''other-external-peer'', ''service-fqdn'', ''service-ip''] then Some StringFlag
     else if n = ''timeout'' then Some DurationFlag else if n = ''version'' then Some BoolFlag else None)"

text \<open>What \<open>run\<close> is given: the flags, and the keys, which it reads from the environment.\<close>

definition feas_flags :: "(string \<Rightarrow> string) \<Rightarrow> (string \<times> string) list \<Rightarrow> feas_args" where
  "feas_flags genv v = \<lparr>a_stateDir = string_flag v ''state-dir'' [], a_keyA = genv ''TSMULTITAIL_TEST_AUTHKEY_A'',
     a_keyB = genv ''TSMULTITAIL_TEST_AUTHKEY_B'', a_keyOther = genv ''TSMULTITAIL_TEST_AUTHKEY_OTHER'',
     a_externalPeer = string_flag v ''external-peer'' [], a_otherExternalPeer = string_flag v ''other-external-peer'' [],
     a_serviceFQDN = string_flag v ''service-fqdn'' [], a_serviceIP = string_flag v ''service-ip'' [],
     a_timeout = duration_flag v ''timeout'' (2 * Minute)\<rparr>"

text \<open>The exit status (\<open>None\<close> while the run waits) and what the run did; arguments after the flags are ignored.\<close>

definition feas_main :: "(string \<Rightarrow> string) \<Rightarrow> fenv \<Rightarrow> string list \<Rightarrow> int option \<times> feas_act list" where
  "feas_main genv env argv = (case flag_Parse feas_formal (drop 1 argv) [] of
       FlagHelp \<Rightarrow> (Some 0, []) | FlagError \<Rightarrow> (Some 2, [])
     | FlagsParsed v _ \<Rightarrow> if bool_flag v ''version'' then (Some 0, [])
       else (case feas_run env (feas_flags genv v) of (r, log) \<Rightarrow>
         (case r of Passed _ \<Rightarrow> Some 0 | Failed _ \<Rightarrow> Some 1 | Blocked \<Rightarrow> None, log)))"

section \<open>Outcomes\<close>

lemma await_simps [simp]: "await e a = None \<longleftrightarrow> a = Hangs" "await e a = gives x \<longleftrightarrow> a = Reply x"
  by (cases a; simp)+

lemma and_then_None [simp]: "and_then m k = None \<longleftrightarrow> m = None \<or> (\<exists>x. m = gives x \<and> k x = None)"
  by (cases "(m, k)" rule: and_then.cases) auto

lemma and_then_gives [simp]: "and_then m k = gives y \<longleftrightarrow> (\<exists>x. m = gives x \<and> k x = gives y)"
  by (cases "(m, k)" rule: and_then.cases) auto

lemma after_Passed [simp]: "fst (after m k) = Passed msg \<longleftrightarrow> (\<exists>x. m = gives x \<and> fst (k x) = Passed msg)"
  by (auto simp: after_def split: option.split sum.split)

lemma after_Blocked [simp]: "fst (after m k) = Blocked \<longleftrightarrow> m = None \<or> (\<exists>x. m = gives x \<and> fst (k x) = Blocked)"
  by (auto simp: after_def split: option.split sum.split)

section \<open>The probe packets\<close>

lemma be16_cons: "be16 (a # b # p) 0 = be16 [a, b] 0"
  by (simp add: be16_def)

lemma checksum_words_eq: "checksum_words s p = sum_words s p"
proof (induction s p rule: sum_words.induct)
  case (1 s a b p)
  then show ?case by (simp add: checksum_words.simps [of s] be16_cons [of a b p])
qed (simp_all add: checksum_words.simps)

lemma checksum_eq: "checksum p = sum16 p"
  by (simp add: checksum_def sum16_def checksum_words_eq)

text \<open>The packet before its two checksums are stored.\<close>

definition echo_blank :: "quad \<Rightarrow> quad \<Rightarrow> u16 \<Rightarrow> bytes" where
  "echo_blank s d i = [0x45, 0, 0, 28, 0, 0, 0, 0, 64, 1, 0, 0] @ quad_bytes s @ quad_bytes d @ [8, 0, 0, 0, ucast (drop_bit 8 i), ucast i, 0, 0]"

lemma echo_eq: "echo (V4 s) (V4 d) i = (let p = echo_blank (IPv4BytesFromNum s) (IPv4BytesFromNum d) i;
    p = put16 p 22 (sum16 (drop 20 p)) in put16 p 10 (sum16 (take 20 p)))"
proof -
  obtain s0 s1 s2 s3 d0 d1 d2 d3 where q: "IPv4BytesFromNum s = (s0, s1, s2, s3)" "IPv4BytesFromNum d = (d0, d1, d2, d3)"
    by (metis prod_cases4)
  have z: "replicate 28 (0 :: byte) = [0,0,0,0,0,0,0,0,0,0,0,0,0,0,0,0,0,0,0,0,0,0,0,0,0,0,0,0]" by (simp add: numeral_eq_Suc)
  show ?thesis unfolding echo_def Let_def z checksum_eq echo_blank_def q
    by (simp add: q put16_def copy_at_def)
qed

text \<open>
  C39: the probe is a correct ping: for all IPv4 addresses it is a 28-byte unfragmented IPv4 packet that the
  datapath parses as ICMP from the source to the destination, an echo request with the given identifier,
  and both its header checksum and its ICMP checksum verify under the checksum of the datapath, which
  the program's own checksum equals on every input.
\<close>

theorem echo_well_formed:
  fixes s d :: u32 and i :: u16
  defines "p \<equiv> echo (V4 s) (V4 d) i"
  shows "checksum x = sum16 x \<and> length p = 28 \<and> be16 p 2 = 28 \<and> ipv4 p = Inr (V4 s, V4 d, 1) \<and> fragmentBits p = (0, False)
    \<and> p ! 20 = 8 \<and> be16 p 24 = i \<and> sum16 (take 20 p) = 0 \<and> sum16 (drop 20 p) = 0"
proof -
  obtain s0 s1 s2 s3 d0 d1 d2 d3 where q: "IPv4BytesFromNum s = (s0, s1, s2, s3)" "IPv4BytesFromNum d = (d0, d1, d2, d3)"
    by (metis prod_cases4)
  define p0 where "p0 = echo_blank (s0, s1, s2, s3) (d0, d1, d2, d3) i"
  define p1 where "p1 = put16 p0 22 (sum16 (drop 20 p0))"
  have p: "p = put16 p1 10 (sum16 (take 20 p1))" by (simp add: p_def echo_eq q p0_def p1_def Let_def)
  have l: "length p0 = 28" by (simp add: p0_def echo_blank_def)
  have "drop 20 p = put16 (drop 20 p0) 2 (sum16 (drop 20 p0))"
    by (simp add: p p1_def put16_def drop_update_swap)
  moreover have "be16 (drop 20 p0) 2 = 0" by (simp add: p0_def echo_blank_def be16_def)
  ultimately have icmp: "sum16 (drop 20 p) = 0" using sum16_stored [of 2 "drop 20 p0"] l by simp
  have "be16 (take 20 p1) 10 = 0" by (simp add: p1_def p0_def echo_blank_def be16_def put16_def)
  then have header: "sum16 (take 20 p) = 0"
    using sum16_stored [of 10 "take 20 p1"] l by (simp add: p take_put16 p1_def)
  have n: "AddrFrom4 (s0, s1, s2, s3) = V4 s" "AddrFrom4 (d0, d1, d2, d3) = V4 d"
    by (metis AddrFrom4.simps IPv4NumFromBytes_BytesFromNum q)+
  have at: "p ! 0 = 0x45" "p ! 9 = 1" "p ! 12 = s0" "p ! 13 = s1" "p ! 14 = s2" "p ! 15 = s3" "p ! 16 = d0" "p ! 17 = d1" "p ! 18 = d2" "p ! 19 = d3" "p ! 20 = 8"
    by (simp_all add: p p1_def p0_def echo_blank_def put16_def)
  have "ipv4 p = Inr (V4 s, V4 d, 1)" using l at n by (simp add: ipv4_def hdr_len_def p p1_def)
  moreover have "fragmentBits p = (0, False)" "be16 p 2 = 28"
    using l by (simp_all add: fragmentBits_def be16_def p p1_def p0_def echo_blank_def put16_def)
  moreover have "be16 p 24 = be16 (put16 [0, 0] 0 i) 0" by (simp add: be16_def p p1_def p0_def echo_blank_def put16_def)
  then have "be16 p 24 = i" by (simp add: be16_put16)
  ultimately show ?thesis using icmp header at(11) l by (simp add: checksum_eq p p1_def)
qed

section \<open>Cleaning up\<close>

text \<open>Replaying a log on the stack of what is open: closing must match what was opened last.\<close>

fun replay :: "feas_act list \<Rightarrow> feas_act list \<Rightarrow> feas_act list option" where
  "replay [] st = Some st"
| "replay (TunClosed _ # log) st = replay log st"
| "replay (RemoveState # log) st = (if st \<noteq> [] \<and> hd st = MkTemp then replay log (tl st) else None)"
| "replay (Closed x # log) st = (if st \<noteq> [] \<and> hd st = Started x then replay log (tl st) else None)"
| "replay (WatchClosed # log) st = (if st \<noteq> [] \<and> hd st = WatchOpened then replay log (tl st) else None)"
| "replay (a # log) st = replay log (a # st)"

lemma replay_append: "replay (l @ m) st = (case replay l st of None \<Rightarrow> None | Some st \<Rightarrow> replay m st)"
  by (induction l st rule: replay.induct) simp_all

definition balanced :: "feas_result \<times> feas_act list \<Rightarrow> bool" where
  "balanced = (\<lambda>(r, log). r = Blocked \<or> (\<forall>st. replay log st = Some st))"

lemma balanced_plain [simp]: "balanced (r, [])"
  by (simp add: balanced_def)

lemma balanced_start: "(\<And>t. balanced (k t)) \<Longrightarrow> balanced (start env ctx s k)"
  by (fastforce simp: balanced_def start_def deferred_def replay_append Let_def split: prod.splits answer.splits)

lemma balanced_after: "(\<And>x. balanced (k x)) \<Longrightarrow> balanced (after m k)"
  by (simp add: after_def split: option.split sum.split)

lemma balanced_watch: "balanced k \<Longrightarrow> balanced (peerWatcher env ctx n k)"
  unfolding peerWatcher_def
  by (intro balanced_after) (auto simp: balanced_def deferred_def replay_append split: prod.splits answer.splits)

lemma balanced_nodes: "balanced (run_nodes env ctx args outside oo service)"
  unfolding run_nodes_def case_prod_beta by (auto intro!: balanced_start balanced_watch balanced_after)

text \<open>
  A run that returns leaves nothing behind: the servers, the watcher and the temporary state directory are
  released in the reverse order in which they were acquired, whichever step fails. (Only a
  temporary directory that cannot be made private is left, since its removal is deferred later.)
\<close>

lemma feas_cleanup:
  assumes "feas_run env args = (r, log)" "r \<noteq> Blocked" "f_mkdir env" "f_chmod env"
  shows "replay log [] = Some []"
proof (cases "run_flags_ok args")
  case (Inr x)
  obtain outside oo service where x: "x = (outside, oo, service)" by (cases x) auto
  let ?ctx = "WithTimeout (a_timeout args)"
  obtain r' log' where n: "run_nodes env ?ctx args outside oo service = (r', log')" by force
  with balanced_nodes [of env ?ctx args outside oo service] have "r' \<noteq> Blocked \<longrightarrow> replay log' st = Some st" for st by (auto simp: balanced_def)
  then show ?thesis using assms Inr x n
    by (auto simp: feas_run_def Let_def deferred_def replay_append split: if_splits)
qed (use assms in \<open>simp add: feas_run_def\<close>)

section \<open>The devices of the nodes\<close>

text \<open>A packet the node put on its device.\<close>

definition wrote :: "tun_act \<Rightarrow> bytes \<Rightarrow> bool" where
  "wrote act p \<longleftrightarrow> (\<exists>sel bufs off b. act = NodeWrites sel bufs off \<and> b \<in> set bufs \<and> off \<le> length b \<and> p = drop off b)"

lemma Write_loop_effect:
  "snd (Write_loop sel d bufs off i) = e \<Longrightarrow> depth e = depth d \<and> toEngine e = toEngine d
    \<and> set (fromEngine e) \<subseteq> set (fromEngine d) \<union> drop off ` {b \<in> set bufs. off \<le> length b}"
proof (induction sel d bufs off i rule: Write_loop.induct)
  case (2 sel d b bufs off i)
  show ?case
  proof (cases "length b < off \<or> (\<nexists>d'. send (sel i) d FromEngine (drop off b) = Some (None, d'))")
    case True
    then show ?thesis using 2(2) by (auto simp: send_def split: if_splits)
  next
    case False
    then obtain d' where s: "\<not> length b < off" "send (sel i) d FromEngine (drop off b) = Some (None, d')" by blast
    then have "depth d' = depth d" "toEngine d' = toEngine d" "set (fromEngine d') = set (fromEngine d) \<union> {drop off b}"
      by (auto simp: send_def split: if_splits)
    then show ?thesis using 2(1) [OF s(1,2), of None d'] 2(2) s by auto
  qed
qed simp

lemma node_act_effect:
  "depth (node_act act d) = depth d \<and> length (toEngine (node_act act d)) \<le> length (toEngine d)
    \<and> set (fromEngine (node_act act d)) \<subseteq> set (fromEngine d) \<union> Collect (wrote act)"
proof (cases act)
  case (NodeWrites sel bufs off)
  then show ?thesis using Write_loop_effect [OF refl, of sel d bufs off 0] by (fastforce simp: Write_def wrote_def)
qed (auto simp: Read_def Let_def Device_Close_def split: option.splits if_splits)

lemma node_acts_effect:
  "depth (node_acts acts d) = depth d \<and> length (toEngine (node_acts acts d)) \<le> length (toEngine d)
    \<and> set (fromEngine (node_acts acts d)) \<subseteq> set (fromEngine d) \<union> (\<Union>act \<in> set acts. Collect (wrote act))"
proof (induction acts arbitrary: d)
  case (Cons act acts)
  then show ?case using node_act_effect [of act d] Cons.IH [of "node_act act d"] unfolding node_acts_def by fastforce
qed (simp add: node_acts_def)

text \<open>
  A device on which the program has injected at most \<open>n\<close> packets, and which emits only what its node wrote: kept by all
  that the node does, so an injection does not wait.
\<close>

definition dev_ok :: "fenv \<Rightarrow> nat \<Rightarrow> string \<Rightarrow> Device \<Rightarrow> bool" where
  "dev_ok env n x d \<longleftrightarrow> depth d = 128 \<and> length (toEngine d) \<le> n \<and> (\<forall>p \<in> set (fromEngine d). \<exists>k. \<exists>act \<in> set (f_acts env x k). wrote act p)"

lemma dev_ok_New: "dev_ok env n x (Device_New nm m 128)"
  by (simp add: dev_ok_def Device_New_def)

lemma dev_ok_acts: "dev_ok env n x d \<Longrightarrow> dev_ok env n x (node_acts (f_acts env x k) d)"
  using node_acts_effect [of "f_acts env x k" d] unfolding dev_ok_def by auto blast

lemma dev_ok_Inject:
  assumes "dev_ok env n x d" "n < 128"
  shows "\<exists>e d'. Inject sel d p = Some (e, d') \<and> dev_ok env (Suc n) x d'"
  using assms by (auto simp: dev_ok_def Inject_def send_def)

lemma dev_ok_Suc: "dev_ok env n x d \<Longrightarrow> dev_ok env (Suc n) x d"
  by (simp add: dev_ok_def)

definition delivered :: "fenv \<Rightarrow> string \<Rightarrow> addr \<Rightarrow> addr \<Rightarrow> bool" where
  "delivered env x src dst \<longleftrightarrow> (\<exists>k p. \<exists>act \<in> set (f_acts env x k). wrote act p \<and> 20 \<le> length p
     \<and> AddrFrom4 (p ! 12, p ! 13, p ! 14, p ! 15) = src \<and> AddrFrom4 (p ! 16, p ! 17, p ! 18, p ! 19) = dst)"

lemma waitFor_gives:
  assumes "waitFor ctx late sel d src dst = gives d'" "dev_ok env n x d"
  shows "delivered env x src dst \<and> dev_ok env n x d'"
proof -
  obtain p where p: "Receive sel d = Some (Inr p, d')" "20 \<le> length p" "AddrFrom4 (p ! 12, p ! 13, p ! 14, p ! 15) = src"
    "AddrFrom4 (p ! 16, p ! 17, p ! 18, p ! 19) = dst"
    using assms(1) by (auto simp: waitFor_def Let_def split: option.splits prod.splits if_splits sum.splits)
  then have "p \<in> set (fromEngine d)" "d' = d\<lparr>fromEngine := tl (fromEngine d)\<rparr>" by (auto simp: Receive_def split: if_splits)
  with assms(2) p show ?thesis unfolding dev_ok_def delivered_def by (auto dest: list.set_sel(2) [rotated] simp del: AddrFrom4.simps) blast
qed

lemma ping_ok:
  assumes "\<forall>x. dev_ok env n x (devs x)" "n < 128"
  shows "ping env (WithTimeout t) tx k src dst i rx j ws wd devs \<noteq> None"
    and "ping env ctx tx k src dst i rx j ws wd devs = gives devs' \<Longrightarrow> delivered env rx ws wd \<and> (\<forall>x. dev_ok env (Suc n) x (devs' x))"
proof -
  let ?d = "node_acts (f_acts env tx k) (devs tx)"
  obtain e d where inj: "Inject (f_sel env tx k) ?d (echo src dst i) = Some (e, d)" "dev_ok env (Suc n) tx d"
    using dev_ok_Inject [OF dev_ok_acts] assms by blast
  show "ping env (WithTimeout t) tx k src dst i rx j ws wd devs \<noteq> None"
    unfolding ping_def inj(1) by (cases e) (auto simp: Let_def waitFor_def ctx_Done_def split: option.splits prod.splits if_splits sum.splits)
  assume g: "ping env ctx tx k src dst i rx j ws wd devs = gives devs'"
  then obtain d' where w: "waitFor ctx (f_late env rx j) (f_sel env rx j) (node_acts (f_acts env rx j) ((devs(tx := d)) rx)) ws wd = gives d'"
    "devs' = (devs(tx := d))(rx := d')" unfolding ping_def inj(1) by (cases e) (auto simp: Let_def)
  have ok: "dev_ok env (Suc n) x ((devs(tx := d)) x)" for x using assms(1) inj(2) dev_ok_Suc by auto
  from waitFor_gives [OF w(1) dev_ok_acts [OF ok]] ok w(2) show "delivered env rx ws wd \<and> (\<forall>x. dev_ok env (Suc n) x (devs' x))" by auto
qed

section \<open>What a passed run shows\<close>

definition exposes :: "ctx \<Rightarrow> node_env \<Rightarrow> addr \<Rightarrow> bool" where
  "exposes ctx n ip \<longleftrightarrow> (\<exists>st p. n_status n ctx 2 = Reply st \<and> p \<in> set (fs_peers st) \<and> ip \<in> set (peer_ips p) \<and> peer_id p \<noteq> [] \<and> peer_dns p \<noteq> []
     \<and> self_name st \<noteq> [] \<and> n_dns n ctx (self_name st) = Reply () \<and> (\<exists>svs. n_services n ctx = Reply svs))"

lemma findPeer_Some: "findPeer st ip = Some p \<Longrightarrow> p \<in> set (fs_peers st) \<and> ip \<in> set (peer_ips p)"
  by (auto simp: findPeer_def find_Some_iff list_ex_iff)

lemma node_status_gives: "node_status ctx n k = gives st \<longleftrightarrow> n_client n k = Reply () \<and> n_status n ctx k = Reply st"
  by (simp add: node_status_def)

lemma checkInventory_gives:
  assumes "checkInventory ctx n 1 ip = gives ()"
  shows "exposes ctx n ip"
proof -
  obtain st p svs where "n_status n ctx 2 = Reply st" "\<not> no_self st" "n_dns n ctx (self_name st) = Reply ()" "findPeer st ip = Some p"
    "peer_id p \<noteq> []" "peer_dns p \<noteq> []" "n_services n ctx = Reply svs"
    using assms by (auto simp: checkInventory_def node_status_gives numeral_2_eq_2 split: option.splits if_splits)
  moreover have "self_name st \<noteq> []" using \<open>\<not> no_self st\<close> by (auto simp: no_self_def self_name_def split: option.splits)
  ultimately show ?thesis unfolding exposes_def using findPeer_Some by blast
qed

lemma run_pings_ok:
  assumes "\<forall>x. dev_ok env 0 x (devs x)"
  shows "run_pings env (WithTimeout t) ipA ipB outside devs \<noteq> None"
    and "run_pings env ctx ipA ipB outside devs = gives msg \<Longrightarrow>
      delivered env ''b'' ipA ipB \<and> delivered env ''a'' ipB ipA \<and> (IsValid outside \<longrightarrow> delivered env ''a'' outside ipA)"
proof -
  note p = ping_ok [OF assms zero_less_numeral] and q = ping_ok [where n = "Suc 0", simplified] and r = ping_ok [where n = "Suc (Suc 0)", simplified]
  show "run_pings env (WithTimeout t) ipA ipB outside devs \<noteq> None"
    unfolding run_pings_def by (auto simp del: not_None_eq simp: p(1) numeral_2_eq_2 dest!: p(2) q(2) [rotated] intro: q(1) r(1))
  assume "run_pings env ctx ipA ipB outside devs = gives msg"
  then obtain d1 d2 where d: "ping env ctx ''a'' 0 ipA ipB 0x1234 ''b'' 0 ipA ipB devs = gives d1" "ping env ctx ''b'' 1 ipB ipA 0x5678 ''a'' 1 ipB ipA d1 = gives d2"
    "IsValid outside \<Longrightarrow> \<exists>d3. ping env ctx ''a'' 2 ipA outside 0x9abc ''a'' 3 outside ipA d2 = gives d3"
    unfolding run_pings_def by (auto split: if_splits)
  note d1 = p(2) [OF d(1)] and d2 = q(2) [OF conjunct2 [OF p(2) [OF d(1)]] d(2)]
  then show "delivered env ''b'' ipA ipB \<and> delivered env ''a'' ipB ipA \<and> (IsValid outside \<longrightarrow> delivered env ''a'' outside ipA)"
    using r(2) d(3) by blast
qed

lemma run_other_gives:
  assumes "run_other env ctx oo service fqdn msg0 devs = gives msg" "\<forall>x. dev_ok env 0 x (devs x)"
  shows "(IsValid oo \<longrightarrow> delivered env ''other'' oo (n_ip (f_node env ''other'')))
    \<and> (\<exists>a c s. n_status (f_node env ''a'') ctx 3 = Reply a \<and> n_status (f_node env ''other'') ctx 0 = Reply c \<and> fs_suffix c = Some s \<and> fs_suffix a \<noteq> None \<and> fs_suffix a \<noteq> Some s)
    \<and> (IsValid service \<longrightarrow> (\<exists>svs name ips. n_services (f_node env ''other'') ctx = Reply svs \<and> (name, ips) \<in> set svs \<and> service \<in> set ips))"
proof -
  let ?n = "f_node env ''other''"
  have d: "IsValid oo \<longrightarrow> delivered env ''other'' oo (n_ip ?n)"
    using assms(1) ping_ok(2) [OF assms(2) zero_less_numeral] unfolding run_other_def by (auto simp: node_ipv4_def split: if_splits)
  obtain ost ast where o: "checkOtherTailnet ctx ?n 0 service fqdn = gives ost" "n_status (f_node env ''a'') ctx 3 = Reply ast"
    "fs_suffix ast \<noteq> None" "fs_suffix ast \<noteq> fs_suffix ost"
    using assms(1) unfolding run_other_def by (auto simp: node_status_gives split: if_splits)
  have "n_status ?n ctx 0 = Reply ost \<and> \<not> no_self ost \<and> (IsValid service \<longrightarrow> (\<exists>svs name ips. n_services ?n ctx = Reply svs \<and> (name, ips) \<in> set svs \<and> service \<in> set ips))"
    using o(1) unfolding checkOtherTailnet_def by (auto simp: list_ex_iff split: if_splits; blast)
  then show ?thesis using d o(2-4) by (auto simp: no_self_def split: option.splits)
qed

lemma start_Passed: "fst (start env ctx s k) = Passed m \<Longrightarrow> fst (k (Device_New (''feasibility-'' @ s) 1280 128)) = Passed m"
  by (auto simp: start_def deferred_def Let_def split: if_splits prod.splits answer.splits)

lemma peerWatcher_Passed: "fst (peerWatcher env ctx n k) = Passed m \<Longrightarrow> fst k = Passed m"
  by (auto simp: peerWatcher_def deferred_def split: if_splits prod.splits answer.splits)

lemma run_inventory_gives:
  assumes "run_inventory env ctx = gives (ipA, ipB)"
  shows "ipA = n_ip (f_node env ''a'') \<and> ipB = n_ip (f_node env ''b'') \<and> Is4 ipA \<and> Is4 ipB \<and> exposes ctx (f_node env ''a'') ipB \<and> exposes ctx (f_node env ''b'') ipA"
  using assms unfolding run_inventory_def Let_def
  by (auto simp: node_ipv4_def dest: checkInventory_gives [simplified] split: option.splits if_splits)

text \<open>
  A passed run means what it says: both nodes have an IPv4 address; a packet with the right source and
  destination was written to the device by node B for a probe from A, and by A for one from B, and from the external
  peers that were named; each node's status exposes the other with identifier and name, answers DNS
  for its own name and lists services; with a third key, that node's tailnet has another DNS
  suffix than A's, and the named service is among its services.
\<close>

lemma feas_pass_sound:
  assumes "feas_run env args = (Passed msg, log)"
  shows "\<exists>outside oo service ctx. run_flags_ok args = Inr (outside, oo, service) \<and> ctx = WithTimeout (a_timeout args) \<and>
    (let a = f_node env ''a''; b = f_node env ''b''; c = f_node env ''other'' in
     Is4 (n_ip a) \<and> Is4 (n_ip b) \<and> delivered env ''b'' (n_ip a) (n_ip b) \<and> delivered env ''a'' (n_ip b) (n_ip a)
     \<and> (IsValid outside \<longrightarrow> delivered env ''a'' outside (n_ip a)) \<and> exposes ctx a (n_ip b) \<and> exposes ctx b (n_ip a)
     \<and> (a_keyOther args \<noteq> [] \<longrightarrow> (IsValid oo \<longrightarrow> delivered env ''other'' oo (n_ip c))
       \<and> (\<exists>sa sc s. n_status a ctx 3 = Reply sa \<and> n_status c ctx 0 = Reply sc \<and> fs_suffix sc = Some s \<and> fs_suffix sa \<noteq> None \<and> fs_suffix sa \<noteq> Some s)
       \<and> (IsValid service \<longrightarrow> (\<exists>svs name ips. n_services c ctx = Reply svs \<and> (name, ips) \<in> set svs \<and> service \<in> set ips))))"
proof -
  obtain outside oo service where fl: "run_flags_ok args = Inr (outside, oo, service)"
    using assms by (auto simp: feas_run_def split: sum.splits)
  define ctx where "ctx = WithTimeout (a_timeout args)"
  have "fst (run_nodes env ctx args outside oo service) = Passed msg"
    using assms fl by (auto simp: feas_run_def deferred_def Let_def ctx_def split: if_splits prod.splits)
  note r = this [unfolded run_nodes_def, THEN start_Passed, THEN peerWatcher_Passed, THEN start_Passed]
  then obtain ipA ipB m where i: "run_inventory env ctx = gives (ipA, ipB)"
    and m: "run_pings env ctx ipA ipB outside (\<lambda>x. if x = ''a'' then Device_New (''feasibility-'' @ ''a'') 1280 128 else Device_New (''feasibility-'' @ ''b'') 1280 128) = gives m"
    and k: "a_keyOther args \<noteq> [] \<longrightarrow> fst (start env ctx ''other'' (\<lambda>tunC.
          after (run_other env ctx oo service (a_serviceFQDN args) m (\<lambda>_. tunC)) (\<lambda>msg. (Passed msg, [])))) = Passed msg" by (auto simp del: append.simps append_Cons split: if_splits)
  have "a_keyOther args \<noteq> [] \<longrightarrow> run_other env ctx oo service (a_serviceFQDN args) m (\<lambda>_. Device_New (''feasibility-'' @ ''other'') 1280 128) = gives msg"
    using k start_Passed [of env ctx "''other''"] by fastforce
  note o = run_other_gives [OF this [rule_format]]
  have "\<forall>x. dev_ok env 0 x (if x = ''a'' then Device_New (''feasibility-'' @ ''a'') 1280 128 else Device_New (''feasibility-'' @ ''b'') 1280 128)"
    by (simp add: dev_ok_New)
  note run_pings_ok(2) [OF this m] run_inventory_gives [OF i]
  with o fl show ?thesis unfolding Let_def ctx_def by (auto simp: dev_ok_New)
qed

section \<open>The run ends\<close>

text \<open>
  What the program relies on: a call of \<^verbatim>\<open>tsnet\<close> with a context returns by the time the context is done; the calls
  that take no context return.
\<close>

definition honours_ctx :: "node_env \<Rightarrow> bool" where
  "honours_ctx n \<longleftrightarrow> (\<forall>t. n_up n (WithTimeout t) \<noteq> Hangs \<and> n_services n (WithTimeout t) \<noteq> Hangs
     \<and> (\<forall>k. n_status n (WithTimeout t) k \<noteq> Hangs) \<and> (\<forall>x. n_dns n (WithTimeout t) x \<noteq> Hangs))"

definition returns_alone :: "node_env \<Rightarrow> bool" where
  "returns_alone n \<longleftrightarrow> (\<forall>k. n_client n k \<noteq> Hangs) \<and> n_close n \<noteq> Hangs"

definition watch_honours_ctx :: "fenv \<Rightarrow> bool" where
  "watch_honours_ctx env \<longleftrightarrow> (\<forall>t. f_watch env (WithTimeout t) \<noteq> Hangs \<and> f_first env (WithTimeout t) \<noteq> Hangs \<and> (\<forall>k. f_next env (WithTimeout t) k \<noteq> Hangs))"

lemma waitForPeerChange_returns:
  assumes "\<forall>k. next k \<noteq> Hangs" "passed m"
  shows "k \<le> m \<Longrightarrow> waitForPeerChange (WithTimeout t) next passed i k \<noteq> None"
proof (induction "m - k" arbitrary: k)
  case 0
  then show ?case using assms by (subst waitForPeerChange.simps) (auto simp: ctx_Done_def split: answer.split)
next
  case (Suc x)
  then show ?case using assms(1) by (subst waitForPeerChange.simps) (auto split: answer.split)
qed

lemma start_Blocked:
  assumes "fst (start env (WithTimeout t) s k) = Blocked" "honours_ctx (f_node env s)" "returns_alone (f_node env s)"
  shows "fst (k (Device_New (''feasibility-'' @ s) 1280 128)) = Blocked"
  using assms by (auto simp: start_def deferred_def Let_def honours_ctx_def returns_alone_def split: if_splits prod.splits answer.splits)

lemma peerWatcher_Blocked:
  assumes "fst (peerWatcher env (WithTimeout t) n k) = Blocked" "watch_honours_ctx env" "returns_alone n"
  shows "fst k = Blocked"
  using assms by (auto simp: peerWatcher_def deferred_def watch_honours_ctx_def returns_alone_def split: if_splits prod.splits answer.splits)

lemma checks_return:
  assumes "honours_ctx n" "returns_alone n"
  shows "node_status (WithTimeout t) n k \<noteq> None" "checkInventory (WithTimeout t) n k ip \<noteq> None" "checkOtherTailnet (WithTimeout t) n k sip fqdn \<noteq> None"
  using assms unfolding honours_ctx_def returns_alone_def checkInventory_def checkOtherTailnet_def node_status_def
  by (auto simp del: not_None_eq split: option.splits if_splits)

text \<open>
  C40: the run ends. Whatever the nodes do with their devices and whatever they answer, if the calls of \<^verbatim>\<open>tsnet\<close> honour a
  context with a timeout (without one they may hang), those that take no context return, and the time passes in the end,
  then the run returns a verdict: every wait of the program has the timeout, the loop over the
  watcher's updates ends, and no probe waits for room on a device. So the program exits, with status
  0, 1 or 2, whatever its arguments.
\<close>

theorem feas_run_returns:
  assumes "\<And>x. honours_ctx (f_node env x)" "\<And>x. returns_alone (f_node env x)" "watch_honours_ctx env" "f_expired env m"
  shows "fst (feas_run env args) \<noteq> Blocked \<and> (\<exists>status. fst (feas_main genv env argv) = Some status \<and> status \<in> {0, 1, 2})"
proof -
  note checks = checks_return [OF assms(1,2)]
  have inventory: "run_inventory env (WithTimeout t) \<noteq> None" for t
    using checks waitForPeerChange_returns [of "f_next env (WithTimeout t)" "f_expired env" m 0 t] assms(3,4)
    unfolding run_inventory_def Let_def node_ipv4_def watch_honours_ctx_def by (auto simp del: not_None_eq split: option.splits if_splits)
  have other: "run_other env (WithTimeout t) oo service fqdn msg (\<lambda>_. Device_New nm m 128) \<noteq> None" for t oo service fqdn msg nm m
    using checks ping_ok(1) [of env 0] dev_ok_New unfolding run_other_def node_ipv4_def by (auto simp del: not_None_eq split: if_splits)
  have "fst (run_nodes env (WithTimeout t) a outside oo service) \<noteq> Blocked" for t a outside oo service
  proof
    assume "fst (run_nodes env (WithTimeout t) a outside oo service) = Blocked"
    from start_Blocked [OF peerWatcher_Blocked [OF start_Blocked [OF this [unfolded run_nodes_def] assms(1,2)] assms(3,2)] assms(1,2)]
    show False using inventory run_pings_ok(1) dev_ok_New other
      by (auto simp del: not_None_eq simp: case_prod_beta split: if_splits dest!: start_Blocked [OF _ assms(1,2)])
  qed
  moreover from this have "run_nodes env (WithTimeout t) a outside oo service \<noteq> (Blocked, log)" for t a outside oo service log by (metis fst_conv)
  ultimately have run: "fst (feas_run env a) \<noteq> Blocked" for a
    by (auto simp: feas_run_def Let_def deferred_def split: sum.split prod.split)
  then have "fst (feas_main genv env argv) \<in> Some ` {0, 1, 2}"
    by (auto simp: feas_main_def split: flag_result.split prod.split feas_result.split) (metis fst_conv)
  with run show ?thesis by auto
qed

text \<open>The program reports success exactly for a passed run, and the timeout may be written with units.\<close>

lemma feas_main_success:
  assumes "flag_Parse feas_formal (drop 1 argv) [] = FlagsParsed v rest" "\<not> bool_flag v ''version''"
  shows "fst (feas_main genv env argv) = Some 0 \<longleftrightarrow> (\<exists>msg. fst (feas_run env (feas_flags genv v)) = Passed msg)"
  using assms by (auto simp: feas_main_def split: prod.split feas_result.split)

lemma feas_main_timeout:
  assumes "set (map snd xs) \<subseteq> fst ` set unitMap" "(\<Sum>(n, u) \<leftarrow> xs. n * unit_of u) < 2 ^ 63" "xs \<noteq> []"
  shows "feas_main genv env [prog, ''--timeout='' @ duration_text xs] =
    (case feas_run env ((feas_flags genv [])\<lparr>a_timeout := int (\<Sum>(n, u) \<leftarrow> xs. n * unit_of u)\<rparr>) of (r, log) \<Rightarrow>
      (case r of Passed _ \<Rightarrow> Some 0 | Failed _ \<Rightarrow> Some 1 | Blocked \<Rightarrow> None, log))"
proof -
  note p = ParseDuration_text [OF assms]
  have "flag_ok feas_formal (''timeout'', duration_text xs)" by (simp add: flag_ok_def feas_formal_def flag_Set_def p)
  then have "flag_Parse feas_formal [''--timeout='' @ duration_text xs] [] = FlagsParsed [(''timeout'', duration_text xs)] []"
    using flag_Parse_arg [of feas_formal "(''timeout'', duration_text xs)" "[]" "[]"] by (simp add: flag_arg_def del: flag_Parse.simps(2))
  moreover have "feas_flags genv [(''timeout'', duration_text xs)] = (feas_flags genv [])\<lparr>a_timeout := int (\<Sum>(n, u) \<leftarrow> xs. n * unit_of u)\<rparr>"
    by (simp add: feas_flags_def duration_flag_def string_flag_def p)
  ultimately show ?thesis by (simp add: feas_main_def bool_flag_def del: flag_Parse.simps)
qed

section \<open>Examples\<close>

text \<open>Nodes that never return under the background context, and answer under one with a timeout.\<close>

fun patient :: "'a \<Rightarrow> ctx \<Rightarrow> 'a answer" where
  "patient x Background = Hangs"
| "patient x (WithTimeout _) = Reply x"

definition ex_node :: "string \<Rightarrow> u32 \<Rightarrow> u32 \<Rightarrow> node_env" where
  "ex_node x self peer = \<lparr>n_up = patient (), n_ip = V4 self, n_client = (\<lambda>_. Reply ()),
     n_status = (\<lambda>ctx _. patient \<lparr>fs_self = Some (7, x), fs_suffix = Some ''t.ts.net'', fs_peers = [\<lparr>peer_id = ''n'', peer_dns = ''p.t.ts.net'', peer_online = True, peer_ips = [V4 peer]\<rparr>]\<rparr> ctx),
     n_dns = (\<lambda>ctx _. patient () ctx), n_services = patient [], n_close = Reply ()\<rparr>"

definition ex_fenv :: fenv where
  "ex_fenv = \<lparr>f_node = (\<lambda>x. if x = ''a'' then ex_node x 1681915905 1681915906 else ex_node x 1681915906 1681915905), f_watch = patient (), f_first = patient (),
     f_next = (\<lambda>ctx k. patient (if k = 2 then [7] else []) ctx), f_expired = (\<lambda>k. 5 < k),
     f_acts = (\<lambda>x k. [NodeReads True [replicate 32 0] [0] 0,
       NodeWrites (\<lambda>_. True) [if x = ''b'' then echo (V4 1681915905) (V4 1681915906) 0x1234 else echo (V4 1681915906) (V4 1681915905) 0x5678] 0]),
     f_sel = (\<lambda>_ _. True), f_late = (\<lambda>_ _. False), f_mktemp = True, f_mkdir = True, f_chmod = True\<rparr>"

definition ex_fargs :: feas_args where
  "ex_fargs = \<lparr>a_stateDir = [], a_keyA = ''ka'', a_keyB = ''kb'', a_keyOther = [], a_externalPeer = [], a_otherExternalPeer = [], a_serviceFQDN = [], a_serviceIP = [], a_timeout = 1\<rparr>"

definition ex_flog :: "feas_act list" where
  "ex_flog = [MkTemp, Started ''a'', WatchOpened, Started ''b'', Closed ''b'', WatchClosed, Closed ''a'', RemoveState]"

lemma ex_inventory: "run_inventory ex_fenv (WithTimeout t) = gives (V4 1681915905, V4 1681915906)"
  by code_simp

lemma ex_pings: "run_pings ex_fenv (WithTimeout t) (V4 1681915905) (V4 1681915906) NoAddr (\<lambda>x. if x = ''a'' then Device_New nm 1280 128 else Device_New nm' 1280 128) = gives [PassBase]"
  by code_simp

lemma ex_nodes: "run_nodes ex_fenv (WithTimeout t) (ex_fargs\<lparr>a_keyA := x, a_keyB := y, a_timeout := z\<rparr>) NoAddr oo service =
    (Passed [PassBase], [Started ''a'', WatchOpened, Started ''b'', Closed ''b'', WatchClosed, Closed ''a''])"
proof -
  have "n_up (f_node ex_fenv x) (WithTimeout t) = Reply ()" "n_close (f_node ex_fenv x) = Reply ()" "n_client (f_node ex_fenv x) 0 = Reply ()"
    "f_watch ex_fenv (WithTimeout t) = Reply ()" "f_first ex_fenv (WithTimeout t) = Reply ()" for x
    by (simp_all add: ex_fenv_def ex_node_def)
  then show ?thesis using ex_pings [of t "''feasibility-a''" "''feasibility-b''"]
    by (simp add: run_nodes_def start_def peerWatcher_def after_def deferred_def ex_inventory Let_def ex_fargs_def)
qed

lemma ex_feas_run:
  assumes "x \<noteq> []" "y \<noteq> []" "0 < z"
  shows "feas_run ex_fenv (ex_fargs\<lparr>a_keyA := x, a_keyB := y, a_timeout := z\<rparr>) = (Passed [PassBase], ex_flog)"
proof -
  have "run_flags_ok (ex_fargs\<lparr>a_keyA := x, a_keyB := y, a_timeout := z\<rparr>) = Inr (NoAddr, NoAddr, NoAddr)"
    using assms by (simp add: run_flags_ok_def parseIPv4Flag_def ex_fargs_def IsValid_def)
  moreover have "f_mktemp ex_fenv" "f_mkdir ex_fenv" "f_chmod ex_fenv" "a_stateDir ex_fargs = []" by (simp_all add: ex_fenv_def ex_fargs_def)
  ultimately show ?thesis by (simp add: feas_run_def Let_def deferred_def ex_flog_def ex_nodes)
qed

definition ex_getenv :: "string \<Rightarrow> string" where
  "ex_getenv n = (if n = ''TSMULTITAIL_TEST_AUTHKEY_OTHER'' then [] else ''key'')"

lemma ex_feas_main: "feas_main ex_getenv ex_fenv [''feasibility'', ''-timeout'', ''1m30s''] = (Some 0, ex_flog)"
proof -
  have "flag_Parse feas_formal [''-timeout'', ''1m30s''] [] = FlagsParsed [(''timeout'', ''1m30s'')] []" by code_simp
  moreover have "feas_flags ex_getenv [(''timeout'', ''1m30s'')] = ex_fargs\<lparr>a_keyA := ''key'', a_keyB := ''key'', a_timeout := 90000000000\<rparr>" by code_simp
  moreover have "\<not> bool_flag [(''timeout'', ''1m30s'')] ''version''" by code_simp
  ultimately show ?thesis by (simp add: feas_main_def ex_feas_run del: flag_Parse.simps)
qed

text \<open>With the background context the same program would wait forever.\<close>

lemma ex_feas_background: "run_nodes ex_fenv Background ex_fargs NoAddr NoAddr NoAddr = (Blocked, [])"
  by code_simp

theorem feas_run_returns_witness:
  "n_up (f_node ex_fenv ''a'') Background = Hangs \<and> fst (feas_run ex_fenv ex_fargs) \<noteq> Blocked
    \<and> (\<exists>status. fst (feas_main ex_getenv ex_fenv [''feasibility'']) = Some status \<and> status \<in> {0, 1, 2})"
proof -
  have "honours_ctx (f_node ex_fenv x)" "returns_alone (f_node ex_fenv x)" for x
    by (simp_all add: honours_ctx_def returns_alone_def ex_fenv_def ex_node_def)
  moreover have "watch_honours_ctx ex_fenv" "f_expired ex_fenv 6" by (simp_all add: watch_honours_ctx_def ex_fenv_def)
  ultimately have "fst (feas_run ex_fenv ex_fargs) \<noteq> Blocked \<and> (\<exists>status. fst (feas_main ex_getenv ex_fenv [''feasibility'']) = Some status \<and> status \<in> {0, 1, 2})"
    by (rule feas_run_returns)
  moreover have "n_up (f_node ex_fenv ''a'') Background = Hangs" by (simp add: ex_fenv_def ex_node_def)
  ultimately show ?thesis by blast
qed

end
