(* ===== verification/Spec2Isabelle.thy ===== *)
theory Spec2Isabelle
  imports Netip Sha256 Allocator Inventory Checksum Packet PacketTun Mux Config Dnsmux Control Store Supervisor
    Hosttun Resolved Duration Flagset Daemon Sync Cli Feasibility
begin

text \<open>
  A verification development for \<^bold>\<open>tailscale-multitail\<close>: one host that is a member of several
  tailnets at once. A daemon runs one embedded Tailscale node per profile, each with an in-process TUN device,
  and joins them to the host through one host TUN device, a NAT with leased addresses and a DNS responder.
\<close>

section \<open>The program and its parts\<close>

text \<open>
  How the parts interact. The supervisor (\<^verbatim>\<open>internal/runtime\<close>) starts the profiles, follows their local
  API, and keeps their status and targets. From them it builds the inventory (\<^verbatim>\<open>internal/inventory\<close>), gives
  every target an address of the effective pool (\<^verbatim>\<open>internal/allocator\<close>) and stores the leases
  (\<^verbatim>\<open>internal/state\<close>). The daemon (\<^verbatim>\<open>cmd/tailscale-multitaild\<close>) hands targets and leases to the packet
  engine (\<^verbatim>\<open>internal/mux\<close>), which moves packets between the host device (\<^verbatim>\<open>internal/hosttun\<close>) and the
  devices of the profiles (\<^verbatim>\<open>internal/packettun\<close>); to the DNS responder (\<^verbatim>\<open>internal/dnsmux\<close>); and to
  the kernel as routes; and it points systemd-resolved at the responder (\<^verbatim>\<open>internal/resolved\<close>). The client
  (\<^verbatim>\<open>cmd/tsmultitail\<close>) edits the configuration (\<^verbatim>\<open>internal/config\<close>) or asks the daemon over the control
  socket (\<^verbatim>\<open>internal/control\<close>). The feasibility check exercises the device with two or three nodes.

  Which theory models what, in the order of the imports:

  \<^item> \<open>Prelude\<close>: bytes, words, strings, digits, finite maps, slices; shared lemmas. \<open>Netip\<close>: \<^verbatim>\<open>internal/ip/ip.go\<close> and the
    part of \<^verbatim>\<open>net/netip\<close> that is used (\<open>addr\<close>, \<open>prefix\<close>, text forms, order). \<open>Sha256\<close>: the hash, computed in
    the logic. \<open>Duration\<close>, \<open>Flagset\<close>: \<^verbatim>\<open>time.ParseDuration\<close>, with the rounding of its fractions, and
    \<^verbatim>\<open>flag.FlagSet.Parse\<close>.
  \<^item> \<open>Allocator\<close> (\<^verbatim>\<open>allocator.go\<close>): \<open>New\<close>, \<open>Reserve\<close>, \<open>lease\<close>, \<open>Allocate\<close> on the record \<open>Allocator\<close>. Leases are distinct,
    inside the pool and outside its reserved addresses; the probe loop ends and fails exactly when the
    pool is exhausted; allocating again returns the same leases.
  \<^item> \<open>Inventory\<close> (\<^verbatim>\<open>inventory.go\<close>): \<open>Build\<close>, \<open>ResolveRaw\<close>, \<open>target_Key\<close>; the sort package is the locale
    \<open>slice_sorter\<close>, interpreted on an insertion sort.
  \<^item> \<open>Checksum\<close>, \<open>Packet\<close>, \<open>Mux\<close> (\<^verbatim>\<open>mux.go\<close>): checksums, header parsing and rewriting, flow and fragment keys; then the
    engine: \<open>hostStep\<close> and \<open>profileStep\<close> are one turn of the two packet loops on the state \<open>net\<close> (engine, device
    queues, host output), \<open>Update\<close> the change of targets. \<open>net_step\<close> interleaves them and \<open>net_reachable\<close> collects the
    reachable states, with the tables' bounds, the shape of every queued packet and the isolation of the
    profiles as invariants; \<open>profilePacket_refines\<close> relates the loop body to an abstract NAT.
  \<^item> \<open>PacketTun\<close> (\<^verbatim>\<open>channel.go\<close>): the device; each direction implements the queue locale.
  \<^item> \<open>Config\<close> (\<^verbatim>\<open>config.go\<close>): validation and its documented meaning, loading, \<open>WriteAtomic\<close> as the list of file systems
    that arise, \<open>StateDir\<close>.
  \<^item> \<open>Dnsmux\<close> (\<^verbatim>\<open>server.go\<close>): \<open>ServeDNS\<close> and its branches, the tables of the server, rewriting of upstream answers.
  \<^item> \<open>Control\<close> (\<^verbatim>\<open>server.go\<close>): listening, peer credentials, \<open>handle\<close>, the client side.
  \<^item> \<open>Store\<close> (\<^verbatim>\<open>store.go\<close>): opening, recovering, reading and writing the lease table.
  \<^item> \<open>Supervisor\<close> (\<^verbatim>\<open>supervisor.go\<close>): profiles, watching, login and logout, \<open>EffectiveLeases\<close>; \<open>sup_reachable\<close> with the
    invariant \<open>sup_inv\<close>, which gives the packet engine its assumptions.
  \<^item> \<open>Hosttun\<close> (\<^verbatim>\<open>linux.go\<close>) and \<open>Resolved\<close> (\<^verbatim>\<open>resolved_linux.go\<close>): the kernel and the system bus are logs of calls, each with
    an arbitrary outcome; what is added is removed, on every path.
  \<^item> \<open>Daemon\<close> (\<^verbatim>\<open>cmd/tailscale-multitaild/main.go\<close>): startup, main loop, control handler, shutdown;
    \<open>daemon_reachable\<close> composes the supervisor, the engine, the host device and the socket.
  \<^item> \<open>Sync\<close>: the supervisor announces changes and the main loop takes them, with all goroutines interleaved: each write of
    a profile, each notification, each turn of the loop of \<open>StartConfiguredProfiles\<close> for any number of logins,
    and each read of the main loop is a step of its own. The locale \<open>notifying\<close> is the contract of the channel. In the
    \<open>lossless\<close> runs no change is lost: whenever the tables are behind, a notification is owed, and handling
    it puts them in step. The three ways in which the code does lose a change are named there, two of them with a
    lemma that shows the loss.
  \<^item> \<open>Cli\<close> (\<^verbatim>\<open>cmd/tsmultitail/main.go\<close>): \<open>cli_main\<close> and its commands as functions of the arguments, the files and the replies of
    the daemon. The configuration only ever becomes a valid one, directly or through the daemon's handler,
    which come to the same; moving profiles, generated identifiers, \<open>doctor\<close> against the daemon's own checks, the
    alignment of the status table.
  \<^item> \<open>Feasibility\<close> (\<^verbatim>\<open>cmd/tailscale-multitail-feasibility/main.go\<close>): \<open>feas_main\<close> and \<open>feas_run\<close> with its probes; the probe packet is valid for
    the datapath, a passed run means what it prints, everything acquired is released. Each call gets its context, and what
    a node does may depend on it; the run ends because every wait has the timeout.
\<close>

section \<open>Conventions and limits\<close>

text \<open>
  State is passed explicitly, one record per struct; a Go error is a value of a sum or option type, and a
  run-time panic is a value of its own (\<open>Panic\<close>, \<open>IndexPanic\<close>, \<open>HostPanic\<close>). Machine integers are words of their
  width. Loops are structural recursion or functions with a measure; none uses fuel. A wait for
  another party is given the finite list of what arrives, or it is a partial function whose value is \<open>None\<close>
  when it does not return. Code outside the repository appears only as arguments: the
  YAML and JSON codecs, the sort package (with its documented contract), the iteration order of maps (any
  order of the entries), the random source, the clock, the kernel, D-Bus, SQLite's outcomes, and the local API of the
  embedded nodes. A locale states each such contract or each interface between parts, and is interpreted on
  the model's own definitions.

  Atomicity. In the models of the packet engine, the supervisor and the daemon, one turn of a packet loop, one control
  request, one reaction to a change and one update of the watcher are atomic steps. For the tables of the engine, of the
  responder and of the supervisor the mutexes of the code justify this. For a login they do not:
  \<open>StartConfiguredProfiles\<close> reads the list of profiles, releases the lock, and appends later, and control requests run
  concurrently, so two logins can start one profile twice. That the identifiers of the profiles are distinct, and
  what rests on it in \<open>Supervisor\<close> and \<open>Daemon\<close>, is proved for logins that do not overlap. A reaction of \<open>Daemon\<close> to a change
  reads the supervisor once, where the code takes three snapshots in a row. The theory \<open>Sync\<close> has neither restriction.
  A deadline or a full queue that makes an operation wait is \<open>None\<close> or an explicit result.

  Requests to the kernel may fail, and the code ignores some of these failures: that a route is outstanding means that
  the program has asked for it and has not asked for its deletion. A panic of a packet loop ends the process without
  the deferred calls; the theorems on the exit of the daemon are about the returns of \<open>run\<close>. The store is a map of
  leases with the names of its files; what SQLite keeps in its write-ahead log is not modelled. \<open>return_source\<close> and
  the other functions that a comment calls specification translate no code; theorems relate them to the loops.

  Not modelled: logging and the rate limit of log lines, the text of error messages, the rendering of JSON, signal
  delivery, goroutine start-up, the contents of DNS messages beyond the records used, UTF-8 case folding beyond
  ASCII, and the internals of the embedded node, of netlink, SQLite, D-Bus and the TUN driver. The
  property of each theory's main theorems is stated in the text before it.
\<close>

end
